(* ===== verification/Prelude.thy ===== *)
theory Prelude
  imports Main "HOL-Library.Word"
begin

text \<open>
  Shared vocabulary of the development: the exceptions the C++ code can throw, the computations
  that thread a state through calls that may throw (\<open>comp\<close>), the identities of heap objects, the
  error codes of completion handlers as far as the code tells them apart, and the interface
  \<open>invariant_system\<close> through which every invariant of a step relation is proved.
\<close>

named_theorems comp_simps \<open>unfolding of the exception-and-state combinators\<close>
named_theorems world_simps \<open>the effect of an operation on the fields of a world\<close>

section \<open>Exceptions\<close>

text \<open>
  \<open>Invalid_Action\<close> is \<open>message::InvalidActionError\<close>, \<open>JSON_Error\<close> is \<open>message::JSONError\<close>, both with
  the text that \<open>std::exception::what\<close> returns. \<open>Library_Error\<close> is any exception thrown inside a
  library the code calls (\<open>nlohmann::json::exception\<close>, \<open>boost::bad_weak_ptr\<close>); all of these derive
  from \<open>std::exception\<close>. \<open>Undefined_Behaviour\<close> is not an exception of C++: it marks an operation
  whose precondition the program broke (a dangling pointer, \<open>pop\<close> of an empty queue), and no
  \<open>catch\<close> clause stops it.
\<close>

datatype exn =
    Invalid_Action string
  | JSON_Error string
  | Library_Error string
  | Undefined_Behaviour string

fun what :: "exn \<Rightarrow> string" where
  "what (Invalid_Action s) = s"
| "what (JSON_Error s) = s"
| "what (Library_Error s) = s"
| "what (Undefined_Behaviour s) = s"

fun std_exception :: "exn \<Rightarrow> bool" where
  "std_exception (Undefined_Behaviour _) = False"
| "std_exception _ = True"

section \<open>Computations with a state and exceptions\<close>

text \<open>
  A computation returns a value or throws, and in both cases leaves a state behind: the changes made
  before a throw stay, as they do in C++.
\<close>

type_synonym ('s, 'a) comp = "'s \<Rightarrow> (exn + 'a) \<times> 's"

definition ret :: "'a \<Rightarrow> ('s, 'a) comp" where
  "ret x = (\<lambda>s. (Inr x, s))"

definition raise :: "exn \<Rightarrow> ('s, 'a) comp" where
  "raise e = (\<lambda>s. (Inl e, s))"

definition seq :: "('s, 'a) comp \<Rightarrow> ('a \<Rightarrow> ('s, 'b) comp) \<Rightarrow> ('s, 'b) comp" where
  "seq m f = (\<lambda>s. case m s of (Inl e, s') \<Rightarrow> (Inl e, s') | (Inr x, s') \<Rightarrow> f x s')"

definition lift :: "exn + 'a \<Rightarrow> ('s, 'a) comp" where
  "lift r = (\<lambda>s. (r, s))"

definition modify :: "('s \<Rightarrow> 's) \<Rightarrow> ('s, unit) comp" where
  "modify f = (\<lambda>s. (Inr (), f s))"

definition read_state :: "('s \<Rightarrow> 'a) \<Rightarrow> ('s, 'a) comp" where
  "read_state f = (\<lambda>s. (Inr (f s), s))"

definition catch_std :: "('s, 'a) comp \<Rightarrow> (exn \<Rightarrow> ('s, 'a) comp) \<Rightarrow> ('s, 'a) comp" where
  "catch_std m h = (\<lambda>s. case m s of
       (Inl e, s') \<Rightarrow> if std_exception e then h e s' else (Inl e, s')
     | (Inr x, s') \<Rightarrow> (Inr x, s'))"

lemma comp_run [comp_simps]:
  "ret x s = (Inr x, s)"
  "raise e s = (Inl e, s)"
  "lift r s = (r, s)"
  "modify f s = (Inr (), f s)"
  "read_state g s = (Inr (g s), s)"
  by (simp_all add: ret_def raise_def lift_def modify_def read_state_def)

lemma seq_Inr [comp_simps]: "m s = (Inr x, s') \<Longrightarrow> seq m f s = f x s'"
  by (simp add: seq_def)

lemma seq_Inl [comp_simps]: "m s = (Inl e, s') \<Longrightarrow> seq m f s = (Inl e, s')"
  by (simp add: seq_def)

lemma seq_run [comp_simps]:
  "seq (ret x) f s = f x s"
  "seq (raise e) f' s = (Inl e, s)"
  "seq (modify g) f'' s = f'' () (g s)"
  "seq (read_state h) f3 s = f3 (h s) s"
  "seq (lift (Inr y)) f4 s = f4 y s"
  "seq (lift (Inl e)) f5 s = (Inl e, s)"
  by (simp_all add: seq_def comp_run)

lemma seq_assoc: "seq (seq m f) g = seq m (\<lambda>x. seq (f x) g)"
  by (auto simp: seq_def fun_eq_iff split: sum.splits prod.splits)

lemma seq_ret_right: "seq m ret = m"
  by (auto simp: seq_def ret_def fun_eq_iff split: sum.splits prod.splits)

lemma catch_std_Inr [comp_simps]: "m s = (Inr x, s') \<Longrightarrow> catch_std m h s = (Inr x, s')"
  by (simp add: catch_std_def)

lemma catch_std_Inl [comp_simps]:
  "m s = (Inl e, s') \<Longrightarrow> std_exception e \<Longrightarrow> catch_std m h s = h e s'"
  by (simp add: catch_std_def)

text \<open>One computation for each element of a list, in order.\<close>

fun each :: "('a \<Rightarrow> ('s, unit) comp) \<Rightarrow> 'a list \<Rightarrow> ('s, unit) comp" where
  "each f [] = ret ()"
| "each f (x # xs) = seq (f x) (\<lambda>_. each f xs)"

section \<open>Heap identities and error codes\<close>

text \<open>
  A \<open>Conn\<close> is the identity of one \<open>WsConn\<close> object, a \<open>Sess\<close> that of one \<open>HttpSession\<close> object. An
  identity is given out once and never reused, unlike an address; that no stale pointer is ever
  kept is proved, so the difference is not observable.
\<close>

datatype conn = Conn nat
datatype sess = Sess nat

fun conn_index :: "conn \<Rightarrow> nat" where
  "conn_index (Conn n) = n"

instantiation conn :: linorder
begin

definition less_eq_conn :: "conn \<Rightarrow> conn \<Rightarrow> bool" where
  "less_eq_conn a b \<longleftrightarrow> conn_index a \<le> conn_index b"

definition less_conn :: "conn \<Rightarrow> conn \<Rightarrow> bool" where
  "less_conn a b \<longleftrightarrow> conn_index a < conn_index b"

instance
proof
  fix x y z :: conn
  show "(x < y) = (x \<le> y \<and> \<not> y \<le> x)"
    by (auto simp: less_conn_def less_eq_conn_def)
  show "x \<le> x"
    by (simp add: less_eq_conn_def)
  show "x \<le> y \<Longrightarrow> y \<le> z \<Longrightarrow> x \<le> z"
    by (simp add: less_eq_conn_def)
  show "x \<le> y \<Longrightarrow> y \<le> x \<Longrightarrow> x = y"
    by (cases x; cases y) (simp add: less_eq_conn_def)
  show "x \<le> y \<or> y \<le> x"
    by (auto simp: less_eq_conn_def)
qed

end

text \<open>The completion codes the code distinguishes; \<open>Other_Error\<close> is every other failure.\<close>

datatype error_code =
    Success
  | Operation_Aborted
  | End_Of_Stream
  | Websocket_Closed
  | Other_Error string

section \<open>Invariants of step relations\<close>

inductive reach :: "('s \<Rightarrow> bool) \<Rightarrow> ('s \<Rightarrow> 'e \<Rightarrow> 's \<Rightarrow> bool) \<Rightarrow> 's \<Rightarrow> bool"
  for init step where
  reach_init: "init s \<Longrightarrow> reach init step s"
| reach_step: "reach init step s \<Longrightarrow> step s e t \<Longrightarrow> reach init step t"

locale invariant_system =
  fixes init :: "'s \<Rightarrow> bool"
    and step :: "'s \<Rightarrow> 'e \<Rightarrow> 's \<Rightarrow> bool"
    and inv :: "'s \<Rightarrow> bool"
  assumes inv_init: "init s \<Longrightarrow> inv s"
    and inv_step: "inv s \<Longrightarrow> step s e t \<Longrightarrow> inv t"
begin

lemma reach_inv: "reach init step s \<Longrightarrow> inv s"
  by (induction rule: reach.induct) (auto intro: inv_init inv_step)

end

text \<open>
  A detailed system that implements an abstract one: every detailed step is an abstract step or is not
  seen there. What holds of all states the abstract system can reach then holds of the image of every
  state the detailed system can reach.
\<close>

locale simulation = invariant_system init step inv
  for init :: "'s \<Rightarrow> bool"
    and step :: "'s \<Rightarrow> 'e \<Rightarrow> 's \<Rightarrow> bool"
    and inv :: "'s \<Rightarrow> bool" +
  fixes init' :: "'t \<Rightarrow> bool"
    and step' :: "'t \<Rightarrow> 'f \<Rightarrow> 't \<Rightarrow> bool"
    and image :: "'s \<Rightarrow> 't"
  assumes sim_init: "init s \<Longrightarrow> init' (image s)"
    and sim_step: "inv s \<Longrightarrow> step s e t \<Longrightarrow> image t = image s \<or> (\<exists>f. step' (image s) f (image t))"
begin

lemma reach_image: "reach init step s \<Longrightarrow> reach init' step' (image s)"
proof (induction rule: reach.induct)
  case (reach_init s)
  then show ?case by (intro reach.reach_init sim_init)
next
  case (reach_step s e t)
  then show ?case using sim_step [OF reach_inv] reach.reach_step by metis
qed

lemma image_inv: "reach init step s \<Longrightarrow> (\<And>t. reach init' step' t \<Longrightarrow> J t) \<Longrightarrow> J (image s)"
  by (blast intro: reach_image)

end

section \<open>Lists\<close>

lemma count_list_distinct: "distinct xs \<Longrightarrow> count_list xs x = (if x \<in> set xs then 1 else 0)"
  by (induction xs) auto

lemma sum_update:
  fixes f :: "'a \<Rightarrow> nat" and N i :: nat
  assumes "i < N"
  shows "(\<Sum>j<N. f ((g(i := k)) j)) + f (g i) = (\<Sum>j<N. f (g j)) + f k"
proof -
  have "(\<Sum>j<N. f (g j)) = f (g i) + (\<Sum>j \<in> {..<N} - {i}. f (g j))"
    using assms by (simp add: sum.remove)
  moreover have "(\<Sum>j<N. f ((g(i := k)) j)) = f k + (\<Sum>j \<in> {..<N} - {i}. f (g j))"
    using assms by (simp add: sum.remove)
  ultimately show ?thesis by simp
qed

end
