(* ===== verification/Json_Lib.thy ===== *)
theory Json_Lib
  imports Prelude
begin

text \<open>
  The part of \<open>nlohmann::json\<close> that \<open>message.hpp\<close> calls. The library is not part of the repository, so
  its operations are the fields of a record that every definition using them takes as an argument,
  and its type of JSON values is a type variable. What the code relies on is the predicate
  \<open>json_laws\<close>, which states documented behaviour of the library.
\<close>

record 'j json_lib =
  json_parse :: "string \<Rightarrow> exn + 'j"
  json_dump :: "'j \<Rightarrow> exn + string"
  json_at :: "'j \<Rightarrow> string \<Rightarrow> exn + 'j"
  json_contains :: "'j \<Rightarrow> string \<Rightarrow> bool"
  get_string :: "'j \<Rightarrow> exn + string"
  get_int64 :: "'j \<Rightarrow> exn + 64 word"
  of_string :: "string \<Rightarrow> 'j"
  of_int64 :: "64 word \<Rightarrow> 'j"
  json_object :: "(string \<times> 'j) list \<Rightarrow> 'j"

text \<open>\<open>j.at(key).get_to(s)\<close> for a string and for an \<open>int64_t\<close> target.\<close>

definition at_string :: "'j json_lib \<Rightarrow> 'j \<Rightarrow> string \<Rightarrow> exn + string" where
  "at_string L j k = (case json_at L j k of Inl e \<Rightarrow> Inl e | Inr v \<Rightarrow> get_string L v)"

definition at_int64 :: "'j json_lib \<Rightarrow> 'j \<Rightarrow> string \<Rightarrow> exn + 64 word" where
  "at_int64 L j k = (case json_at L j k of Inl e \<Rightarrow> Inl e | Inr v \<Rightarrow> get_int64 L v)"

text \<open>
  \<open>dump\<close> throws on a string that is not UTF-8; \<open>dumpable\<close> says that a string is accepted. Plain ASCII
  always is.
\<close>

definition ascii :: "string \<Rightarrow> bool" where
  "ascii s \<longleftrightarrow> list_all (\<lambda>c. (of_char c :: nat) < 128) s"

definition dumpable :: "'j json_lib \<Rightarrow> string \<Rightarrow> bool" where
  "dumpable L s \<longleftrightarrow> \<not> isl (json_dump L (of_string L s))"

text \<open>The members that \<open>to_json\<close> writes: a string or an \<open>int64_t\<close> under an ASCII key.\<close>

datatype member = Str string | I64 "64 word"

fun to_value :: "'j json_lib \<Rightarrow> member \<Rightarrow> 'j" where
  "to_value L (Str s) = of_string L s"
| "to_value L (I64 n) = of_int64 L n"

fun member_ok :: "'j json_lib \<Rightarrow> member \<Rightarrow> bool" where
  "member_ok L (Str s) = dumpable L s"
| "member_ok L (I64 n) = True"

fun reads_back :: "'j json_lib \<Rightarrow> 'j \<Rightarrow> string \<Rightarrow> member \<Rightarrow> bool" where
  "reads_back L j k (Str s) = (at_string L j k = Inr s)"
| "reads_back L j k (I64 n) = (at_int64 L j k = Inr n)"

definition flat_object :: "'j json_lib \<Rightarrow> (string \<times> member) list \<Rightarrow> 'j" where
  "flat_object L ms = json_object L (map (\<lambda>(k, v). (k, to_value L v)) ms)"

definition keys_ok :: "(string \<times> member) list \<Rightarrow> bool" where
  "keys_ok ms \<longleftrightarrow> distinct (map fst ms) \<and> list_all ascii (map fst ms)"

text \<open>
  The laws. A flat object with distinct ASCII keys is dumped exactly when its strings are UTF-8, and
  the text parses back to an object with the same keys whose members read back as what was written
  (the value itself may differ in representation: a non-negative integer comes back unsigned). A
  string read out of a parsed text is UTF-8, since \<open>parse\<close> rejects everything else. Every failure of
  a library call is an exception of the library.
\<close>

definition json_laws :: "'j json_lib \<Rightarrow> bool" where
  "json_laws L \<longleftrightarrow>
     (\<forall>s. ascii s \<longrightarrow> dumpable L s) \<and>
     (\<forall>ms. keys_ok ms \<longrightarrow>
        ((\<not> isl (json_dump L (flat_object L ms))) \<longleftrightarrow> (\<forall>(k, v) \<in> set ms. member_ok L v))) \<and>
     (\<forall>ms t. keys_ok ms \<longrightarrow>
        json_dump L (flat_object L ms) = Inr t \<longrightarrow>
        (\<exists>j. json_parse L t = Inr j \<and>
             (\<forall>k. json_contains L j k \<longleftrightarrow> k \<in> set (map fst ms)) \<and>
             (\<forall>(k, v) \<in> set ms. reads_back L j k v))) \<and>
     (\<forall>t j k s. json_parse L t = Inr j \<longrightarrow> at_string L j k = Inr s \<longrightarrow> dumpable L s) \<and>
     (\<forall>t e. json_parse L t = Inl e \<longrightarrow> std_exception e) \<and>
     (\<forall>j e. json_dump L j = Inl e \<longrightarrow> std_exception e) \<and>
     (\<forall>j k e. at_string L j k = Inl e \<longrightarrow> std_exception e) \<and>
     (\<forall>j k e. at_int64 L j k = Inl e \<longrightarrow> std_exception e)"

lemma json_laws_ascii: "json_laws L \<Longrightarrow> ascii s \<Longrightarrow> dumpable L s"
  by (simp add: json_laws_def)

lemma json_laws_dump:
  assumes "json_laws L" and "keys_ok ms"
  shows "(\<not> isl (json_dump L (flat_object L ms))) \<longleftrightarrow> (\<forall>(k, v) \<in> set ms. member_ok L v)"
  using assms by (auto simp: json_laws_def)

lemma json_laws_parse_dump:
  assumes "json_laws L" and "keys_ok ms"
    and "json_dump L (flat_object L ms) = Inr t"
  obtains j where "json_parse L t = Inr j"
    and "\<And>k. json_contains L j k \<longleftrightarrow> k \<in> set (map fst ms)"
    and "\<And>k v. (k, v) \<in> set ms \<Longrightarrow> reads_back L j k v"
proof -
  have "\<exists>j. json_parse L t = Inr j \<and> (\<forall>k. json_contains L j k \<longleftrightarrow> k \<in> set (map fst ms)) \<and>
      (\<forall>(k, v) \<in> set ms. reads_back L j k v)"
    using assms by (auto simp: json_laws_def)
  then show thesis
    using that by blast
qed

lemma json_laws_parsed_string:
  "json_laws L \<Longrightarrow> json_parse L t = Inr j \<Longrightarrow> at_string L j k = Inr s \<Longrightarrow> dumpable L s"
  by (auto simp: json_laws_def)

lemma json_laws_std:
  assumes "json_laws L"
  shows "json_parse L t = Inl e \<Longrightarrow> std_exception e"
    and "json_dump L j = Inl e \<Longrightarrow> std_exception e"
    and "at_string L j k = Inl e \<Longrightarrow> std_exception e"
    and "at_int64 L j k = Inl e \<Longrightarrow> std_exception e"
  using assms by (auto simp: json_laws_def)

end
