(* ===== verification/Messages.thy ===== *)
theory Messages
  imports Json_Lib
begin

text \<open>
  Namespace \<open>message\<close> of \<open>wschat-cpp/message.hpp\<close>: the enumeration \<open>Action\<close> and its conversions to
  and from text, the struct \<open>Message\<close> with its constructors, its JSON codec (\<open>to_json\<close>,
  \<open>from_json\<close>) and the members \<open>serialize\<close> and \<open>deserialize\<close>.
\<close>

section \<open>Actions\<close>

text \<open>
  \<open>enum class Action\<close> has the underlying type \<open>int\<close>, so an \<open>Action\<close> that was never assigned may hold a
  value with no enumerator; \<open>Unnamed n\<close> stands for these, and is what the \<open>default\<close> branch of
  \<open>action_str\<close> catches.
\<close>

datatype action = Connect | Chat | Disconnect | Error | Unnamed int

fun action_str :: "action \<Rightarrow> exn + string" where
  "action_str Connect = Inr ''connect''"
| "action_str Chat = Inr ''chat''"
| "action_str Disconnect = Inr ''disconnect''"
| "action_str Error = Inr ''error''"
| "action_str (Unnamed n) = Inl (Invalid_Action ''shouldn't be reached'')"

definition action_from_string :: "string \<Rightarrow> exn + action" where
  "action_from_string sv =
     (if sv = ''connect'' then Inr Connect
      else if sv = ''chat'' then Inr Chat
      else if sv = ''disconnect'' then Inr Disconnect
      else if sv = ''error'' then Inr Error
      else Inl (Invalid_Action (''invalid action: '' @ sv)))"

definition max_action_str_len :: nat where
  "max_action_str_len = 10"

fun named :: "action \<Rightarrow> bool" where
  "named (Unnamed _) = False"
| "named _ = True"

section \<open>Messages\<close>

record message =
  sender :: string
  action :: action
  contents :: string
  timestamp :: "64 word"

text \<open>
  \<open>get_timestamp\<close> reads the system clock; its argument is the number of nanoseconds since the epoch
  that the clock shows, which \<open>count()\<close> returns as an \<open>int64_t\<close>.
\<close>

definition get_timestamp :: "int \<Rightarrow> 64 word" where
  "get_timestamp now = word_of_int now"

definition message_default :: message where
  "message_default = \<lparr>sender = '''', action = Error, contents = '''', timestamp = 0\<rparr>"

definition message_system :: "action \<Rightarrow> string \<Rightarrow> int \<Rightarrow> message" where
  "message_system a c now =
     \<lparr>sender = ''system'', action = a, contents = c, timestamp = get_timestamp now\<rparr>"

definition message_chat :: "string \<Rightarrow> string \<Rightarrow> int \<Rightarrow> message" where
  "message_chat s c now =
     \<lparr>sender = s, action = Chat, contents = c, timestamp = get_timestamp now\<rparr>"

section \<open>The JSON codec\<close>

definition to_json :: "'j json_lib \<Rightarrow> message \<Rightarrow> exn + 'j" where
  "to_json L m = (case action_str (action m) of
       Inl e \<Rightarrow> Inl e
     | Inr a \<Rightarrow> Inr (json_object L
         [(''sender'', of_string L (sender m)),
          (''action'', of_string L a),
          (''contents'', of_string L (contents m)),
          (''timestamp'', of_int64 L (timestamp m))]))"

text \<open>\<open>from_json\<close> assigns the members of an existing message one after the other.\<close>

definition from_json :: "'j json_lib \<Rightarrow> 'j \<Rightarrow> (message, unit) comp" where
  "from_json L j =
     seq (lift (at_string L j ''sender'')) (\<lambda>s.
     seq (modify (\<lambda>m. m\<lparr>sender := s\<rparr>)) (\<lambda>_.
     seq (if json_contains L j ''action''
          then seq (lift (at_string L j ''action'')) (\<lambda>t.
               seq (lift (action_from_string t)) (\<lambda>a. modify (\<lambda>m. m\<lparr>action := a\<rparr>)))
          else modify (\<lambda>m. m\<lparr>action := Chat\<rparr>)) (\<lambda>_.
     seq (if json_contains L j ''contents''
          then seq (lift (at_string L j ''contents'')) (\<lambda>c. modify (\<lambda>m. m\<lparr>contents := c\<rparr>))
          else ret ()) (\<lambda>_.
     if json_contains L j ''timestamp''
     then seq (lift (at_int64 L j ''timestamp'')) (\<lambda>t. modify (\<lambda>m. m\<lparr>timestamp := t\<rparr>))
     else ret ()))))"

definition deserialize :: "'j json_lib \<Rightarrow> string \<Rightarrow> (message, unit) comp" where
  "deserialize L sv =
     catch_std (seq (lift (json_parse L sv)) (\<lambda>msg_json. from_json L msg_json))
       (\<lambda>e. raise (JSON_Error (what e)))"

definition serialize :: "'j json_lib \<Rightarrow> message \<Rightarrow> exn + string" where
  "serialize L m =
     (case (case to_json L m of Inl e \<Rightarrow> Inl e | Inr msg_json \<Rightarrow> json_dump L msg_json) of
        Inl e \<Rightarrow> if std_exception e then Inl (JSON_Error (what e)) else Inl e
      | Inr t \<Rightarrow> Inr t)"

text \<open>
  The constructor from a \<open>string_view\<close> default-initialises the members, so \<open>sender\<close> and \<open>contents\<close>
  start empty while \<open>action\<close> and \<open>timestamp\<close> hold whatever the storage held: \<open>junk\<close>. \<open>from_json\<close> always
  assigns \<open>action\<close>, but leaves \<open>timestamp\<close> when the text has none, and the server then reads it. In C++
  reading an indeterminate value is undefined; here it is an arbitrary value, so that what is proved
  about such a message holds of the code when the compiler makes the read yield some value.
\<close>

record indeterminate =
  junk_action :: action
  junk_timestamp :: "64 word"

definition message_of_string :: "'j json_lib \<Rightarrow> indeterminate \<Rightarrow> string \<Rightarrow> exn + message" where
  "message_of_string L junk sv =
     (case deserialize L sv \<lparr>sender = '''', action = junk_action junk, contents = '''',
                             timestamp = junk_timestamp junk\<rparr> of
        (Inl e, _) \<Rightarrow> Inl e
      | (Inr _, m) \<Rightarrow> Inr m)"

section \<open>Action names\<close>

lemma action_from_string_iff: "action_from_string s = Inr a \<longleftrightarrow> action_str a = Inr s"
  by (cases a) (auto simp: action_from_string_def)

lemma action_str_named: "action_str a = Inr s \<Longrightarrow> named a"
  by (cases a) auto

lemma named_action_str: "named a \<Longrightarrow> \<exists>s. action_str a = Inr s"
  by (cases a) auto

lemma action_str_ascii: "action_str a = Inr s \<Longrightarrow> ascii s"
  by (cases a) (auto simp: ascii_def)

lemma action_str_length: "action_str a = Inr s \<Longrightarrow> length s \<le> max_action_str_len"
  by (cases a) (auto simp: max_action_str_len_def)

lemma action_from_string_named: "action_from_string s = Inr a \<Longrightarrow> named a"
  by (simp add: action_from_string_iff action_str_named)

lemma action_from_string_std: "action_from_string s = Inl e \<Longrightarrow> std_exception e"
  by (auto simp: action_from_string_def split: if_splits)

section \<open>Writing a message\<close>

definition members :: "message \<Rightarrow> string \<Rightarrow> (string \<times> member) list" where
  "members m a =
     [(''sender'', Str (sender m)), (''action'', Str a),
      (''contents'', Str (contents m)), (''timestamp'', I64 (timestamp m))]"

lemma members_keys: "keys_ok (members m a)"
  by (simp add: members_def ascii_def keys_ok_def)

lemma to_json_members: "action_str (action m) = Inr a \<Longrightarrow> to_json L m = Inr (flat_object L (members m a))"
  by (simp add: to_json_def flat_object_def members_def)

lemma serialize_dump:
  "action_str (action m) = Inr a \<Longrightarrow> serialize L m =
     (case json_dump L (flat_object L (members m a)) of
        Inl e \<Rightarrow> if std_exception e then Inl (JSON_Error (what e)) else Inl e
      | Inr t \<Rightarrow> Inr t)"
  by (simp add: serialize_def to_json_members)

lemma serialize_Inr_dump:
  assumes "serialize L m = Inr t"
  obtains a where "action_str (action m) = Inr a"
    and "json_dump L (flat_object L (members m a)) = Inr t"
proof (cases "action_str (action m)")
  case (Inl e)
  with assms show thesis by (simp add: serialize_def to_json_def split: if_splits)
next
  case (Inr a)
  with assms that show thesis
    by (auto simp: serialize_dump split: sum.splits if_splits)
qed

lemma serialize_ok_iff:
  assumes "json_laws L"
  shows "(\<exists>t. serialize L m = Inr t) \<longleftrightarrow>
           named (action m) \<and> dumpable L (sender m) \<and> dumpable L (contents m)"
proof (cases "action_str (action m)")
  case (Inl e)
  then have "\<not> named (action m)" using named_action_str by fastforce
  moreover from Inl have "serialize L m \<noteq> Inr t" for t
    by (auto elim: serialize_Inr_dump)
  ultimately show ?thesis by blast
next
  case (Inr a)
  have "(\<exists>t. serialize L m = Inr t) \<longleftrightarrow> \<not> isl (json_dump L (flat_object L (members m a)))"
    using Inr by (cases "json_dump L (flat_object L (members m a))") (auto simp: serialize_dump)
  also have "\<dots> \<longleftrightarrow> dumpable L (sender m) \<and> dumpable L (contents m)"
    using json_laws_dump [OF assms members_keys]
      json_laws_ascii [OF assms action_str_ascii [OF Inr]]
    by (auto simp: members_def)
  finally show ?thesis using Inr action_str_named by blast
qed

lemma serialize_error:
  assumes "json_laws L" and "serialize L m = Inl e"
  shows "\<exists>w. e = JSON_Error w"
proof (cases "action_str (action m)")
  case (Inl e')
  then have "std_exception e'" by (cases "action m") auto
  with Inl assms(2) show ?thesis by (auto simp: serialize_def to_json_def)
next
  case (Inr a)
  then show ?thesis
    using assms json_laws_std(2) [OF assms(1)]
    by (fastforce simp: serialize_dump split: sum.splits if_splits)
qed

section \<open>Reading a message\<close>

lemma from_json_run:
  "from_json L j m =
    (case at_string L j ''sender'' of
       Inl e \<Rightarrow> (Inl e, m)
     | Inr s \<Rightarrow>
       (case (if json_contains L j ''action''
              then (case at_string L j ''action'' of
                      Inl e \<Rightarrow> Inl e | Inr t \<Rightarrow> action_from_string t)
              else Inr Chat) of
          Inl e \<Rightarrow> (Inl e, m\<lparr>sender := s\<rparr>)
        | Inr a \<Rightarrow>
          (case (if json_contains L j ''contents'' then at_string L j ''contents''
                 else Inr (contents m)) of
             Inl e \<Rightarrow> (Inl e, m\<lparr>sender := s, action := a\<rparr>)
           | Inr c \<Rightarrow>
             (case (if json_contains L j ''timestamp'' then at_int64 L j ''timestamp''
                    else Inr (timestamp m)) of
                Inl e \<Rightarrow> (Inl e, m\<lparr>sender := s, action := a, contents := c\<rparr>)
              | Inr t \<Rightarrow> (Inr (), m\<lparr>sender := s, action := a, contents := c, timestamp := t\<rparr>)))))"
  by (auto simp: from_json_def seq_def comp_run split: sum.splits)

lemma deserialize_run:
  "deserialize L sv m =
     (case json_parse L sv of
        Inl e \<Rightarrow> (if std_exception e then (Inl (JSON_Error (what e)), m) else (Inl e, m))
      | Inr j \<Rightarrow> (case from_json L j m of
          (Inl e, m') \<Rightarrow> (if std_exception e then (Inl (JSON_Error (what e)), m') else (Inl e, m'))
        | (Inr u, m') \<Rightarrow> (Inr u, m')))"
  by (auto simp: deserialize_def catch_std_def seq_def comp_run split: sum.splits prod.splits)

lemma from_json_std:
  assumes "json_laws L" and "from_json L j m = (Inl e, m')"
  shows "std_exception e"
  using assms(2) json_laws_std(3) [OF assms(1)] json_laws_std(4) [OF assms(1)]
    action_from_string_std
  by (auto simp: from_json_run split: sum.splits if_splits)

lemma deserialize_error:
  assumes "json_laws L" and "deserialize L sv m = (Inl e, m')"
  shows "\<exists>w. e = JSON_Error w"
  using assms(2) json_laws_std(1) [OF assms(1)] from_json_std [OF assms(1)]
  by (auto simp: deserialize_run split: sum.splits prod.splits if_splits)

lemma message_of_string_Inr:
  assumes "message_of_string L junk sv = Inr m"
  obtains j where "json_parse L sv = Inr j"
    and "from_json L j \<lparr>sender = '''', action = junk_action junk, contents = '''',
           timestamp = junk_timestamp junk\<rparr> = (Inr (), m)"
  using assms by (auto simp: message_of_string_def deserialize_run
      split: sum.splits prod.splits if_splits)

text \<open>What is undefined in C++: the timestamp of a message whose text has none is the value that the
  storage held.\<close>

lemma missing_timestamp_indeterminate:
  assumes "message_of_string L junk sv = Inr m" and "json_parse L sv = Inr j"
    and "\<not> json_contains L j ''timestamp''"
  shows "timestamp m = junk_timestamp junk"
proof -
  have "from_json L j \<lparr>sender = '''', action = junk_action junk, contents = '''',
      timestamp = junk_timestamp junk\<rparr> = (Inr (), m)"
    by (rule message_of_string_Inr [OF assms(1)]) (simp add: assms(2))
  then show ?thesis using assms(3) by (auto simp: from_json_run split: sum.splits if_splits)
qed

lemma message_of_string_error:
  "json_laws L \<Longrightarrow> message_of_string L junk sv = Inl e \<Longrightarrow> \<exists>w. e = JSON_Error w"
  using deserialize_error by (fastforce simp: message_of_string_def split: sum.splits prod.splits)

text \<open>Whatever is read can be written again.\<close>

lemma message_of_string_serializable:
  assumes L: "json_laws L" and m: "message_of_string L junk sv = Inr m"
  shows "\<exists>t. serialize L m = Inr t"
proof -
  from m obtain j where p: "json_parse L sv = Inr j"
    and f: "from_json L j \<lparr>sender = '''', action = junk_action junk, contents = '''',
           timestamp = junk_timestamp junk\<rparr> = (Inr (), m)"
    by (rule message_of_string_Inr)
  have e: "dumpable L ''''" by (rule json_laws_ascii [OF L]) (simp add: ascii_def)
  have "named (action m) \<and> dumpable L (sender m) \<and> dumpable L (contents m)"
    using f e json_laws_parsed_string [OF L p] action_from_string_named
    by (auto simp: from_json_run split: sum.splits if_splits)
  then show ?thesis by (simp add: serialize_ok_iff [OF L])
qed

text \<open>Reading a written message overwrites every member, so the old value does not matter.\<close>

lemma deserialize_serialize:
  assumes L: "json_laws L" and t: "serialize L m = Inr t"
  shows "deserialize L t m0 = (Inr (), m)"
proof -
  from t obtain a where a: "action_str (action m) = Inr a"
    and d: "json_dump L (flat_object L (members m a)) = Inr t"
    by (rule serialize_Inr_dump)
  obtain j where p: "json_parse L t = Inr j"
    and c: "\<And>k. json_contains L j k \<longleftrightarrow> k \<in> set (map fst (members m a))"
    and r: "\<And>k v. (k, v) \<in> set (members m a) \<Longrightarrow> reads_back L j k v"
    using json_laws_parse_dump [OF L members_keys d] by blast
  have "at_string L j ''sender'' = Inr (sender m)" and "at_string L j ''action'' = Inr a"
    and "at_string L j ''contents'' = Inr (contents m)"
    and "at_int64 L j ''timestamp'' = Inr (timestamp m)"
    using r [of "''sender''" "Str (sender m)"] r [of "''action''" "Str a"]
      r [of "''contents''" "Str (contents m)"] r [of "''timestamp''" "I64 (timestamp m)"]
    by (simp_all add: members_def)
  moreover have "action_from_string a = Inr (action m)"
    using a by (simp add: action_from_string_iff)
  ultimately show ?thesis
    using p c by (simp add: deserialize_run from_json_run members_def)
qed

section \<open>The codec as an interface\<close>

text \<open>
  What the server relies on when it relays messages: texts it writes are read back as the message
  written, whatever it can read it can write, and every failure is an exception of type
  \<open>std::exception\<close>. \<open>laws\<close> is what the codec itself relies on.
\<close>

locale text_codec =
  fixes laws :: bool
    and encode :: "'m \<Rightarrow> exn + 't"
    and decode :: "'k \<Rightarrow> 't \<Rightarrow> exn + 'm"
  assumes decode_encode: "laws \<Longrightarrow> encode m = Inr t \<Longrightarrow> decode k t = Inr m"
    and encode_decoded: "laws \<Longrightarrow> decode k t = Inr m \<Longrightarrow> \<exists>t'. encode m = Inr t'"
    and encode_std: "laws \<Longrightarrow> encode m = Inl e \<Longrightarrow> std_exception e"
    and decode_std: "laws \<Longrightarrow> decode k t = Inl e \<Longrightarrow> std_exception e"
begin

lemma encode_inject: "laws \<Longrightarrow> encode m = Inr t \<Longrightarrow> encode m' = Inr t \<Longrightarrow> m = m'"
  using decode_encode [of m t undefined] decode_encode [of m' t undefined] by simp

lemma relay_text: "laws \<Longrightarrow> decode k t = Inr m \<Longrightarrow> \<exists>t'. encode m = Inr t' \<and> (\<forall>k'. decode k' t' = Inr m)"
  using encode_decoded decode_encode by blast

end

interpretation codec: text_codec "json_laws L" "serialize L" "message_of_string L"
  for L :: "'j json_lib"
proof
  fix m t k e
  assume L: "json_laws L"
  show "serialize L m = Inr t \<Longrightarrow> message_of_string L k t = Inr m"
    by (simp add: message_of_string_def deserialize_serialize [OF L])
  show "message_of_string L k t = Inr m \<Longrightarrow> \<exists>t'. serialize L m = Inr t'"
    by (rule message_of_string_serializable [OF L])
  show "serialize L m = Inl e \<Longrightarrow> std_exception e"
    using serialize_error [OF L] by fastforce
  show "message_of_string L k t = Inl e \<Longrightarrow> std_exception e"
    using message_of_string_error [OF L] by fastforce
qed

end
