(* ===== verification/Runtime.thy ===== *)
theory Runtime
  imports Messages
begin

text \<open>
  The state the chat part of the program works on: the \<open>WsConn\<close> objects on the heap, the asynchronous
  operations outstanding on each, the shared pointers on the stack of the running handler, the
  members of the one \<open>Server\<close>, and what the program reads of its platform. Asio and Beast are not
  part of the repository: an asynchronous operation is recorded as outstanding when the code
  initiates it, and the environment completes outstanding operations in any order with any error
  code, except that the functions posted to one strand run in the order they were posted.
\<close>

section \<open>The platform\<close>

text \<open>
  \<open>clock P n\<close> is the \<open>n\<close>-th reading of \<open>system_clock\<close> in nanoseconds, \<open>random_uuid P n\<close> the text of the
  \<open>n\<close>-th UUID drawn from \<open>boost::uuids::random_generator\<close>, and \<open>place P c cs\<close> the iteration order of
  an \<open>unordered_set\<close> that held \<open>cs\<close> after \<open>c\<close> was inserted (an insertion may rehash).
\<close>

record 'j platform =
  json :: "'j json_lib"
  clock :: "nat \<Rightarrow> int"
  random_uuid :: "nat \<Rightarrow> string"
  place :: "conn \<Rightarrow> conn list \<Rightarrow> conn list"

definition platform_ok :: "'j platform \<Rightarrow> bool" where
  "platform_ok P \<longleftrightarrow> json_laws (json P) \<and> (\<forall>n. ascii (random_uuid P n)) \<and>
     (\<forall>c cs. c \<notin> set cs \<longrightarrow> distinct cs \<longrightarrow>
        distinct (place P c cs) \<and> set (place P c cs) = insert c (set cs))"

section \<open>Objects and outstanding operations\<close>

text \<open>The data members of \<open>WsConn\<close>, without the trailing underscore of their names; its \<open>ws_\<close> stream is represented by the operations on it.\<close>

record wsconn =
  buffer :: string
  queue :: "string list"
  uuid :: string

text \<open>
  Outstanding operations that hold a \<open>shared_ptr\<close> to a connection: handshakes, reads, writes with the
  text being written, and \<open>on_send\<close> calls posted to the strand with their argument.
\<close>

record conn_ops =
  accepts :: nat
  reads :: nat
  writes :: "string list"
  posts :: "string list"

definition no_ops :: conn_ops where
  "no_ops = \<lparr>accepts = 0, reads = 0, writes = [], posts = []\<rparr>"

definition op_count :: "conn_ops \<Rightarrow> nat" where
  "op_count q = accepts q + reads q + length (writes q) + length (posts q)"

text \<open>
  \<open>clients\<close> is \<open>Server::clients_\<close> in its iteration order. \<open>stack\<close> holds the connections that shared
  pointers on the running handler's stack keep alive. \<open>sent\<close> and \<open>wire\<close> are histories that no
  operation reads: the texts given to \<open>WsConn::send\<close>, and the texts whose \<open>async_write\<close> succeeded.
  \<open>crash\<close> is set when an exception leaves a handler, which ends the process.
\<close>

record world =
  heap :: "conn \<Rightarrow> wsconn option"
  ops :: "conn \<Rightarrow> conn_ops"
  stack :: "conn list"
  clients :: "conn list"
  ticks :: nat
  next_conn :: nat
  sent :: "conn \<Rightarrow> string list"
  wire :: "conn \<Rightarrow> string list"
  crash :: "exn option"

definition world0 :: world where
  "world0 = \<lparr>heap = (\<lambda>_. None), ops = (\<lambda>_. no_ops), stack = [], clients = [], ticks = 0,
     next_conn = 0, sent = (\<lambda>_. []), wire = (\<lambda>_. []), crash = None\<rparr>"

definition use_count :: "world \<Rightarrow> conn \<Rightarrow> nat" where
  "use_count w c = op_count (ops w c) + count_list (stack w) c"

section \<open>Access\<close>

definition deref :: "conn \<Rightarrow> (world, wsconn) comp" where
  "deref c = (\<lambda>w. case heap w c of
       None \<Rightarrow> (Inl (Undefined_Behaviour ''dangling WsConn''), w)
     | Some x \<Rightarrow> (Inr x, w))"

definition set_conn :: "conn \<Rightarrow> (wsconn \<Rightarrow> wsconn) \<Rightarrow> world \<Rightarrow> world" where
  "set_conn c f w = w\<lparr>heap := (heap w)(c := map_option f (heap w c))\<rparr>"

definition set_ops :: "conn \<Rightarrow> (conn_ops \<Rightarrow> conn_ops) \<Rightarrow> world \<Rightarrow> world" where
  "set_ops c f w = w\<lparr>ops := (ops w)(c := f (ops w c))\<rparr>"

definition push_stack :: "conn \<Rightarrow> world \<Rightarrow> world" where
  "push_stack c w = w\<lparr>stack := c # stack w\<rparr>"

definition pop_stack :: "conn \<Rightarrow> world \<Rightarrow> world" where
  "pop_stack c w = w\<lparr>stack := remove1 c (stack w)\<rparr>"

text \<open>\<open>boost::enable_shared_from_this\<close>: throws when no shared pointer owns the object.\<close>

definition shared_from_this :: "conn \<Rightarrow> (world, unit) comp" where
  "shared_from_this c = (\<lambda>w.
     if use_count w c = 0 then (Inl (Library_Error ''bad_weak_ptr''), w) else (Inr (), w))"

section \<open>Initiating functions\<close>

definition async_accept :: "conn \<Rightarrow> (world, unit) comp" where
  "async_accept c = seq (shared_from_this c)
     (\<lambda>_. modify (set_ops c (\<lambda>q. q\<lparr>accepts := Suc (accepts q)\<rparr>)))"

definition async_read :: "conn \<Rightarrow> (world, unit) comp" where
  "async_read c = seq (shared_from_this c)
     (\<lambda>_. modify (set_ops c (\<lambda>q. q\<lparr>reads := Suc (reads q)\<rparr>)))"

definition async_write :: "conn \<Rightarrow> string \<Rightarrow> (world, unit) comp" where
  "async_write c t = seq (shared_from_this c)
     (\<lambda>_. modify (set_ops c (\<lambda>q. q\<lparr>writes := writes q @ [t]\<rparr>)))"

definition post_on_send :: "conn \<Rightarrow> string \<Rightarrow> (world, unit) comp" where
  "post_on_send c t = seq (shared_from_this c)
     (\<lambda>_. modify (set_ops c (\<lambda>q. q\<lparr>posts := posts q @ [t]\<rparr>)))"

text \<open>A clock reading, and a system message stamped with it.\<close>

definition clock_now :: "'j platform \<Rightarrow> (world, int) comp" where
  "clock_now P = (\<lambda>w. (Inr (clock P (ticks w)), w\<lparr>ticks := Suc (ticks w)\<rparr>))"

definition system_message :: "'j platform \<Rightarrow> action \<Rightarrow> string \<Rightarrow> (world, message) comp" where
  "system_message P a c = seq (clock_now P) (\<lambda>now. ret (message_system a c now))"

section \<open>Projections\<close>

lemma set_conn_simps [world_simps]:
  "heap (set_conn c f w) = (heap w)(c := map_option f (heap w c))"
  "ops (set_conn c f w) = ops w" "stack (set_conn c f w) = stack w"
  "clients (set_conn c f w) = clients w" "ticks (set_conn c f w) = ticks w"
  "next_conn (set_conn c f w) = next_conn w" "sent (set_conn c f w) = sent w"
  "wire (set_conn c f w) = wire w" "crash (set_conn c f w) = crash w"
  by (simp_all add: set_conn_def)

lemma set_ops_simps [world_simps]:
  "ops (set_ops c g w) = (ops w)(c := g (ops w c))"
  "heap (set_ops c g w) = heap w" "stack (set_ops c g w) = stack w"
  "clients (set_ops c g w) = clients w" "ticks (set_ops c g w) = ticks w"
  "next_conn (set_ops c g w) = next_conn w" "sent (set_ops c g w) = sent w"
  "wire (set_ops c g w) = wire w" "crash (set_ops c g w) = crash w"
  by (simp_all add: set_ops_def)

lemma push_stack_simps [world_simps]:
  "stack (push_stack c w) = c # stack w"
  "heap (push_stack c w) = heap w" "ops (push_stack c w) = ops w"
  "clients (push_stack c w) = clients w" "ticks (push_stack c w) = ticks w"
  "next_conn (push_stack c w) = next_conn w" "sent (push_stack c w) = sent w"
  "wire (push_stack c w) = wire w" "crash (push_stack c w) = crash w"
  by (simp_all add: push_stack_def)

lemma pop_stack_simps [world_simps]:
  "stack (pop_stack c w) = remove1 c (stack w)"
  "heap (pop_stack c w) = heap w" "ops (pop_stack c w) = ops w"
  "clients (pop_stack c w) = clients w" "ticks (pop_stack c w) = ticks w"
  "next_conn (pop_stack c w) = next_conn w" "sent (pop_stack c w) = sent w"
  "wire (pop_stack c w) = wire w" "crash (pop_stack c w) = crash w"
  by (simp_all add: pop_stack_def)

lemma deref_run [comp_simps]:
  "heap w c = Some x \<Longrightarrow> deref c w = (Inr x, w)"
  "heap w c = None \<Longrightarrow> deref c w = (Inl (Undefined_Behaviour ''dangling WsConn''), w)"
  by (simp_all add: deref_def)

lemma initiate_run [comp_simps]:
  assumes "use_count w c > 0"
  shows "shared_from_this c w = (Inr (), w)"
    and "async_accept c w = (Inr (), set_ops c (\<lambda>q. q\<lparr>accepts := Suc (accepts q)\<rparr>) w)"
    and "async_read c w = (Inr (), set_ops c (\<lambda>q. q\<lparr>reads := Suc (reads q)\<rparr>) w)"
    and "async_write c t w = (Inr (), set_ops c (\<lambda>q. q\<lparr>writes := writes q @ [t]\<rparr>) w)"
    and "post_on_send c t w = (Inr (), set_ops c (\<lambda>q. q\<lparr>posts := posts q @ [t]\<rparr>) w)"
  using assms by (simp_all add: shared_from_this_def async_accept_def async_read_def
      async_write_def post_on_send_def seq_def comp_run)

lemma clock_now_run [comp_simps]:
  "clock_now P w = (Inr (clock P (ticks w)), w\<lparr>ticks := Suc (ticks w)\<rparr>)"
  by (simp add: clock_now_def)

lemma system_message_run [comp_simps]:
  "system_message P a c w =
     (Inr (message_system a c (clock P (ticks w))), w\<lparr>ticks := Suc (ticks w)\<rparr>)"
  by (simp add: system_message_def comp_simps)

lemma no_ops_iff:
  "q = no_ops \<longleftrightarrow> accepts q = 0 \<and> reads q = 0 \<and> writes q = [] \<and> posts q = []"
  by (cases q) (simp add: no_ops_def)

lemma op_count_0_iff: "op_count q = 0 \<longleftrightarrow> q = no_ops"
  by (cases q) (auto simp: op_count_def no_ops_def)

lemma use_count_0_iff: "use_count w c = 0 \<longleftrightarrow> ops w c = no_ops \<and> c \<notin> set (stack w)"
  by (auto simp: use_count_def op_count_0_iff count_list_0_iff)

lemma no_ops_simps [simp]:
  "accepts no_ops = 0" "reads no_ops = 0" "writes no_ops = []" "posts no_ops = []"
  "op_count no_ops = 0"
  by (simp_all add: no_ops_def op_count_def)

end
