(* ===== verification/Outbox.thy ===== *)
theory Outbox
  imports Runtime
begin

text \<open>
  The outgoing side of \<open>WsConn\<close> (\<open>include/websocket.cpp\<close>): \<open>send\<close> posts a text to the connection's
  strand, \<open>on_send\<close> queues it and starts a write when none is running, \<open>on_write\<close> takes the written
  text off the queue and starts the next write.
\<close>

definition send :: "conn \<Rightarrow> string \<Rightarrow> (world, unit) comp" where
  "send c ss = seq (post_on_send c ss)
     (\<lambda>_. modify (\<lambda>w. w\<lparr>sent := (sent w)(c := sent w c @ [ss])\<rparr>))"

text \<open>\<open>std::queue::front\<close> and \<open>pop\<close> have no defined behaviour on an empty queue.\<close>

definition queue_front :: "conn \<Rightarrow> (world, string) comp" where
  "queue_front c = seq (deref c) (\<lambda>x. case queue x of
       [] \<Rightarrow> raise (Undefined_Behaviour ''front of an empty queue'')
     | t # _ \<Rightarrow> ret t)"

definition queue_pop :: "conn \<Rightarrow> (world, unit) comp" where
  "queue_pop c = seq (deref c) (\<lambda>x. case queue x of
       [] \<Rightarrow> raise (Undefined_Behaviour ''pop of an empty queue'')
     | _ # ts \<Rightarrow> modify (set_conn c (\<lambda>y. y\<lparr>queue := ts\<rparr>)))"

text \<open>
  \<open>WsConn::fail\<close> tests the error code but its only statement is commented out, so it does nothing.
\<close>

definition wsconn_fail :: "error_code \<Rightarrow> string \<Rightarrow> (world, unit) comp" where
  "wsconn_fail ec w = ret ()"

declare wsconn_fail_def [simp]

definition on_write :: "conn \<Rightarrow> error_code \<Rightarrow> (world, unit) comp" where
  "on_write c ec =
     (if ec \<noteq> Success then wsconn_fail ec ''write''
      else seq (queue_pop c) (\<lambda>_.
           seq (deref c) (\<lambda>x.
           if queue x \<noteq> [] then seq (queue_front c) (async_write c) else ret ())))"

definition on_send :: "conn \<Rightarrow> string \<Rightarrow> (world, unit) comp" where
  "on_send c ss =
     seq (deref c) (\<lambda>_.
     seq (modify (set_conn c (\<lambda>y. y\<lparr>queue := queue y @ [ss]\<rparr>))) (\<lambda>_.
     seq (deref c) (\<lambda>x.
     if length (queue x) > 1 then ret ()
     else seq (queue_front c) (async_write c))))"

section \<open>What the operations do\<close>

definition post_effect :: "string \<Rightarrow> conn \<Rightarrow> world \<Rightarrow> world" where
  "post_effect t c w =
     (set_ops c (\<lambda>q. q\<lparr>posts := posts q @ [t]\<rparr>) w)\<lparr>sent := (sent w)(c := sent w c @ [t])\<rparr>"

lemma send_run [comp_simps]: "use_count w c > 0 \<Longrightarrow> send c t w = (Inr (), post_effect t c w)"
  by (simp add: send_def post_effect_def seq_def comp_simps world_simps)

lemma send_dead: "use_count w c = 0 \<Longrightarrow> send c t w = (Inl (Library_Error ''bad_weak_ptr''), w)"
  by (simp add: send_def post_on_send_def shared_from_this_def seq_def)

lemma on_write_error: "ec \<noteq> Success \<Longrightarrow> on_write c ec w = (Inr (), w)"
  by (simp add: on_write_def comp_run)

lemma on_write_success:
  assumes "heap w c = Some x" and "queue x = t # ts" and "use_count w c > 0"
  shows "on_write c Success w = (Inr (),
     (let w' = set_conn c (\<lambda>y. y\<lparr>queue := ts\<rparr>) w
      in case ts of [] \<Rightarrow> w' | u # _ \<Rightarrow> set_ops c (\<lambda>q. q\<lparr>writes := writes q @ [u]\<rparr>) w'))"
proof -
  let ?w = "set_conn c (\<lambda>y. y\<lparr>queue := ts\<rparr>) w"
  have "use_count ?w c > 0" using assms(3) by (simp add: use_count_def world_simps)
  moreover have "heap ?w c = Some (x\<lparr>queue := ts\<rparr>)" using assms(1) by (simp add: world_simps)
  moreover have "queue_pop c w = (Inr (), ?w)"
    using assms by (simp add: queue_pop_def seq_def comp_simps)
  ultimately show ?thesis
    by (auto simp: on_write_def queue_front_def seq_def comp_simps Let_def split: list.split)
qed

lemma on_send_run:
  assumes "heap w c = Some x" and "use_count w c > 0"
  shows "on_send c t w = (Inr (),
     (let w' = set_conn c (\<lambda>y. y\<lparr>queue := queue y @ [t]\<rparr>) w
      in if queue x = [] then set_ops c (\<lambda>q. q\<lparr>writes := writes q @ [t]\<rparr>) w' else w'))"
proof -
  let ?w = "set_conn c (\<lambda>y. y\<lparr>queue := queue y @ [t]\<rparr>) w"
  have "use_count ?w c > 0" using assms(2) by (simp add: use_count_def world_simps)
  moreover have "heap ?w c = Some (x\<lparr>queue := queue x @ [t]\<rparr>)"
    using assms(1) by (simp add: world_simps)
  ultimately show ?thesis
    using assms(1)
    by (auto simp: on_send_def queue_front_def seq_def comp_simps Let_def neq_Nil_conv)
qed

section \<open>The mailbox interface\<close>

text \<open>
  What the server relies on: delivering to a live recipient succeeds and appends the text to that
  recipient's inbox and to no other, and no delivery makes a recipient live or dead.
\<close>

locale mailbox =
  fixes live :: "'w \<Rightarrow> 'c \<Rightarrow> bool"
    and deliver :: "'c \<Rightarrow> 't \<Rightarrow> ('w, unit) comp"
    and effect :: "'t \<Rightarrow> 'c \<Rightarrow> 'w \<Rightarrow> 'w"
    and inbox :: "'w \<Rightarrow> 'c \<Rightarrow> 't list"
  assumes deliver_live: "live w c \<Longrightarrow> deliver c t w = (Inr (), effect t c w)"
    and live_effect: "live w c \<Longrightarrow> live (effect t c w) d = live w d"
    and inbox_effect: "inbox (effect t c w) = (inbox w)(c := inbox w c @ [t])"
begin

lemma live_fold: "(\<And>c. c \<in> set cs \<Longrightarrow> live w c) \<Longrightarrow> live (fold (effect t) cs w) d = live w d"
  by (induction cs arbitrary: w) (auto simp: live_effect)

lemma inbox_fold:
  "inbox (fold (effect t) cs w) d = inbox w d @ replicate (count_list cs d) t"
  by (induction cs arbitrary: w) (auto simp: inbox_effect replicate_append_same)

lemma inbox_fold_distinct:
  "distinct cs \<Longrightarrow>
     inbox (fold (effect t) cs w) d = (if d \<in> set cs then inbox w d @ [t] else inbox w d)"
  by (simp add: inbox_fold count_list_distinct)

end

interpretation mail: mailbox "\<lambda>w c. use_count w c > 0" send post_effect sent
proof
  fix w c t d
  show "use_count w c > 0 \<Longrightarrow> send c t w = (Inr (), post_effect t c w)"
    by (rule send_run)
  show "use_count w c > 0 \<Longrightarrow> (use_count (post_effect t c w) d > 0) = (use_count w d > 0)"
    by (auto simp: post_effect_def use_count_def op_count_def world_simps)
  show "sent (post_effect t c w) = (sent w)(c := sent w c @ [t])"
    by (simp add: post_effect_def)
qed

end
