(* ===== verification/Server.thy ===== *)
theory Server
  imports Outbox
begin

text \<open>
  Class \<open>Server\<close> (\<open>include/server.cpp\<close>): the set of raw pointers to the connected clients and the
  operations that notify them. A handler runs on one thread from start to end here (the program's
  default of one worker), so the locks are taken without contention.
\<close>

text \<open>
  The loop of \<open>broadcast_msg_text\<close>. \<open>weak.lock()\<close> yields a shared pointer exactly when the use count is
  not zero; that pointer, \<open>strong\<close>, lives to the end of the iteration. It is never the last one
  there, because the \<open>on_send\<close> call just posted holds another (\<open>broadcast_step\<close> below), so no
  destructor runs inside the loop.
\<close>

fun broadcast_loop :: "conn list \<Rightarrow> string \<Rightarrow> (world, unit) comp" where
  "broadcast_loop [] ss = ret ()"
| "broadcast_loop (ws # rest) ss =
     seq (deref ws) (\<lambda>_.
     seq (read_state (\<lambda>w. use_count w ws > 0)) (\<lambda>locked.
     seq (if locked
          then seq (modify (push_stack ws)) (\<lambda>_. seq (send ws ss) (\<lambda>_. modify (pop_stack ws)))
          else ret ()) (\<lambda>_.
     broadcast_loop rest ss)))"

definition broadcast_msg_text :: "string \<Rightarrow> (world, unit) comp" where
  "broadcast_msg_text ss = seq (read_state clients) (\<lambda>cs. broadcast_loop cs ss)"

definition broadcast_msg :: "'j platform \<Rightarrow> message \<Rightarrow> (world, unit) comp" where
  "broadcast_msg P msg = seq (lift (serialize (json P) msg)) broadcast_msg_text"

text \<open>\<open>clients_.insert\<close> and \<open>clients_.erase\<close>.\<close>

definition clients_insert :: "'j platform \<Rightarrow> conn \<Rightarrow> world \<Rightarrow> world" where
  "clients_insert P ws w =
     w\<lparr>clients := (if ws \<in> set (clients w) then clients w else place P ws (clients w))\<rparr>"

definition clients_erase :: "conn \<Rightarrow> world \<Rightarrow> world" where
  "clients_erase ws w = w\<lparr>clients := remove1 ws (clients w)\<rparr>"

definition connect :: "'j platform \<Rightarrow> conn \<Rightarrow> (world, unit) comp" where
  "connect P ws =
     seq (deref ws) (\<lambda>x.
     seq (system_message P Connect (uuid x)) (\<lambda>msg.
     seq (lift (serialize (json P) msg)) (\<lambda>ss.
     seq (send ws ss) (\<lambda>_.
     seq (broadcast_msg_text ss) (\<lambda>_.
     modify (clients_insert P ws))))))"

definition disconnect :: "'j platform \<Rightarrow> conn \<Rightarrow> (world, unit) comp" where
  "disconnect P ws =
     seq (deref ws) (\<lambda>x.
     seq (system_message P Disconnect (uuid x)) (\<lambda>msg.
     seq (broadcast_msg P msg) (\<lambda>_.
     modify (clients_erase ws))))"

section \<open>The effect of a broadcast\<close>

text \<open>\<open>post_all A t\<close> is the world in which \<open>t\<close> has been posted once to every connection of \<open>A\<close>.\<close>

definition post_all :: "conn set \<Rightarrow> string \<Rightarrow> world \<Rightarrow> world" where
  "post_all A t w = w\<lparr>
     ops := (\<lambda>c. if c \<in> A then (ops w c)\<lparr>posts := posts (ops w c) @ [t]\<rparr> else ops w c),
     sent := (\<lambda>c. if c \<in> A then sent w c @ [t] else sent w c)\<rparr>"

lemma post_all_simps [world_simps]:
  "ops (post_all A t w) c = (if c \<in> A then (ops w c)\<lparr>posts := posts (ops w c) @ [t]\<rparr> else ops w c)"
  "sent (post_all A t w) c = (if c \<in> A then sent w c @ [t] else sent w c)"
  "heap (post_all A t w) = heap w" "stack (post_all A t w) = stack w"
  "clients (post_all A t w) = clients w" "ticks (post_all A t w) = ticks w"
  "next_conn (post_all A t w) = next_conn w" "wire (post_all A t w) = wire w"
  "crash (post_all A t w) = crash w"
  by (simp_all add: post_all_def)

lemma post_all_empty: "post_all {} t w = w"
  by (simp add: post_all_def)

lemma post_all_insert: "c \<notin> A \<Longrightarrow> post_all A t (post_effect t c w) = post_all (insert c A) t w"
  by (rule world.equality)
     (auto simp: post_all_def post_effect_def set_ops_def fun_eq_iff)

lemma fold_post_effect:
  "distinct cs \<Longrightarrow> fold (post_effect t) cs w = post_all (set cs) t w"
proof (induction cs arbitrary: w)
  case Nil
  show ?case by (simp add: post_all_empty)
next
  case (Cons c cs)
  then show ?case by (simp add: post_all_insert)
qed

lemma use_count_post_all:
  "use_count (post_all A t w) c = use_count w c + (if c \<in> A then 1 else 0)"
  by (simp add: use_count_def op_count_def world_simps)

lemma broadcast_step:
  assumes "use_count w c > 0"
  shows "(seq (modify (push_stack c)) (\<lambda>_. seq (send c t) (\<lambda>_. modify (pop_stack c)))) w
           = (Inr (), post_effect t c w)"
    and "use_count (post_effect t c w) c > 0"
proof -
  have "use_count (push_stack c w) c > 0" by (simp add: use_count_def world_simps)
  then have "send c t (push_stack c w) = (Inr (), post_effect t c (push_stack c w))"
    by (rule send_run)
  moreover have "pop_stack c (post_effect t c (push_stack c w)) = post_effect t c w"
    by (rule world.equality) (simp_all add: post_effect_def set_ops_def pop_stack_def push_stack_def)
  ultimately show "(seq (modify (push_stack c)) (\<lambda>_. seq (send c t) (\<lambda>_. modify (pop_stack c)))) w
           = (Inr (), post_effect t c w)"
    by (simp add: seq_def comp_simps)
  show "use_count (post_effect t c w) c > 0"
    using mail.live_effect [OF assms] assms by blast
qed

lemma broadcast_loop_run:
  assumes "\<And>c. c \<in> set cs \<Longrightarrow> heap w c \<noteq> None"
  shows "broadcast_loop cs t w = (Inr (), fold (post_effect t) (filter (\<lambda>c. use_count w c > 0) cs) w)"
  using assms
proof (induction cs arbitrary: w)
  case Nil
  show ?case by (simp add: comp_simps)
next
  case (Cons c cs)
  then obtain x where x: "heap w c = Some x" by fastforce
  show ?case
  proof (cases "use_count w c > 0")
    case True
    have "heap (post_effect t c w) d \<noteq> None" if "d \<in> set cs" for d
      using that Cons.prems by (simp add: post_effect_def world_simps)
    then have "broadcast_loop cs t (post_effect t c w) = (Inr (), fold (post_effect t)
        (filter (\<lambda>d. use_count (post_effect t c w) d > 0) cs) (post_effect t c w))"
      by (rule Cons.IH)
    then show ?thesis
      using True x broadcast_step(1) [OF True, of t] mail.live_effect [OF True, of t]
      by (simp add: seq_def comp_simps)
  next
    case False
    then show ?thesis using x Cons by (simp add: seq_def comp_simps)
  qed
qed

lemma broadcast_msg_text_run:
  assumes "distinct (clients w)" and "\<And>c. c \<in> set (clients w) \<Longrightarrow> heap w c \<noteq> None"
  shows "broadcast_msg_text t w =
           (Inr (), post_all {c \<in> set (clients w). use_count w c > 0} t w)"
  using broadcast_loop_run [OF assms(2), where cs = "clients w"] assms(1)
  by (simp add: broadcast_msg_text_def seq_def comp_simps fold_post_effect)

lemma broadcast_dangling:
  assumes "c \<in> set cs" and "heap w c = None"
  shows "\<exists>w'. broadcast_loop cs t w = (Inl (Undefined_Behaviour ''dangling WsConn''), w')"
  using assms
proof (induction cs arbitrary: w)
  case Nil
  then show ?case by simp
next
  case (Cons d cs)
  show ?case
  proof (cases "heap w d")
    case None
    then show ?thesis by (simp add: seq_def comp_simps)
  next
    case (Some x)
    with Cons.prems have c: "c \<in> set cs" by auto
    let ?w = "if use_count w d > 0 then post_effect t d w else w"
    have "heap ?w c = None" using Cons.prems by (simp add: post_effect_def world_simps)
    with c obtain w' where "broadcast_loop cs t ?w = (Inl (Undefined_Behaviour ''dangling WsConn''), w')"
      using Cons.IH by blast
    then show ?thesis
      using Some broadcast_step(1) [of w d t] by (auto simp: seq_def comp_simps)
  qed
qed

section \<open>The effect of connect and disconnect\<close>

definition system_text :: "'j platform \<Rightarrow> action \<Rightarrow> string \<Rightarrow> nat \<Rightarrow> exn + string" where
  "system_text P a c n = serialize (json P) (message_system a c (clock P n))"

definition tick :: "world \<Rightarrow> world" where
  "tick w = w\<lparr>ticks := Suc (ticks w)\<rparr>"

lemma tick_simps [world_simps]:
  "ticks (tick w) = Suc (ticks w)" "heap (tick w) = heap w" "ops (tick w) = ops w"
  "stack (tick w) = stack w" "clients (tick w) = clients w" "next_conn (tick w) = next_conn w"
  "sent (tick w) = sent w" "wire (tick w) = wire w" "crash (tick w) = crash w"
  by (simp_all add: tick_def)

lemma clients_insert_simps [world_simps]:
  "heap (clients_insert P c w) = heap w" "ops (clients_insert P c w) = ops w"
  "stack (clients_insert P c w) = stack w" "ticks (clients_insert P c w) = ticks w"
  "next_conn (clients_insert P c w) = next_conn w" "sent (clients_insert P c w) = sent w"
  "wire (clients_insert P c w) = wire w" "crash (clients_insert P c w) = crash w"
  by (simp_all add: clients_insert_def)

lemma clients_erase_simps [world_simps]:
  "clients (clients_erase c w) = remove1 c (clients w)"
  "heap (clients_erase c w) = heap w" "ops (clients_erase c w) = ops w"
  "stack (clients_erase c w) = stack w" "ticks (clients_erase c w) = ticks w"
  "next_conn (clients_erase c w) = next_conn w" "sent (clients_erase c w) = sent w"
  "wire (clients_erase c w) = wire w" "crash (clients_erase c w) = crash w"
  by (simp_all add: clients_erase_def)

lemma clients_insert_set:
  assumes "platform_ok P" and "distinct (clients w)"
  shows "set (clients (clients_insert P c w)) = insert c (set (clients w))"
    and "distinct (clients (clients_insert P c w))"
  using assms by (auto simp: platform_ok_def clients_insert_def)

lemma system_text_ok:
  assumes "platform_ok P" and "named a" and "ascii u"
  obtains t where "system_text P a u n = Inr t"
proof -
  have L: "json_laws (json P)" using assms(1) by (simp add: platform_ok_def)
  have "ascii ''system''" by (simp add: ascii_def)
  then have "\<exists>t. serialize (json P) (message_system a u (clock P n)) = Inr t"
    using assms(2,3) json_laws_ascii [OF L]
    by (simp add: serialize_ok_iff [OF L] message_system_def)
  then show thesis using that by (auto simp: system_text_def)
qed

text \<open>A text the server stamped itself decodes to the message it stamped.\<close>

lemma system_text_decodes:
  assumes "platform_ok P" and "system_text P a u n = Inr t"
  shows "message_of_string (json P) junk t = Inr (message_system a u (clock P n))"
  using codec.decode_encode [of "json P"] assms by (simp add: platform_ok_def system_text_def)

lemma use_count_cong: "ops w1 = ops w \<Longrightarrow> stack w1 = stack w \<Longrightarrow> use_count w1 = use_count w"
  by (simp add: use_count_def fun_eq_iff)

lemma use_count_simps [world_simps]:
  "use_count (tick w) = use_count w" "use_count (set_conn c f w) = use_count w"
  "use_count (clients_insert P c w) = use_count w" "use_count (clients_erase c w) = use_count w"
  by (rule use_count_cong; simp add: world_simps)+

text \<open>The clients a broadcast reaches: those some shared pointer still owns.\<close>

definition audience :: "world \<Rightarrow> conn set" where
  "audience w = {c \<in> set (clients w). use_count w c > 0}"

definition no_dangling :: "world \<Rightarrow> bool" where
  "no_dangling w \<longleftrightarrow> distinct (clients w) \<and> (\<forall>c \<in> set (clients w). heap w c \<noteq> None)"

lemma broadcast_audience:
  "no_dangling w \<Longrightarrow> broadcast_msg_text t w = (Inr (), post_all (audience w) t w)"
  using broadcast_msg_text_run by (simp add: no_dangling_def audience_def)

section \<open>The notifier interface\<close>

text \<open>
  What connections rely on when they broadcast: every member that is alive receives the text once,
  nobody else receives anything, and the membership does not change. \<open>ok\<close> is the condition under
  which the provider promises this.
\<close>

locale notifier = mailbox live deliver effect inbox
  for live :: "'w \<Rightarrow> 'c \<Rightarrow> bool"
    and deliver :: "'c \<Rightarrow> 't \<Rightarrow> ('w, unit) comp"
    and effect :: "'t \<Rightarrow> 'c \<Rightarrow> 'w \<Rightarrow> 'w"
    and inbox :: "'w \<Rightarrow> 'c \<Rightarrow> 't list" +
  fixes ok :: "'w \<Rightarrow> bool"
    and members :: "'w \<Rightarrow> 'c list"
    and broadcast :: "'t \<Rightarrow> ('w, unit) comp"
  assumes broadcast_run:
      "ok w \<Longrightarrow> broadcast t w = (Inr (), fold (effect t) (filter (live w) (members w)) w)"
    and ok_distinct: "ok w \<Longrightarrow> distinct (members w)"
    and ok_effect: "ok (effect t c w) = ok w"
    and members_effect: "members (effect t c w) = members w"
begin

lemma fold_keeps: "ok (fold (effect t) cs w) = ok w" "members (fold (effect t) cs w) = members w"
  by (induction cs arbitrary: w) (simp_all add: ok_effect members_effect)

lemma broadcast_once:
  assumes "ok w"
  shows "\<exists>w'. broadcast t w = (Inr (), w') \<and> ok w' \<and> members w' = members w \<and>
    (\<forall>d. live w' d = live w d) \<and>
    (\<forall>d. inbox w' d = inbox w d @ (if d \<in> set (members w) \<and> live w d then [t] else []))"
  using broadcast_run [OF assms, of t] ok_distinct [OF assms] assms
    live_fold [of "filter (live w) (members w)" w t]
  by (auto simp: fold_keeps inbox_fold_distinct)

lemma broadcasts_in_order:
  assumes "ok w"
  shows "\<exists>w'. each broadcast ts w = (Inr (), w') \<and> ok w' \<and> members w' = members w \<and>
    (\<forall>d. inbox w' d = inbox w d @ (if d \<in> set (members w) \<and> live w d then ts else []))"
  using assms
proof (induction ts arbitrary: w)
  case Nil
  then show ?case by (simp add: comp_run)
next
  case (Cons t ts)
  obtain v where v: "broadcast t w = (Inr (), v)" "ok v" "members v = members w"
    "\<forall>d. live v d = live w d"
    "\<forall>d. inbox v d = inbox w d @ (if d \<in> set (members w) \<and> live w d then [t] else [])"
    using broadcast_once [OF Cons.prems, of t] by blast
  then show ?case using Cons.IH [OF v(2)] by (auto simp: seq_Inr)
qed

end

interpretation notices: notifier "\<lambda>w c. use_count w c > 0" send post_effect sent
  no_dangling clients broadcast_msg_text
proof
  fix w t c
  have "clients (post_effect t c w) = clients w" "heap (post_effect t c w) = heap w"
    by (simp_all add: post_effect_def world_simps)
  then show "no_dangling (post_effect t c w) = no_dangling w"
    and "clients (post_effect t c w) = clients w"
    by (simp_all add: no_dangling_def)
  assume nd: "no_dangling w"
  then show "distinct (clients w)" by (simp add: no_dangling_def)
  show "broadcast_msg_text t w =
      (Inr (), fold (post_effect t) (filter (\<lambda>c. use_count w c > 0) (clients w)) w)"
    using broadcast_loop_run [of "clients w" w t] nd
    by (simp add: broadcast_msg_text_def seq_def comp_simps no_dangling_def)
qed

lemma connect_run:
  assumes x: "heap w c = Some x" and live: "use_count w c > 0" and fresh: "c \<notin> set (clients w)"
    and nd: "no_dangling w" and t: "system_text P Connect (uuid x) (ticks w) = Inr t"
  shows "connect P c w =
           (Inr (), clients_insert P c (post_all (insert c (audience w)) t (tick w)))"
proof -
  let ?v = "post_effect t c (tick w)"
  have live': "use_count (tick w) c > 0" using live by (simp add: use_count_def world_simps)
  then have "send c t (tick w) = (Inr (), ?v)" by (rule send_run)
  moreover have "no_dangling ?v" using nd by (simp add: no_dangling_def post_effect_def world_simps)
  then have "broadcast_msg_text t ?v = (Inr (), post_all (audience ?v) t ?v)"
    by (rule broadcast_audience)
  moreover have "audience ?v = audience w"
    using mail.live_effect [OF live', of t]
    by (auto simp: audience_def post_effect_def world_simps use_count_def op_count_def)
  moreover have "c \<notin> audience w" using fresh by (simp add: audience_def)
  ultimately show ?thesis
    using x t post_all_insert [of c "audience w" t "tick w"]
    by (simp add: connect_def seq_def comp_simps system_text_def tick_def)
qed

lemma broadcast_msg_run:
  assumes "no_dangling w" and "serialize (json P) msg = Inr t"
  shows "broadcast_msg P msg w = (Inr (), post_all (audience w) t w)"
  using assms by (simp add: broadcast_msg_def seq_def comp_simps broadcast_audience)

lemma audience_tick [world_simps]: "audience (tick w) = audience w"
  by (simp add: audience_def world_simps)

lemma disconnect_run:
  assumes "heap w c = Some x" and "no_dangling w"
    and "system_text P Disconnect (uuid x) (ticks w) = Inr t"
  shows "disconnect P c w = (Inr (), clients_erase c (post_all (audience w) t (tick w)))"
proof -
  have "no_dangling (tick w)" using assms(2) by (simp add: no_dangling_def world_simps)
  then have "broadcast_msg P (message_system Disconnect (uuid x) (clock P (ticks w))) (tick w)
      = (Inr (), post_all (audience w) t (tick w))"
    using assms(3) by (simp add: broadcast_msg_run system_text_def world_simps)
  then show ?thesis
    using assms(1) by (simp add: disconnect_def seq_def comp_simps tick_def)
qed

end
