(* ===== verification/WsConn.thy ===== *)
theory WsConn
  imports Server
begin

text \<open>
  The life of a \<open>WsConn\<close> (\<open>include/websocket.cpp\<close>, \<open>include/websocket.hpp\<close>): construction, the
  handshake, the read loop, and destruction when the last shared pointer goes.
\<close>

section \<open>Operations\<close>

definition wsconn_new :: "'j platform \<Rightarrow> (world, conn) comp" where
  "wsconn_new P = (\<lambda>w. (Inr (Conn (next_conn w)),
     w\<lparr>heap := (heap w)(Conn (next_conn w) \<mapsto>
          \<lparr>buffer = '''', queue = [], uuid = random_uuid P (next_conn w)\<rparr>),
       next_conn := Suc (next_conn w)\<rparr>))"

definition wsconn_run :: "conn \<Rightarrow> (world, unit) comp" where
  "wsconn_run c = async_accept c"

definition wsconn_destructor :: "'j platform \<Rightarrow> conn \<Rightarrow> (world, unit) comp" where
  "wsconn_destructor P c = disconnect P c"

definition accept :: "'j platform \<Rightarrow> conn \<Rightarrow> error_code \<Rightarrow> (world, unit) comp" where
  "accept P c ec =
     (if ec \<noteq> Success then wsconn_fail ec ''accept''
      else seq (connect P c) (\<lambda>_. async_read c))"

definition handle :: "'j platform \<Rightarrow> indeterminate \<Rightarrow> conn \<Rightarrow> error_code \<Rightarrow> (world, unit) comp" where
  "handle P junk c ec =
     (if ec \<noteq> Success then wsconn_fail ec ''handle''
      else
        seq (deref c) (\<lambda>x. let json_msg = buffer x in
        seq (catch_std
               (seq (lift (message_of_string (json P) junk json_msg)) (broadcast_msg P))
               (\<lambda>e. seq (system_message P Error ''bad message'') (\<lambda>msg.
                    seq (lift (serialize (json P) msg)) (send c)))) (\<lambda>_.
        seq (modify (set_conn c (\<lambda>y. y\<lparr>buffer := ''''\<rparr>))) (\<lambda>_.
        async_read c))))"

section \<open>Completion handlers\<close>

text \<open>
  The end of a scope that held a shared pointer to \<open>c\<close>: if it was the last one, the destructor runs
  and the object is gone. An exception out of a destructor terminates the program.
\<close>

definition release :: "'j platform \<Rightarrow> conn \<Rightarrow> world \<Rightarrow> world" where
  "release P c w =
     (let w1 = pop_stack c w in
      if use_count w1 c > 0 then w1
      else (case wsconn_destructor P c w1 of
              (Inl e, w2) \<Rightarrow> w2\<lparr>crash := Some e\<rparr>
            | (Inr _, w2) \<Rightarrow> w2\<lparr>heap := (heap w2)(c := None)\<rparr>))"

text \<open>
  A handler bound to \<open>shared_from_this()\<close> owns the object while it runs. An exception it lets out
  leaves \<open>io_context::run\<close> and \<open>main\<close>, which catch nothing.
\<close>

definition complete :: "'j platform \<Rightarrow> conn \<Rightarrow> (world, unit) comp \<Rightarrow> world \<Rightarrow> world" where
  "complete P c body w =
     (case body (push_stack c w) of
        (Inl e, w1) \<Rightarrow> w1\<lparr>crash := Some e\<rparr>
      | (Inr _, w1) \<Rightarrow> release P c w1)"

text \<open>
  What can happen to the connections: a new one is made for an upgrade request, a handshake, read or
  write completes, a posted \<open>on_send\<close> runs. A completed read has appended what it received to the
  buffer; a successful one received a whole message. \<open>wire\<close> records a successful write.
\<close>

datatype event =
    Open
  | Accepted conn error_code
  | Received conn error_code string indeterminate
  | Written conn error_code
  | Posted conn

fun enabled :: "event \<Rightarrow> world \<Rightarrow> bool" where
  "enabled Open w = True"
| "enabled (Accepted c ec) w = (accepts (ops w c) > 0)"
| "enabled (Received c ec s junk) w = (reads (ops w c) > 0)"
| "enabled (Written c ec) w = (writes (ops w c) \<noteq> [])"
| "enabled (Posted c) w = (posts (ops w c) \<noteq> [])"

definition open_conn :: "'j platform \<Rightarrow> world \<Rightarrow> world" where
  "open_conn P w = (case wsconn_new P w of
       (Inl e, w1) \<Rightarrow> w1\<lparr>crash := Some e\<rparr>
     | (Inr c, w1) \<Rightarrow> complete P c (wsconn_run c) w1)"

fun exec :: "'j platform \<Rightarrow> event \<Rightarrow> world \<Rightarrow> world" where
  "exec P Open w = open_conn P w"
| "exec P (Accepted c ec) w =
     complete P c (accept P c ec) (set_ops c (\<lambda>q. q\<lparr>accepts := accepts q - 1\<rparr>) w)"
| "exec P (Received c ec s junk) w =
     complete P c (handle P junk c ec)
       (set_conn c (\<lambda>x. x\<lparr>buffer := buffer x @ s\<rparr>) (set_ops c (\<lambda>q. q\<lparr>reads := reads q - 1\<rparr>) w))"
| "exec P (Written c ec) w =
     complete P c (on_write c ec)
       (let w1 = set_ops c (\<lambda>q. q\<lparr>writes := tl (writes q)\<rparr>) w
        in if ec = Success
           then w1\<lparr>wire := (wire w1)(c := wire w1 c @ [hd (writes (ops w c))])\<rparr> else w1)"
| "exec P (Posted c) w =
     complete P c (on_send c (hd (posts (ops w c))))
       (set_ops c (\<lambda>q. q\<lparr>posts := tl (posts q)\<rparr>) w)"

text \<open>A step runs one enabled handler of a process that has not crashed.\<close>

inductive step :: "'j platform \<Rightarrow> world \<Rightarrow> event \<Rightarrow> world \<Rightarrow> bool" for P where
  stepI: "crash w = None \<Longrightarrow> enabled e w \<Longrightarrow> step P w e (exec P e w)"

inductive_cases stepE: "step P w e w'"
inductive_simps step_iff: "step P w e w'"

fun run :: "'j platform \<Rightarrow> event list \<Rightarrow> world \<Rightarrow> world option" where
  "run P [] w = Some w"
| "run P (e # es) w =
     (if crash w = None \<and> enabled e w then run P es (exec P e w) else None)"

abbreviation reachable :: "'j platform \<Rightarrow> world \<Rightarrow> bool" where
  "reachable P w \<equiv> reach (\<lambda>w. w = world0) (step P) w"

lemma reachable_world0: "reachable P world0"
  by (rule reach_init) simp

lemma reachable_step: "reachable P w \<Longrightarrow> step P w e w' \<Longrightarrow> reachable P w'"
  by (rule reach_step)

lemma run_reachable: "run P es w = Some w' \<Longrightarrow> reachable P w \<Longrightarrow> reachable P w'"
proof (induction es arbitrary: w)
  case Nil
  then show ?case by simp
next
  case (Cons e es)
  then have "step P w e (exec P e w)" by (simp add: step_iff split: if_splits)
  then have "reachable P (exec P e w)" using Cons.prems(2) reach_step by fastforce
  then show ?case using Cons by (simp split: if_splits)
qed

lemma run_append: "run P (es @ fs) w = Option.bind (run P es w) (run P fs)"
  by (induction es arbitrary: w) auto

end
