(* ===== verification/Invariant.thy ===== *)
theory Invariant
  imports WsConn
begin

text \<open>
  The invariant of the connections between two handlers, and its preservation by every step: no
  handler lets an exception out or touches a dead object, at most one read and one write of a
  connection are outstanding, the text being written is the front of the queue, and nothing that was
  sent to a connection is lost, duplicated or reordered on the way to its socket.
\<close>

section \<open>The invariant\<close>

text \<open>
  For one object: \<open>member\<close> says whether the server knows it, \<open>q\<close> are its outstanding operations, \<open>s\<close>
  and \<open>v\<close> the texts sent to it and written to its socket so far.
\<close>

definition outbox_inv :: "wsconn \<Rightarrow> conn_ops \<Rightarrow> string list \<Rightarrow> string list \<Rightarrow> bool" where
  "outbox_inv x q s v \<longleftrightarrow> s = v @ queue x @ posts q \<and>
     (writes q = [] \<or> (\<exists>t. writes q = [t] \<and> queue x \<noteq> [] \<and> hd (queue x) = t))"

text \<open>The first text sent to a member was its own \<open>connect\<close> message.\<close>

definition greeted :: "'j platform \<Rightarrow> string \<Rightarrow> string list \<Rightarrow> bool" where
  "greeted P u s \<longleftrightarrow> (\<exists>n t ts. s = t # ts \<and> system_text P Connect u n = Inr t)"

lemma greeted_append: "greeted P u s \<Longrightarrow> greeted P u (s @ ts)"
  by (auto simp: greeted_def)

lemma greeted_single: "system_text P Connect u n = Inr t \<Longrightarrow> greeted P u [t]"
  by (auto simp: greeted_def)

definition member_inv ::
  "'j platform \<Rightarrow> bool \<Rightarrow> wsconn \<Rightarrow> conn_ops \<Rightarrow> string list \<Rightarrow> bool" where
  "member_inv P member x q s \<longleftrightarrow>
     (if member
      then accepts q = 0 \<and> reads q \<le> 1 \<and> (reads q = 1 \<longrightarrow> buffer x = '''') \<and>
           greeted P (uuid x) s
      else accepts q \<le> 1 \<and> reads q = 0 \<and> buffer x = '''' \<and> s = [])"

definition obj_inv ::
  "'j platform \<Rightarrow> bool \<Rightarrow> conn \<Rightarrow> wsconn \<Rightarrow> conn_ops \<Rightarrow> string list \<Rightarrow> string list \<Rightarrow> bool" where
  "obj_inv P member c x q s v \<longleftrightarrow>
     uuid x = random_uuid P (conn_index c) \<and> outbox_inv x q s v \<and> member_inv P member x q s"

text \<open>\<open>st\<close> is the content of the stack: empty between handlers, \<open>[c]\<close> while a handler of \<open>c\<close> runs.\<close>

definition world_inv :: "'j platform \<Rightarrow> conn list \<Rightarrow> world \<Rightarrow> bool" where
  "world_inv P st w \<longleftrightarrow> crash w = None \<and> stack w = st \<and> no_dangling w \<and>
     (\<forall>c x. heap w c = Some x \<longrightarrow>
        obj_inv P (c \<in> set (clients w)) c x (ops w c) (sent w c) (wire w c) \<and> use_count w c > 0) \<and>
     (\<forall>c. heap w c = None \<longrightarrow> ops w c = no_ops \<and> c \<notin> set st) \<and>
     (\<forall>n \<ge> next_conn w. heap w (Conn n) = None \<and> sent w (Conn n) = [] \<and> wire w (Conn n) = [])"

lemma invI:
  assumes "crash w = None" and "stack w = st" and "no_dangling w"
    and "\<And>c x. heap w c = Some x \<Longrightarrow>
        obj_inv P (c \<in> set (clients w)) c x (ops w c) (sent w c) (wire w c)"
    and "\<And>c x. heap w c = Some x \<Longrightarrow> use_count w c > 0"
    and "\<And>c. heap w c = None \<Longrightarrow> ops w c = no_ops \<and> c \<notin> set st"
    and "\<And>n. next_conn w \<le> n \<Longrightarrow>
        heap w (Conn n) = None \<and> sent w (Conn n) = [] \<and> wire w (Conn n) = []"
  shows "world_inv P st w"
  using assms by (simp add: world_inv_def)

lemma invD:
  assumes "world_inv P st w"
  shows "crash w = None" and "stack w = st" and "no_dangling w"
    and "heap w c = Some x \<Longrightarrow> obj_inv P (c \<in> set (clients w)) c x (ops w c) (sent w c) (wire w c)"
    and "heap w c = Some x \<Longrightarrow> use_count w c > 0"
    and "heap w c = None \<Longrightarrow> ops w c = no_ops"
    and "heap w c = None \<Longrightarrow> c \<notin> set st"
    and "next_conn w \<le> n \<Longrightarrow> heap w (Conn n) = None"
    and "next_conn w \<le> n \<Longrightarrow> sent w (Conn n) = []"
    and "next_conn w \<le> n \<Longrightarrow> wire w (Conn n) = []"
    and "c \<in> set (clients w) \<Longrightarrow> heap w c \<noteq> None"
    and "distinct (clients w)"
  using assms unfolding world_inv_def no_dangling_def by blast+

text \<open>Only a member is sent anything.\<close>

lemma sent_member:
  assumes "world_inv P st w" and "heap w c \<noteq> None" and "sent w c \<noteq> []"
  shows "c \<in> set (clients w)"
  using invD(4) [OF assms(1), of c] assms(2,3) by (auto simp: obj_inv_def member_inv_def split: if_splits)

lemma inv_world0: "world_inv P [] world0"
  by (simp add: world_inv_def world0_def no_dangling_def)

lemma inv_audience: "world_inv P st w \<Longrightarrow> audience w = set (clients w)"
  using invD(5) invD(11) by (fastforce simp: audience_def)

section \<open>Changes to one connection\<close>

text \<open>
  A change of one connection only, while a handler of that connection runs; the handler's shared
  pointer may be pushed by the same change.
\<close>

lemma inv_local:
  assumes I: "world_inv P st w" and x: "heap w c = Some x"
    and w1: "heap w1 = (heap w)(c \<mapsto> x')" "ops w1 = (ops w)(c := q')" "wire w1 = (wire w)(c := v')"
      "sent w1 = sent w" "clients w1 = clients w" "crash w1 = crash w" "next_conn w1 = next_conn w"
      "stack w1 = st'"
    and stset: "set st' = insert c (set st)"
    and obj: "obj_inv P (c \<in> set (clients w)) c x' q' (sent w c) v'"
  shows "world_inv P st' w1"
proof (rule invI)
  show "crash w1 = None" "stack w1 = st'" using w1 invD(1) [OF I] by simp_all
  show "no_dangling w1" using invD(3) [OF I] w1 by (simp add: no_dangling_def)
  fix d y assume y: "heap w1 d = Some y"
  show "obj_inv P (d \<in> set (clients w1)) d y (ops w1 d) (sent w1 d) (wire w1 d)"
    using y invD(4) [OF I, of d y] obj w1 by (cases "d = c") auto
  have "use_count w1 d \<noteq> 0"
  proof (cases "d = c")
    case True
    then show ?thesis using stset w1(8) by (simp add: use_count_0_iff)
  next
    case False
    then have "heap w d = Some y" using y w1(1) by simp
    then have "use_count w d > 0" by (rule invD(5) [OF I])
    then have "ops w d \<noteq> no_ops \<or> d \<in> set st"
      using use_count_0_iff [of w d] invD(2) [OF I] by auto
    then show ?thesis using False stset w1(2,8) by (auto simp: use_count_0_iff)
  qed
  then show "use_count w1 d > 0" by simp
next
  fix d assume "heap w1 d = None"
  then show "ops w1 d = no_ops \<and> d \<notin> set st'"
    using stset invD(6,7) [OF I, of d] w1 by (auto split: if_splits)
next
  fix n assume n: "next_conn w1 \<le> n"
  then have "c \<noteq> Conn n" using x w1 invD(8) [OF I, of n] by auto
  then show "heap w1 (Conn n) = None \<and> sent w1 (Conn n) = [] \<and> wire w1 (Conn n) = []"
    using n w1 invD(8-10) [OF I, of n] by simp
qed

section \<open>Broadcasts\<close>

lemma outbox_inv_post:
  "outbox_inv x q s v \<Longrightarrow> outbox_inv x (q\<lparr>posts := posts q @ [t]\<rparr>) (s @ [t]) v"
  by (auto simp: outbox_inv_def)

lemma obj_inv_post:
  "obj_inv P True c x q s v \<Longrightarrow> obj_inv P True c x (q\<lparr>posts := posts q @ [t]\<rparr>) (s @ [t]) v"
  by (auto simp: obj_inv_def member_inv_def outbox_inv_post greeted_append)

lemma inv_tick: "world_inv P st w \<Longrightarrow> world_inv P st (tick w)"
  by (simp add: world_inv_def world_simps no_dangling_def)

lemma inv_post_all:
  assumes I: "world_inv P st w" and A: "A \<subseteq> set (clients w)"
  shows "world_inv P st (post_all A t w)"
proof (rule invI)
  show "crash (post_all A t w) = None" "stack (post_all A t w) = st"
    using invD(1,2) [OF I] by (simp_all add: world_simps)
  show "no_dangling (post_all A t w)" using invD(3) [OF I] by (simp add: no_dangling_def world_simps)
  fix c x assume "heap (post_all A t w) c = Some x"
  then have x: "heap w c = Some x" by (simp add: world_simps)
  show "obj_inv P (c \<in> set (clients (post_all A t w))) c x (ops (post_all A t w) c)
          (sent (post_all A t w) c) (wire (post_all A t w) c)"
    using invD(4) [OF I x] A by (auto simp: world_simps obj_inv_post)
  show "use_count (post_all A t w) c > 0" using invD(5) [OF I x] by (simp add: use_count_post_all)
next
  fix c assume "heap (post_all A t w) c = None"
  then have "heap w c = None" by (simp add: world_simps)
  moreover from this have "c \<notin> A" using A invD(11) [OF I] by blast
  ultimately show "ops (post_all A t w) c = no_ops \<and> c \<notin> set st"
    using invD(6,7) [OF I, of c] by (simp add: world_simps)
next
  fix n assume "next_conn (post_all A t w) \<le> n"
  then have n: "next_conn w \<le> n" by (simp add: world_simps)
  then have "Conn n \<notin> A" using A invD(8,11) [OF I] by blast
  then show "heap (post_all A t w) (Conn n) = None \<and> sent (post_all A t w) (Conn n) = [] \<and>
      wire (post_all A t w) (Conn n) = []"
    using invD(8-10) [OF I n] by (simp add: world_simps)
qed

section \<open>Joining and leaving\<close>

lemma post_all_post_effect:
  "c \<notin> A \<Longrightarrow> post_effect t c (post_all A t w) = post_all (insert c A) t w"
  by (rule world.equality)
     (auto simp: post_all_def post_effect_def set_ops_def fun_eq_iff)

lemma post_effect_simps [world_simps]:
  "heap (post_effect t c w) = heap w" "stack (post_effect t c w) = stack w"
  "clients (post_effect t c w) = clients w" "ticks (post_effect t c w) = ticks w"
  "next_conn (post_effect t c w) = next_conn w" "wire (post_effect t c w) = wire w"
  "crash (post_effect t c w) = crash w"
  "sent (post_effect t c w) = (sent w)(c := sent w c @ [t])"
  "ops (post_effect t c w) = (ops w)(c := (ops w c)\<lparr>posts := posts (ops w c) @ [t]\<rparr>)"
  by (simp_all add: post_effect_def world_simps)

lemma obj_inv_join:
  assumes "obj_inv P False c x q [] v" and "accepts q = 0"
    and "system_text P Connect (uuid x) n = Inr t"
  shows "obj_inv P True c x (q\<lparr>posts := posts q @ [t]\<rparr>) [t] v"
  using assms by (auto simp: obj_inv_def outbox_inv_def member_inv_def greeted_single)

lemma inv_join:
  assumes P: "platform_ok P" and I: "world_inv P st w" and x: "heap w c = Some x"
    and c: "c \<notin> set (clients w)" and a: "accepts (ops w c) = 0"
    and t: "system_text P Connect (uuid x) n = Inr t"
  shows "world_inv P st (clients_insert P c (post_effect t c w))"
proof -
  let ?v = "post_effect t c w"
  have d: "distinct (clients ?v)" using invD(12) [OF I] by (simp add: world_simps)
  have set: "set (clients (clients_insert P c ?v)) = insert c (set (clients w))"
    using clients_insert_set(1) [OF P d] by (simp add: world_simps)
  have oc: "obj_inv P False c x (ops w c) (sent w c) (wire w c)"
    using invD(4) [OF I x] c by simp
  then have s: "sent w c = []" by (simp add: obj_inv_def member_inv_def)
  show ?thesis
  proof (rule invI)
    show "crash (clients_insert P c ?v) = None" "stack (clients_insert P c ?v) = st"
      using invD(1,2) [OF I] by (simp_all add: world_simps)
    show "no_dangling (clients_insert P c ?v)"
      using clients_insert_set(2) [OF P d] invD(11) [OF I] x
      by (auto simp: no_dangling_def set world_simps)
    fix e y assume y: "heap (clients_insert P c ?v) e = Some y"
    then have y': "heap w e = Some y" by (simp add: world_simps)
    show "obj_inv P (e \<in> set (clients (clients_insert P c ?v))) e y (ops (clients_insert P c ?v) e)
            (sent (clients_insert P c ?v) e) (wire (clients_insert P c ?v) e)"
    proof (cases "e = c")
      case True
      then show ?thesis using obj_inv_join [OF _ a t] oc s x y' by (simp add: set world_simps)
    next
      case False
      then show ?thesis using invD(4) [OF I y'] by (simp add: set world_simps)
    qed
    show "use_count (clients_insert P c ?v) e > 0"
      using invD(5) [OF I y'] by (auto simp: world_simps use_count_def op_count_def)
  next
    fix e assume "heap (clients_insert P c ?v) e = None"
    then have e: "heap w e = None" by (simp add: world_simps)
    then have "e \<noteq> c" using x by auto
    then show "ops (clients_insert P c ?v) e = no_ops \<and> e \<notin> set st"
      using invD(6,7) [OF I e] by (simp add: world_simps)
  next
    fix m assume "next_conn (clients_insert P c ?v) \<le> m"
    then have m: "next_conn w \<le> m" by (simp add: world_simps)
    then have "Conn m \<noteq> c" using x invD(8) [OF I m] by auto
    then show "heap (clients_insert P c ?v) (Conn m) = None \<and> sent (clients_insert P c ?v) (Conn m) = []
        \<and> wire (clients_insert P c ?v) (Conn m) = []"
      using invD(8-10) [OF I m] by (simp add: world_simps)
  qed
qed

text \<open>\<open>drop_conn\<close> is the end of a destructor: the pointer leaves the set, the object is gone.\<close>

definition drop_conn :: "conn \<Rightarrow> world \<Rightarrow> world" where
  "drop_conn c w = (clients_erase c w)\<lparr>heap := (heap w)(c := None)\<rparr>"

lemma drop_conn_simps [world_simps]:
  "heap (drop_conn c w) = (heap w)(c := None)" "clients (drop_conn c w) = remove1 c (clients w)"
  "ops (drop_conn c w) = ops w" "stack (drop_conn c w) = stack w" "ticks (drop_conn c w) = ticks w"
  "next_conn (drop_conn c w) = next_conn w" "sent (drop_conn c w) = sent w"
  "wire (drop_conn c w) = wire w" "crash (drop_conn c w) = crash w"
  by (simp_all add: drop_conn_def world_simps)

lemma inv_pop:
  assumes I: "world_inv P [c] w" and q: "ops w c \<noteq> no_ops"
  shows "world_inv P [] (pop_stack c w)"
proof (rule invI)
  show "crash (pop_stack c w) = None" "stack (pop_stack c w) = []" "no_dangling (pop_stack c w)"
    using invD(1-3) [OF I] by (simp_all add: world_simps no_dangling_def)
  fix d x assume "heap (pop_stack c w) d = Some x"
  then have x: "heap w d = Some x" by (simp add: world_simps)
  show "obj_inv P (d \<in> set (clients (pop_stack c w))) d x (ops (pop_stack c w) d)
          (sent (pop_stack c w) d) (wire (pop_stack c w) d)"
    using invD(4) [OF I x] by (simp add: world_simps)
  have "use_count (pop_stack c w) d \<noteq> 0"
    using invD(5) [OF I x] q invD(2) [OF I]
    by (cases "d = c") (auto simp: use_count_0_iff world_simps use_count_def op_count_0_iff)
  then show "use_count (pop_stack c w) d > 0" by simp
next
  fix d assume "heap (pop_stack c w) d = None"
  then show "ops (pop_stack c w) d = no_ops \<and> d \<notin> set []"
    using invD(6) [OF I] by (simp add: world_simps)
next
  fix n assume "next_conn (pop_stack c w) \<le> n"
  then show "heap (pop_stack c w) (Conn n) = None \<and> sent (pop_stack c w) (Conn n) = [] \<and>
      wire (pop_stack c w) (Conn n) = []"
    using invD(8-10) [OF I, of n] by (simp add: world_simps)
qed

lemma inv_drop:
  assumes I: "world_inv P [c] w" and q: "ops w c = no_ops"
  shows "world_inv P [] (drop_conn c (pop_stack c w))"
proof (rule invI)
  let ?v = "drop_conn c (pop_stack c w)"
  have set: "set (clients ?v) = set (clients w) - {c}"
    using invD(12) [OF I] by (simp add: world_simps)
  show "crash ?v = None" "stack ?v = []" using invD(1,2) [OF I] by (simp_all add: world_simps)
  show "no_dangling ?v"
    using invD(3) [OF I] by (auto simp: no_dangling_def world_simps)
  fix d x assume "heap ?v d = Some x"
  then have d: "d \<noteq> c" and x: "heap w d = Some x" by (auto simp: world_simps split: if_splits)
  show "obj_inv P (d \<in> set (clients ?v)) d x (ops ?v d) (sent ?v d) (wire ?v d)"
    using invD(4) [OF I x] d by (simp add: set world_simps)
  show "use_count ?v d > 0"
    using invD(5) [OF I x] d invD(2) [OF I] by (simp add: use_count_def world_simps)
next
  fix d assume "heap (drop_conn c (pop_stack c w)) d = None"
  then show "ops (drop_conn c (pop_stack c w)) d = no_ops \<and> d \<notin> set []"
    using invD(6) [OF I, of d] q by (cases "d = c") (auto simp: world_simps)
next
  fix n assume "next_conn (drop_conn c (pop_stack c w)) \<le> n"
  then show "heap (drop_conn c (pop_stack c w)) (Conn n) = None \<and>
      sent (drop_conn c (pop_stack c w)) (Conn n) = [] \<and>
      wire (drop_conn c (pop_stack c w)) (Conn n) = []"
    using invD(8-10) [OF I, of n] by (simp add: world_simps)
qed

end
