(* ===== verification/Handlers.thy ===== *)
theory Handlers
  imports Invariant
begin

text \<open>
  What each completion handler of \<open>WsConn\<close> does to a world that satisfies the invariant, in closed
  form, and that it keeps the invariant.
\<close>

section \<open>The end of a handler\<close>

lemma inv_ascii_uuid:
  "platform_ok P \<Longrightarrow> world_inv P st w \<Longrightarrow> heap w c = Some x \<Longrightarrow> ascii (uuid x)"
  using invD(4) by (fastforce simp: obj_inv_def platform_ok_def)

text \<open>
  \<open>left P c t w\<close> is the world after the destructor of \<open>c\<close> has told everybody else \<open>t\<close>.
\<close>

definition left :: "conn \<Rightarrow> string \<Rightarrow> world \<Rightarrow> world" where
  "left c t w = drop_conn c (post_all (set (clients w) - {c}) t (tick (pop_stack c w)))"

lemma release_alive:
  assumes I: "world_inv P [c] w" and q: "ops w c \<noteq> no_ops"
  shows "release P c w = pop_stack c w" and "world_inv P [] (release P c w)"
proof -
  have "use_count (pop_stack c w) c \<noteq> 0"
    using q invD(2) [OF I] by (simp add: use_count_0_iff world_simps)
  then show "release P c w = pop_stack c w" by (simp add: release_def)
  then show "world_inv P [] (release P c w)" using inv_pop [OF I q] by simp
qed

text \<open>
  The end of the last shared pointer. This needs only that the set is sound and that everybody else in
  it is owned, so it also holds where the rest of the invariant does not (theory \<open>Shutdown\<close>).
\<close>

lemma audience_pop:
  assumes st: "stack w = [c]" and q: "ops w c = no_ops"
    and own: "\<And>d. d \<in> set (clients w) \<Longrightarrow> d \<noteq> c \<Longrightarrow> use_count w d > 0"
  shows "audience (pop_stack c w) = set (clients w) - {c}"
proof -
  have "use_count (pop_stack c w) c = 0"
    using q st by (simp add: use_count_0_iff world_simps)
  moreover have "use_count (pop_stack c w) d = use_count w d" if "d \<noteq> c" for d
    using that st by (simp add: use_count_def world_simps)
  ultimately show ?thesis using own by (auto simp: audience_def world_simps)
qed

lemma release_left:
  assumes P: "platform_ok P" and st: "stack w = [c]" and nd: "no_dangling w"
    and q: "ops w c = no_ops" and x: "heap w c = Some x" and u: "ascii (uuid x)"
    and own: "\<And>d. d \<in> set (clients w) \<Longrightarrow> d \<noteq> c \<Longrightarrow> use_count w d > 0"
  obtains t where "system_text P Disconnect (uuid x) (ticks w) = Inr t"
    and "release P c w = left c t w"
proof -
  obtain t where t: "system_text P Disconnect (uuid x) (ticks w) = Inr t"
    using system_text_ok [OF P _ u, of Disconnect] by (metis named.simps(4))
  let ?v = "pop_stack c w"
  have uc: "use_count ?v c = 0" using q st by (simp add: use_count_0_iff world_simps)
  have nd': "no_dangling ?v" using nd by (simp add: no_dangling_def world_simps)
  have "disconnect P c ?v = (Inr (), clients_erase c (post_all (audience ?v) t (tick ?v)))"
    using disconnect_run [OF _ nd', of c x P t] x t by (simp add: world_simps)
  then have "release P c w = left c t w"
    using uc by (simp add: release_def wsconn_destructor_def left_def drop_conn_def
        audience_pop [OF st q own] world_simps)
  with t that show thesis by blast
qed

lemma release_last:
  assumes P: "platform_ok P" and I: "world_inv P [c] w" and q: "ops w c = no_ops"
    and x: "heap w c = Some x"
  obtains t where "system_text P Disconnect (uuid x) (ticks w) = Inr t"
    and "release P c w = left c t w" and "world_inv P [] (release P c w)"
proof -
  have own: "use_count w d > 0" if "d \<in> set (clients w)" for d
    using that invD(5,11) [OF I] by blast
  obtain t where t: "system_text P Disconnect (uuid x) (ticks w) = Inr t"
    and r: "release P c w = left c t w"
    by (rule release_left [OF P invD(2) [OF I] invD(3) [OF I] q x inv_ascii_uuid [OF P I x] own])
  have "world_inv P [c] (post_all (set (clients w) - {c}) t (tick w))" (is "world_inv P [c] ?u")
    by (rule inv_post_all [OF inv_tick [OF I]]) (auto simp: world_simps)
  moreover have "ops ?u c = no_ops" using q by (simp add: world_simps)
  ultimately have "world_inv P [] (drop_conn c (pop_stack c ?u))" by (rule inv_drop)
  moreover have "left c t w = drop_conn c (pop_stack c ?u)"
    by (rule world.equality)
       (auto simp: left_def drop_conn_def clients_erase_def pop_stack_def post_all_def tick_def
         fun_eq_iff)
  ultimately show thesis using that t r by simp
qed

text \<open>Both cases together: what follows a handler that returned in a world with the invariant.\<close>

lemma release_inv:
  assumes P: "platform_ok P" and I: "world_inv P [c] w"
  shows "world_inv P [] (release P c w)"
proof (cases "ops w c = no_ops")
  case True
  obtain x where x: "heap w c = Some x" using invD(7) [OF I, of c] by fastforce
  show ?thesis using release_last [OF P I True x] by metis
next
  case False
  then show ?thesis by (rule release_alive(2) [OF I])
qed

lemma complete_inv:
  assumes "platform_ok P" and "body (push_stack c w) = (Inr (), w')" and "world_inv P [c] w'"
  shows "complete P c body w = release P c w'" and "world_inv P [] (complete P c body w)"
  using assms release_inv by (simp_all add: complete_def)

section \<open>A new connection\<close>

definition opened :: "'j platform \<Rightarrow> world \<Rightarrow> world" where
  "opened P w = w\<lparr>
     heap := (heap w)(Conn (next_conn w) \<mapsto>
       \<lparr>buffer = '''', queue = [], uuid = random_uuid P (next_conn w)\<rparr>),
     ops := (ops w)(Conn (next_conn w) := no_ops\<lparr>accepts := 1\<rparr>),
     next_conn := Suc (next_conn w)\<rparr>"

lemma opened_simps [world_simps]:
  "heap (opened P w) = (heap w)(Conn (next_conn w) \<mapsto>
     \<lparr>buffer = '''', queue = [], uuid = random_uuid P (next_conn w)\<rparr>)"
  "ops (opened P w) = (ops w)(Conn (next_conn w) := no_ops\<lparr>accepts := 1\<rparr>)"
  "next_conn (opened P w) = Suc (next_conn w)"
  "stack (opened P w) = stack w" "clients (opened P w) = clients w" "ticks (opened P w) = ticks w"
  "sent (opened P w) = sent w" "wire (opened P w) = wire w" "crash (opened P w) = crash w"
  by (simp_all add: opened_def)

lemma inv_opened:
  assumes I: "world_inv P [] w"
  shows "world_inv P [] (opened P w)"
proof (rule invI)
  let ?c = "Conn (next_conn w)"
  have new: "heap w ?c = None" "sent w ?c = []" "wire w ?c = []"
    using invD(8-10) [OF I] by simp_all
  then have "?c \<notin> set (clients w)" using invD(11) [OF I, of ?c] by auto
  note new = new this
  show "crash (opened P w) = None" "stack (opened P w) = []"
    using invD(1,2) [OF I] by (simp_all add: world_simps)
  show "no_dangling (opened P w)"
    using invD(11,12) [OF I] by (auto simp: no_dangling_def world_simps)
  fix d x assume x: "heap (opened P w) d = Some x"
  show "obj_inv P (d \<in> set (clients (opened P w))) d x (ops (opened P w) d) (sent (opened P w) d)
          (wire (opened P w) d)"
    using x new invD(4) [OF I, of d x]
    by (cases "d = ?c") (auto simp: world_simps obj_inv_def outbox_inv_def member_inv_def no_ops_def)
  show "use_count (opened P w) d > 0"
    using x invD(5) [OF I, of d x] by (cases "d = ?c") (auto simp: world_simps use_count_def op_count_def)
next
  fix d assume "heap (opened P w) d = None"
  then show "ops (opened P w) d = no_ops \<and> d \<notin> set []"
    using invD(6) [OF I, of d] by (cases "d = Conn (next_conn w)") (auto simp: world_simps)
next
  fix n assume "next_conn (opened P w) \<le> n"
  then show "heap (opened P w) (Conn n) = None \<and> sent (opened P w) (Conn n) = [] \<and>
      wire (opened P w) (Conn n) = []"
    using invD(8-10) [OF I, of n] by (simp add: world_simps)
qed

lemma exec_Open:
  assumes I: "world_inv P [] w"
  shows "exec P Open w = opened P w"
proof -
  let ?c = "Conn (next_conn w)"
  have new: "ops w ?c = no_ops" using invD(6) [OF I] invD(8) [OF I] by simp
  have st: "stack w = []" by (rule invD(2) [OF I])
  show ?thesis
    by (rule world.equality)
       (auto simp: open_conn_def wsconn_new_def complete_def wsconn_run_def async_accept_def
         shared_from_this_def seq_def comp_simps release_def push_stack_def pop_stack_def
         use_count_def op_count_def set_ops_def opened_def st new Let_def no_ops_def)
qed

section \<open>The handshake\<close>

definition joined :: "'j platform \<Rightarrow> conn \<Rightarrow> string \<Rightarrow> world \<Rightarrow> world" where
  "joined P c t w = clients_insert P c (post_all (insert c (set (clients w))) t (tick w))"

lemma inv_connect:
  assumes P: "platform_ok P" and I: "world_inv P [c] w" and x: "heap w c = Some x"
    and c: "c \<notin> set (clients w)" and a: "accepts (ops w c) = 0"
  obtains t where "system_text P Connect (uuid x) (ticks w) = Inr t"
    and "connect P c w = (Inr (), joined P c t w)" and "world_inv P [c] (joined P c t w)"
proof -
  have "ascii (uuid x)" by (rule inv_ascii_uuid [OF P I x])
  then obtain t where t: "system_text P Connect (uuid x) (ticks w) = Inr t"
    using system_text_ok [OF P, of Connect] by (metis named.simps(2))
  have run: "connect P c w = (Inr (), joined P c t w)"
    using connect_run [OF x invD(5) [OF I x] c invD(3) [OF I] t]
    by (simp add: joined_def inv_audience [OF I])
  let ?u = "post_all (set (clients w)) t (tick w)"
  have J: "world_inv P [c] ?u" by (rule inv_post_all [OF inv_tick [OF I]]) (simp add: world_simps)
  have "world_inv P [c] (clients_insert P c (post_effect t c ?u))"
    by (rule inv_join [OF P J, where x = x and n = "ticks w"])
       (simp_all add: world_simps x c a t)
  then have "world_inv P [c] (joined P c t w)"
    by (simp add: joined_def post_all_post_effect [OF c])
  with t run that show thesis by blast
qed

text \<open>A handler bound to \<open>c\<close> that starts with the outstanding operations changed by \<open>f\<close>.\<close>

definition begun :: "conn \<Rightarrow> (conn_ops \<Rightarrow> conn_ops) \<Rightarrow> world \<Rightarrow> world" where
  "begun c f w = push_stack c (set_ops c f w)"

lemma begun_simps [world_simps]:
  "ops (begun c f w) = (ops w)(c := f (ops w c))" "stack (begun c f w) = c # stack w"
  "heap (begun c f w) = heap w" "clients (begun c f w) = clients w" "ticks (begun c f w) = ticks w"
  "next_conn (begun c f w) = next_conn w" "sent (begun c f w) = sent w"
  "wire (begun c f w) = wire w" "crash (begun c f w) = crash w"
  by (simp_all add: begun_def world_simps)

lemma joined_simps [world_simps]:
  "heap (joined P c t w) = heap w" "stack (joined P c t w) = stack w"
  "ticks (joined P c t w) = Suc (ticks w)" "next_conn (joined P c t w) = next_conn w"
  "wire (joined P c t w) = wire w" "crash (joined P c t w) = crash w"
  "sent (joined P c t w) d = (if d \<in> insert c (set (clients w)) then sent w d @ [t] else sent w d)"
  "ops (joined P c t w) d = (if d \<in> insert c (set (clients w))
     then (ops w d)\<lparr>posts := posts (ops w d) @ [t]\<rparr> else ops w d)"
  by (simp_all add: joined_def world_simps)

lemma pending_accept:
  assumes I: "world_inv P [] w" and a: "accepts (ops w c) > 0"
  obtains x where "heap w c = Some x" and "c \<notin> set (clients w)" and "accepts (ops w c) = 1"
    and "uuid x = random_uuid P (conn_index c)" and "ops w c = no_ops\<lparr>accepts := 1\<rparr>"
    and "sent w c = []"
proof -
  from a have "heap w c \<noteq> None" using invD(6) [OF I, of c] by force
  then obtain x where x: "heap w c = Some x" by blast
  have o: "obj_inv P (c \<in> set (clients w)) c x (ops w c) (sent w c) (wire w c)"
    by (rule invD(4) [OF I x])
  then have "c \<notin> set (clients w)" and "accepts (ops w c) = 1" and "sent w c = []"
    using a by (auto simp: obj_inv_def member_inv_def split: if_splits)
  moreover from this o have "ops w c = no_ops\<lparr>accepts := 1\<rparr>"
    by (cases "ops w c") (auto simp: obj_inv_def member_inv_def outbox_inv_def no_ops_def)
  ultimately show thesis using that x o by (simp add: obj_inv_def)
qed

lemma inv_begun_accept:
  assumes I: "world_inv P [] w" and a: "accepts (ops w c) > 0"
  shows "world_inv P [c] (begun c (\<lambda>q. q\<lparr>accepts := accepts q - 1\<rparr>) w)"
proof -
  obtain x where x: "heap w c = Some x" and c: "c \<notin> set (clients w)"
    and s: "sent w c = []" by (rule pending_accept [OF I a])
  have o: "obj_inv P False c x (ops w c) [] (wire w c)" using invD(4) [OF I x] c s by simp
  show ?thesis
    by (rule inv_local [OF I x, where x' = x and v' = "wire w c"
          and q' = "(ops w c)\<lparr>accepts := accepts (ops w c) - 1\<rparr>"])
       (use o c s x invD(2) [OF I] in
         \<open>auto simp: world_simps obj_inv_def member_inv_def outbox_inv_def\<close>)
qed

lemma exec_Accepted_fail:
  assumes P: "platform_ok P" and I: "world_inv P [] w" and a: "accepts (ops w c) > 0"
    and ec: "ec \<noteq> Success"
  shows "exec P (Accepted c ec) w = release P c (begun c (\<lambda>q. q\<lparr>accepts := accepts q - 1\<rparr>) w)"
  using complete_inv(1) [of P "accept P c ec" c, OF P _ inv_begun_accept [OF I a]] ec
  by (simp add: accept_def comp_simps begun_def)

lemma exec_Accepted_ok:
  assumes P: "platform_ok P" and I: "world_inv P [] w" and a: "accepts (ops w c) > 0"
  obtains t where
    "system_text P Connect (random_uuid P (conn_index c)) (ticks w) = Inr t"
    and "exec P (Accepted c Success) w =
      pop_stack c (set_ops c (\<lambda>q. q\<lparr>reads := Suc (reads q)\<rparr>)
        (joined P c t (begun c (\<lambda>q. q\<lparr>accepts := accepts q - 1\<rparr>) w)))"
    and "world_inv P [] (exec P (Accepted c Success) w)"
proof -
  let ?b = "begun c (\<lambda>q. q\<lparr>accepts := accepts q - 1\<rparr>) w"
  obtain x where x: "heap w c = Some x" and c: "c \<notin> set (clients w)"
    and q: "ops w c = no_ops\<lparr>accepts := 1\<rparr>" and u: "uuid x = random_uuid P (conn_index c)"
    by (rule pending_accept [OF I a])
  have B: "world_inv P [c] ?b" by (rule inv_begun_accept [OF I a])
  have "heap ?b c = Some x" "c \<notin> set (clients ?b)" "accepts (ops ?b c) = 0"
    using x c q by (simp_all add: world_simps)
  then obtain t where t: "system_text P Connect (uuid x) (ticks ?b) = Inr t"
    and run: "connect P c ?b = (Inr (), joined P c t ?b)" and J: "world_inv P [c] (joined P c t ?b)"
    by (rule inv_connect [OF P B])
  let ?j = "joined P c t ?b" and ?r = "set_ops c (\<lambda>q. q\<lparr>reads := Suc (reads q)\<rparr>) (joined P c t ?b)"
  have xj: "heap ?j c = Some x" using x by (simp add: world_simps)
  have m: "c \<in> set (clients ?j)"
    using clients_insert_set(1) [OF P, of "post_all (insert c (set (clients ?b))) t (tick ?b)" c]
      invD(12) [OF B] by (simp add: joined_def world_simps)
  have o: "obj_inv P True c x (ops ?j c) (sent ?j c) (wire ?j c)" using invD(4) [OF J xj] m by simp
  have qj: "reads (ops ?j c) = 0" "buffer x = ''''" using q invD(4) [OF I x] c
    by (simp_all add: world_simps obj_inv_def member_inv_def)
  have R: "world_inv P [c] ?r"
    by (rule inv_local [OF J xj, where x' = x and v' = "wire ?j c"
          and q' = "(ops ?j c)\<lparr>reads := Suc (reads (ops ?j c))\<rparr>"])
       (use o m xj qj invD(2) [OF J] in
         \<open>auto simp: world_simps obj_inv_def member_inv_def outbox_inv_def\<close>)
  have body: "accept P c Success (push_stack c (set_ops c (\<lambda>q. q\<lparr>accepts := accepts q - 1\<rparr>) w))
      = (Inr (), ?r)"
    using run invD(5) [OF J xj] by (simp add: accept_def seq_def comp_simps begun_def)
  have "ops ?r c \<noteq> no_ops" by (simp add: world_simps no_ops_iff)
  with R have rel: "release P c ?r = pop_stack c ?r" "world_inv P [] (release P c ?r)"
    by (rule release_alive)+
  show thesis
    using that t u complete_inv(1) [of P "accept P c Success" c, OF P body R] rel
    by (simp add: world_simps)
qed

section \<open>A received message\<close>

lemma pending_read:
  assumes I: "world_inv P [] w" and r: "reads (ops w c) > 0"
  obtains x where "heap w c = Some x" and "c \<in> set (clients w)" and "reads (ops w c) = 1"
    and "buffer x = ''''" and "uuid x = random_uuid P (conn_index c)"
proof -
  from r have "heap w c \<noteq> None" using invD(6) [OF I, of c] by force
  then obtain x where x: "heap w c = Some x" by blast
  have "obj_inv P (c \<in> set (clients w)) c x (ops w c) (sent w c) (wire w c)"
    by (rule invD(4) [OF I x])
  then show thesis
    using that x r by (auto simp: obj_inv_def member_inv_def split: if_splits)
qed

text \<open>A read handler that starts with \<open>s\<close> in the buffer.\<close>

definition arrived :: "conn \<Rightarrow> string \<Rightarrow> world \<Rightarrow> world" where
  "arrived c s w = push_stack c (set_conn c (\<lambda>x. x\<lparr>buffer := buffer x @ s\<rparr>)
     (set_ops c (\<lambda>q. q\<lparr>reads := reads q - 1\<rparr>) w))"

lemma arrived_simps [world_simps]:
  "ops (arrived c s w) = (ops w)(c := (ops w c)\<lparr>reads := reads (ops w c) - 1\<rparr>)"
  "heap (arrived c s w) = (heap w)(c := map_option (\<lambda>x. x\<lparr>buffer := buffer x @ s\<rparr>) (heap w c))"
  "stack (arrived c s w) = c # stack w" "clients (arrived c s w) = clients w"
  "ticks (arrived c s w) = ticks w" "next_conn (arrived c s w) = next_conn w"
  "sent (arrived c s w) = sent w" "wire (arrived c s w) = wire w" "crash (arrived c s w) = crash w"
  by (simp_all add: arrived_def world_simps)

lemma inv_arrived:
  assumes I: "world_inv P [] w" and r: "reads (ops w c) > 0"
  shows "world_inv P [c] (arrived c s w)"
proof -
  obtain x where x: "heap w c = Some x" and c: "c \<in> set (clients w)" and q: "reads (ops w c) = 1"
    by (rule pending_read [OF I r])
  have o: "obj_inv P True c x (ops w c) (sent w c) (wire w c)" using invD(4) [OF I x] c by simp
  show ?thesis
    by (rule inv_local [OF I x, where x' = "x\<lparr>buffer := buffer x @ s\<rparr>" and v' = "wire w c"
          and q' = "(ops w c)\<lparr>reads := reads (ops w c) - 1\<rparr>"])
       (use o c q x invD(2) [OF I] in
         \<open>auto simp: world_simps obj_inv_def member_inv_def outbox_inv_def\<close>)
qed

lemma exec_Received_fail:
  assumes P: "platform_ok P" and I: "world_inv P [] w" and r: "reads (ops w c) > 0"
    and ec: "ec \<noteq> Success"
  shows "exec P (Received c ec s junk) w = release P c (arrived c s w)"
  using complete_inv(1) [of P "handle P junk c ec" c, OF P _ inv_arrived [OF I r]] ec
  by (simp add: handle_def comp_simps arrived_def)

text \<open>What the read handler sends: the message to all, or an error to its own client.\<close>

definition reply :: "'j platform \<Rightarrow> indeterminate \<Rightarrow> conn \<Rightarrow> string \<Rightarrow> world \<Rightarrow> world" where
  "reply P junk c s w = (case message_of_string (json P) junk s of
       Inr m \<Rightarrow> (case serialize (json P) m of
           Inr t \<Rightarrow> post_all (set (clients w)) t w | Inl e \<Rightarrow> w)
     | Inl e \<Rightarrow> (case system_text P Error ''bad message'' (ticks w) of
           Inr t \<Rightarrow> post_all {c} t (tick w) | Inl e \<Rightarrow> w))"

lemma reply_simps [world_simps]:
  "heap (reply P junk c s w) = heap w" "stack (reply P junk c s w) = stack w"
  "clients (reply P junk c s w) = clients w" "next_conn (reply P junk c s w) = next_conn w"
  "wire (reply P junk c s w) = wire w" "crash (reply P junk c s w) = crash w"
  "reads (ops (reply P junk c s w) d) = reads (ops w d)"
  "writes (ops (reply P junk c s w) d) = writes (ops w d)"
  "accepts (ops (reply P junk c s w) d) = accepts (ops w d)"
  by (auto simp: reply_def world_simps split: sum.splits)

lemma post_all_singleton: "post_all {c} t w = post_effect t c w"
  using post_all_insert [of c "{}" t w] by (simp add: post_all_def)

lemma inv_reply:
  "world_inv P st w \<Longrightarrow> c \<in> set (clients w) \<Longrightarrow> world_inv P st (reply P junk c s w)"
  by (auto simp: reply_def world_simps intro!: inv_post_all inv_tick split: sum.splits)

lemma handle_reply:
  assumes P: "platform_ok P" and I: "world_inv P [c] w" and x: "heap w c = Some x"
  shows "catch_std
           (seq (lift (message_of_string (json P) junk s)) (broadcast_msg P))
           (\<lambda>e. seq (system_message P Error ''bad message'') (\<lambda>msg.
                seq (lift (serialize (json P) msg)) (send c))) w
         = (Inr (), reply P junk c s w)"
proof (cases "message_of_string (json P) junk s")
  case (Inl e)
  have L: "json_laws (json P)" using P by (simp add: platform_ok_def)
  have e: "std_exception e" using codec.decode_std [OF L Inl] .
  have "ascii ''bad message''" by (simp add: ascii_def)
  then obtain t where t: "system_text P Error ''bad message'' (ticks w) = Inr t"
    using system_text_ok [OF P, of Error] by (metis named.simps(5))
  have "use_count (tick w) c > 0" using invD(5) [OF I x] by (simp add: world_simps)
  then have "send c t (tick w) = (Inr (), post_effect t c (tick w))" by (rule send_run)
  then show ?thesis
    using Inl e t by (simp add: catch_std_def seq_def comp_simps reply_def system_text_def
        post_all_singleton tick_def)
next
  case (Inr m)
  have L: "json_laws (json P)" using P by (simp add: platform_ok_def)
  obtain t where t: "serialize (json P) m = Inr t" using codec.encode_decoded [OF L Inr] by blast
  have "broadcast_msg P m w = (Inr (), post_all (set (clients w)) t w)"
    using broadcast_msg_run [of w P m t, OF invD(3) [OF I] t] inv_audience [OF I] by simp
  then show ?thesis using Inr t by (simp add: catch_std_def seq_def comp_simps reply_def)
qed

lemma exec_Received_ok:
  assumes P: "platform_ok P" and I: "world_inv P [] w" and r: "reads (ops w c) > 0"
  shows "exec P (Received c Success s junk) w =
      pop_stack c (set_ops c (\<lambda>q. q\<lparr>reads := Suc (reads q)\<rparr>)
        (set_conn c (\<lambda>y. y\<lparr>buffer := ''''\<rparr>) (reply P junk c s (arrived c s w))))"
    and "world_inv P [] (exec P (Received c Success s junk) w)"
proof -
  let ?a = "arrived c s w"
  let ?p = "reply P junk c s ?a"
  let ?r = "set_ops c (\<lambda>q. q\<lparr>reads := Suc (reads q)\<rparr>) (set_conn c (\<lambda>y. y\<lparr>buffer := ''''\<rparr>) ?p)"
  obtain x where x: "heap w c = Some x" and c: "c \<in> set (clients w)" and q: "reads (ops w c) = 1"
    and b: "buffer x = ''''" by (rule pending_read [OF I r])
  have A: "world_inv P [c] ?a" by (rule inv_arrived [OF I r])
  have xa: "heap ?a c = Some (x\<lparr>buffer := s\<rparr>)" using x b by (simp add: world_simps)
  have R0: "world_inv P [c] ?p" by (rule inv_reply [OF A]) (simp add: world_simps c)
  have xr: "heap ?p c = Some (x\<lparr>buffer := s\<rparr>)" using xa by (simp add: world_simps)
  have o: "obj_inv P True c (x\<lparr>buffer := s\<rparr>) (ops ?p c) (sent ?p c) (wire ?p c)"
    using invD(4) [OF R0 xr] c by (simp add: world_simps)
  have rp: "reads (ops ?p c) = 0" using q by (simp add: world_simps)
  have R: "world_inv P [c] ?r"
    by (rule inv_local [OF R0 xr, where x' = "x\<lparr>buffer := ''''\<rparr>" and v' = "wire ?p c"
          and q' = "(ops ?p c)\<lparr>reads := Suc (reads (ops ?p c))\<rparr>"])
       (use o c xr rp invD(2) [OF R0] in
         \<open>auto simp: world_simps obj_inv_def member_inv_def outbox_inv_def\<close>)
  have live: "use_count (set_conn c (\<lambda>y. y\<lparr>buffer := ''''\<rparr>) ?p) c > 0"
    using invD(5) [OF R0 xr] by (simp add: world_simps)
  have "handle P junk c Success ?a = (Inr (), ?r)"
    using xa handle_reply [OF P A xa, of junk s] live
    by (simp add: handle_def seq_def comp_simps Let_def)
  then have body: "handle P junk c Success (push_stack c (set_conn c (\<lambda>x. x\<lparr>buffer := buffer x @ s\<rparr>)
      (set_ops c (\<lambda>q. q\<lparr>reads := reads q - 1\<rparr>) w))) = (Inr (), ?r)"
    by (simp only: arrived_def)
  have "ops ?r c \<noteq> no_ops" by (simp add: world_simps no_ops_iff)
  with R have rel: "release P c ?r = pop_stack c ?r" "world_inv P [] (release P c ?r)"
    by (rule release_alive)+
  show "exec P (Received c Success s junk) w = pop_stack c ?r"
    and "world_inv P [] (exec P (Received c Success s junk) w)"
    using complete_inv(1) [of P "handle P junk c Success" c, OF P body R] rel by simp_all
qed

section \<open>Writes and posted sends\<close>

lemma pending_write:
  assumes I: "world_inv P [] w" and p: "writes (ops w c) \<noteq> []"
  obtains x t ts where "heap w c = Some x" and "writes (ops w c) = [t]" and "queue x = t # ts"
proof -
  from p have "heap w c \<noteq> None" using invD(6) [OF I, of c] by force
  then obtain x where x: "heap w c = Some x" by blast
  have "outbox_inv x (ops w c) (sent w c) (wire w c)"
    using invD(4) [OF I x] by (simp add: obj_inv_def)
  then obtain t where "writes (ops w c) = [t]" "queue x \<noteq> []" "hd (queue x) = t"
    using p by (auto simp: outbox_inv_def)
  then show thesis using that x by (cases "queue x") auto
qed

lemma pending_post:
  assumes I: "world_inv P [] w" and p: "posts (ops w c) \<noteq> []"
  obtains x where "heap w c = Some x" and "queue x = [] \<Longrightarrow> writes (ops w c) = []"
proof -
  from p have "heap w c \<noteq> None" using invD(6) [OF I, of c] by force
  then obtain x where x: "heap w c = Some x" by blast
  have "outbox_inv x (ops w c) (sent w c) (wire w c)"
    using invD(4) [OF I x] by (simp add: obj_inv_def)
  then show thesis using that x by (auto simp: outbox_inv_def)
qed

lemma exec_Written_fail:
  assumes P: "platform_ok P" and I: "world_inv P [] w" and p: "writes (ops w c) \<noteq> []"
    and ec: "ec \<noteq> Success"
  shows "exec P (Written c ec) w = release P c (begun c (\<lambda>q. q\<lparr>writes := tl (writes q)\<rparr>) w)"
    and "world_inv P [c] (begun c (\<lambda>q. q\<lparr>writes := tl (writes q)\<rparr>) w)"
proof -
  let ?b = "begun c (\<lambda>q. q\<lparr>writes := tl (writes q)\<rparr>) w"
  obtain x t ts where x: "heap w c = Some x" and q: "writes (ops w c) = [t]" "queue x = t # ts"
    by (rule pending_write [OF I p])
  have o: "obj_inv P (c \<in> set (clients w)) c x (ops w c) (sent w c) (wire w c)"
    by (rule invD(4) [OF I x])
  show B: "world_inv P [c] ?b"
    by (rule inv_local [OF I x, where x' = x and v' = "wire w c"
          and q' = "(ops w c)\<lparr>writes := tl (writes (ops w c))\<rparr>"])
       (use o q x invD(2) [OF I] in
         \<open>auto simp: world_simps obj_inv_def member_inv_def outbox_inv_def split: if_splits\<close>)
  show "exec P (Written c ec) w = release P c ?b"
    using complete_inv(1) [of P "on_write c ec" c, OF P _ B] ec
    by (simp add: on_write_error begun_def)
qed

text \<open>
  The world after a successful write of the front of the queue: the next text, if there is one, is
  being written.
\<close>

definition written :: "conn \<Rightarrow> string \<Rightarrow> string list \<Rightarrow> world \<Rightarrow> world" where
  "written c t ts w = w\<lparr>
     heap := (heap w)(c := map_option (\<lambda>y. y\<lparr>queue := ts\<rparr>) (heap w c)),
     ops := (ops w)(c := (ops w c)\<lparr>writes := (case ts of [] \<Rightarrow> [] | u # _ \<Rightarrow> [u])\<rparr>),
     wire := (wire w)(c := wire w c @ [t])\<rparr>"

lemma written_simps [world_simps]:
  "heap (written c t ts w) = (heap w)(c := map_option (\<lambda>y. y\<lparr>queue := ts\<rparr>) (heap w c))"
  "ops (written c t ts w) = (ops w)(c := (ops w c)\<lparr>writes := (case ts of [] \<Rightarrow> [] | u # _ \<Rightarrow> [u])\<rparr>)"
  "wire (written c t ts w) = (wire w)(c := wire w c @ [t])"
  "stack (written c t ts w) = stack w" "clients (written c t ts w) = clients w"
  "ticks (written c t ts w) = ticks w" "next_conn (written c t ts w) = next_conn w"
  "sent (written c t ts w) = sent w" "crash (written c t ts w) = crash w"
  by (simp_all add: written_def)

lemma exec_Written_ok:
  assumes P: "platform_ok P" and I: "world_inv P [] w" and x: "heap w c = Some x"
    and q: "writes (ops w c) = [t]" "queue x = t # ts"
  shows "exec P (Written c Success) w = release P c (push_stack c (written c t ts w))"
    and "world_inv P [c] (push_stack c (written c t ts w))"
proof -
  let ?b = "push_stack c (written c t ts w)"
  let ?s = "(set_ops c (\<lambda>q. q\<lparr>writes := tl (writes q)\<rparr>) w)\<lparr>wire := (wire w)(c := wire w c @ [t])\<rparr>"
  have o: "obj_inv P (c \<in> set (clients w)) c x (ops w c) (sent w c) (wire w c)"
    by (rule invD(4) [OF I x])
  show B: "world_inv P [c] ?b"
    by (rule inv_local [OF I x, where x' = "x\<lparr>queue := ts\<rparr>" and v' = "wire w c @ [t]"
          and q' = "(ops w c)\<lparr>writes := (case ts of [] \<Rightarrow> [] | u # _ \<Rightarrow> [u])\<rparr>"])
       (use o q x invD(2) [OF I] in
         \<open>auto simp: world_simps obj_inv_def member_inv_def outbox_inv_def split: if_splits list.split\<close>)
  have "heap (push_stack c ?s) c = Some x" "use_count (push_stack c ?s) c > 0"
    using x by (simp_all add: world_simps use_count_def)
  then have "on_write c Success (push_stack c ?s) = (Inr (),
     (let w' = set_conn c (\<lambda>y. y\<lparr>queue := ts\<rparr>) (push_stack c ?s)
      in case ts of [] \<Rightarrow> w' | u # _ \<Rightarrow> set_ops c (\<lambda>q. q\<lparr>writes := writes q @ [u]\<rparr>) w'))"
    using on_write_success q(2) by blast
  also have "(let w' = set_conn c (\<lambda>y. y\<lparr>queue := ts\<rparr>) (push_stack c ?s)
      in case ts of [] \<Rightarrow> w' | u # _ \<Rightarrow> set_ops c (\<lambda>q. q\<lparr>writes := writes q @ [u]\<rparr>) w') = ?b"
    using q by (auto simp: Let_def written_def push_stack_def set_ops_def set_conn_def split: list.split)
  finally have body: "on_write c Success (push_stack c ?s) = (Inr (), ?b)" .
  show "exec P (Written c Success) w = release P c ?b"
    using complete_inv(1) [of P "on_write c Success" c, OF P body B] q
    by (simp add: Let_def world_simps)
qed

text \<open>The world after a posted text was queued; it is written at once if the queue was empty.\<close>

definition queued :: "conn \<Rightarrow> string \<Rightarrow> string list \<Rightarrow> wsconn \<Rightarrow> world \<Rightarrow> world" where
  "queued c t ps x w = w\<lparr>
     heap := (heap w)(c \<mapsto> x\<lparr>queue := queue x @ [t]\<rparr>),
     ops := (ops w)(c := (ops w c)\<lparr>posts := ps,
       writes := (if queue x = [] then [t] else writes (ops w c))\<rparr>)\<rparr>"

lemma queued_simps [world_simps]:
  "heap (queued c t ps x w) = (heap w)(c \<mapsto> x\<lparr>queue := queue x @ [t]\<rparr>)"
  "ops (queued c t ps x w) = (ops w)(c := (ops w c)\<lparr>posts := ps,
       writes := (if queue x = [] then [t] else writes (ops w c))\<rparr>)"
  "wire (queued c t ps x w) = wire w"
  "stack (queued c t ps x w) = stack w" "clients (queued c t ps x w) = clients w"
  "ticks (queued c t ps x w) = ticks w" "next_conn (queued c t ps x w) = next_conn w"
  "sent (queued c t ps x w) = sent w" "crash (queued c t ps x w) = crash w"
  by (simp_all add: queued_def)

lemma exec_Posted:
  assumes P: "platform_ok P" and I: "world_inv P [] w" and x: "heap w c = Some x"
    and p: "posts (ops w c) = t # ps"
  shows "exec P (Posted c) w = release P c (push_stack c (queued c t ps x w))"
    and "world_inv P [c] (push_stack c (queued c t ps x w))"
proof -
  let ?b = "push_stack c (queued c t ps x w)"
  let ?s = "push_stack c (set_ops c (\<lambda>q. q\<lparr>posts := tl (posts q)\<rparr>) w)"
  have o: "obj_inv P (c \<in> set (clients w)) c x (ops w c) (sent w c) (wire w c)"
    by (rule invD(4) [OF I x])
  then have e: "queue x = [] \<Longrightarrow> writes (ops w c) = []"
    by (auto simp: obj_inv_def outbox_inv_def)
  show B: "world_inv P [c] ?b"
    by (rule inv_local [OF I x, where x' = "x\<lparr>queue := queue x @ [t]\<rparr>" and v' = "wire w c"
          and q' = "(ops w c)\<lparr>posts := ps,
             writes := (if queue x = [] then [t] else writes (ops w c))\<rparr>"])
       (use o e p x invD(2) [OF I] in
         \<open>auto simp: world_simps obj_inv_def member_inv_def outbox_inv_def split: if_splits\<close>)
  have "heap ?s c = Some x" "use_count ?s c > 0"
    using x by (simp_all add: world_simps use_count_def)
  then have "on_send c t ?s = (Inr (),
     (let w' = set_conn c (\<lambda>y. y\<lparr>queue := queue y @ [t]\<rparr>) ?s
      in if queue x = [] then set_ops c (\<lambda>q. q\<lparr>writes := writes q @ [t]\<rparr>) w' else w'))"
    by (rule on_send_run)
  also have "(let w' = set_conn c (\<lambda>y. y\<lparr>queue := queue y @ [t]\<rparr>) ?s
      in if queue x = [] then set_ops c (\<lambda>q. q\<lparr>writes := writes q @ [t]\<rparr>) w' else w') = ?b"
    using p x e by (auto simp: Let_def queued_def push_stack_def set_ops_def set_conn_def)
  finally have body: "on_send c t ?s = (Inr (), ?b)" .
  show "exec P (Posted c) w = release P c ?b"
    using complete_inv(1) [of P "on_send c t" c, OF P body B] p by simp
qed

section \<open>Every step keeps the invariant\<close>

lemma exec_inv:
  assumes P: "platform_ok P" and I: "world_inv P [] w" and e: "enabled e w"
  shows "world_inv P [] (exec P e w)"
proof (cases e)
  case Open
  then show ?thesis using exec_Open [OF I] inv_opened [OF I] by simp
next
  case (Accepted c ec)
  then have a: "accepts (ops w c) > 0" using e by simp
  show ?thesis
  proof (cases "ec = Success")
    case True
    then show ?thesis using exec_Accepted_ok [OF P I a] Accepted by metis
  next
    case False
    then show ?thesis
      using exec_Accepted_fail [OF P I a] release_inv [OF P inv_begun_accept [OF I a]] Accepted
      by simp
  qed
next
  case (Received c ec s junk)
  then have r: "reads (ops w c) > 0" using e by simp
  show ?thesis
  proof (cases "ec = Success")
    case True
    then show ?thesis using exec_Received_ok(2) [OF P I r] Received by simp
  next
    case False
    then show ?thesis
      using exec_Received_fail [OF P I r] release_inv [OF P inv_arrived [OF I r]] Received by simp
  qed
next
  case (Written c ec)
  then have p: "writes (ops w c) \<noteq> []" using e by simp
  obtain x t ts where x: "heap w c = Some x" "writes (ops w c) = [t]" "queue x = t # ts"
    by (rule pending_write [OF I p])
  show ?thesis
    using exec_Written_ok [OF P I x] exec_Written_fail [OF P I p] release_inv [OF P] Written
    by (cases "ec = Success") simp_all
next
  case (Posted c)
  then obtain t ps where p: "posts (ops w c) = t # ps" using e by (cases "posts (ops w c)") auto
  then obtain x where x: "heap w c = Some x" using pending_post [OF I, of c] by fastforce
  show ?thesis
    using exec_Posted [OF P I x p] release_inv [OF P] Posted by simp
qed

interpretation chat: invariant_system "\<lambda>w. w = world0" "step P"
  "\<lambda>w. platform_ok P \<longrightarrow> world_inv P [] w" for P :: "'j platform"
proof
  fix s :: world
  show "s = world0 \<Longrightarrow> platform_ok P \<longrightarrow> world_inv P [] s" by (simp add: inv_world0)
  fix e t
  show "platform_ok P \<longrightarrow> world_inv P [] s \<Longrightarrow> step P s e t \<Longrightarrow> platform_ok P \<longrightarrow> world_inv P [] t"
    by (auto simp: step_iff exec_inv)
qed

text \<open>From here on the closed forms above replace the definition of \<open>exec\<close>.\<close>

declare exec.simps [simp del]

lemma reachable_inv: "platform_ok P \<Longrightarrow> reachable P w \<Longrightarrow> world_inv P [] w"
  using chat.reach_inv by blast

text \<open>The closed form of a handshake as an equation, for a known text.\<close>

lemma exec_Accepted_eq:
  assumes "platform_ok P" and "world_inv P [] w" and "accepts (ops w c) > 0"
    and "system_text P Connect (random_uuid P (conn_index c)) (ticks w) = Inr t"
  shows "exec P (Accepted c Success) w =
    pop_stack c (set_ops c (\<lambda>q. q\<lparr>reads := Suc (reads q)\<rparr>)
      (joined P c t (begun c (\<lambda>q. q\<lparr>accepts := accepts q - 1\<rparr>) w)))"
proof -
  obtain t' where "system_text P Connect (random_uuid P (conn_index c)) (ticks w) = Inr t'"
    and "exec P (Accepted c Success) w =
    pop_stack c (set_ops c (\<lambda>q. q\<lparr>reads := Suc (reads q)\<rparr>)
      (joined P c t' (begun c (\<lambda>q. q\<lparr>accepts := accepts q - 1\<rparr>) w)))"
    by (rule exec_Accepted_ok [OF assms(1-3)])
  then show ?thesis using assms(4) by simp
qed

section \<open>The outcomes of a step\<close>

text \<open>
  The events whose handlers send nothing: failures, completed writes, queued texts. They change one
  connection and may end its life.
\<close>

fun quiet_event :: "event \<Rightarrow> conn \<Rightarrow> bool" where
  "quiet_event Open c = False"
| "quiet_event (Accepted d ec) c = (d = c \<and> ec \<noteq> Success)"
| "quiet_event (Received d ec s junk) c = (d = c \<and> ec \<noteq> Success)"
| "quiet_event (Written d ec) c = (d = c)"
| "quiet_event (Posted d) c = (d = c)"

text \<open>
  \<open>quiet_change c w v\<close>: the handler of \<open>c\<close> went from \<open>w\<close> to \<open>v\<close> without sending. The last two
  conjuncts say what it may have written, and that a stalled outbox stays stalled.
\<close>

definition stalled :: "wsconn \<Rightarrow> conn_ops \<Rightarrow> bool" where
  "stalled x q \<longleftrightarrow> queue x \<noteq> [] \<and> writes q = []"

definition quiet_change :: "conn \<Rightarrow> world \<Rightarrow> world \<Rightarrow> bool" where
  "quiet_change c w v \<longleftrightarrow> (\<exists>x x' q' u. heap w c = Some x \<and> heap v = (heap w)(c \<mapsto> x') \<and>
     ops v = (ops w)(c := q') \<and> wire v = (wire w)(c := u) \<and> sent v = sent w \<and>
     clients v = clients w \<and> ticks v = ticks w \<and> next_conn v = next_conn w \<and>
     reads q' \<le> reads (ops w c) \<and>
     (stalled x (ops w c) \<longrightarrow> stalled x' q' \<and> u = wire w c))"

text \<open>
  \<open>ends e w\<close>: the operation that completes with \<open>e\<close> is the last one that holds the connection, and its
  handler will not start another one.
\<close>

fun ends :: "event \<Rightarrow> world \<Rightarrow> bool" where
  "ends Open w = False"
| "ends (Accepted c ec) w = (ec \<noteq> Success \<and> use_count w c = 1)"
| "ends (Received c ec s junk) w = (ec \<noteq> Success \<and> use_count w c = 1)"
| "ends (Written c ec) w = (use_count w c = 1 \<and> (ec = Success \<longrightarrow>
     (case heap w c of None \<Rightarrow> False | Some x \<Rightarrow> length (queue x) = 1)))"
| "ends (Posted c) w = (use_count w c = 1 \<and>
     (case heap w c of None \<Rightarrow> False | Some x \<Rightarrow> queue x \<noteq> []))"

lemma use_count_idle: "world_inv P [] w \<Longrightarrow> use_count w c = op_count (ops w c)"
  using invD(2) by (fastforce simp: use_count_def)

lemma op_count_1:
  "reads q > 0 \<Longrightarrow> op_count q = 1 \<longleftrightarrow> accepts q = 0 \<and> reads q = 1 \<and> writes q = [] \<and> posts q = []"
  "writes q \<noteq> [] \<Longrightarrow> op_count q = 1 \<longleftrightarrow>
     accepts q = 0 \<and> reads q = 0 \<and> length (writes q) = 1 \<and> posts q = []"
  "posts q \<noteq> [] \<Longrightarrow> op_count q = 1 \<longleftrightarrow>
     accepts q = 0 \<and> reads q = 0 \<and> writes q = [] \<and> length (posts q) = 1"
  by (cases "writes q"; cases "posts q"; auto simp: op_count_def)+

text \<open>\<open>quiet_end\<close>: the step is the end of a handler of \<open>c\<close> that sent nothing.\<close>

definition quiet_end :: "'j platform \<Rightarrow> event \<Rightarrow> conn \<Rightarrow> world \<Rightarrow> world \<Rightarrow> bool" where
  "quiet_end P e c w v \<longleftrightarrow> exec P e w = release P c v \<and> world_inv P [c] v \<and> quiet_change c w v \<and>
     (ops v c = no_ops \<longleftrightarrow> ends e w)"

lemma quiet_changeI:
  assumes "heap w c = Some x" and "heap v = (heap w)(c \<mapsto> x')" and "ops v = (ops w)(c := q')"
    and "wire v = (wire w)(c := u)" and "sent v = sent w" and "clients v = clients w"
    and "ticks v = ticks w" and "next_conn v = next_conn w" and "reads q' \<le> reads (ops w c)"
    and "stalled x (ops w c) \<Longrightarrow> stalled x' q' \<and> u = wire w c"
  shows "quiet_change c w v"
  using assms unfolding quiet_change_def by blast

lemma quiet_Accepted:
  assumes P: "platform_ok P" and I: "world_inv P [] w" and a: "accepts (ops w c) > 0"
    and ec: "ec \<noteq> Success"
  shows "quiet_end P (Accepted c ec) c w (begun c (\<lambda>q. q\<lparr>accepts := accepts q - 1\<rparr>) w)" (is "quiet_end P ?e c w ?v")
proof -
  obtain x where x: "heap w c = Some x" and q: "ops w c = no_ops\<lparr>accepts := 1\<rparr>"
    by (rule pending_accept [OF I a])
  have "quiet_change c w ?v"
    by (rule quiet_changeI [OF x, where x' = x and u = "wire w c"
          and q' = "(ops w c)\<lparr>accepts := accepts (ops w c) - 1\<rparr>"])
       (use x in \<open>auto simp: world_simps stalled_def\<close>)
  moreover have "ops ?v c = no_ops \<longleftrightarrow> ends ?e w"
    using ec q by (simp add: world_simps use_count_idle [OF I] op_count_def no_ops_def)
  ultimately show ?thesis
    using exec_Accepted_fail [OF P I a ec] inv_begun_accept [OF I a] by (simp add: quiet_end_def)
qed

lemma quiet_Received:
  assumes P: "platform_ok P" and I: "world_inv P [] w" and r: "reads (ops w c) > 0"
    and ec: "ec \<noteq> Success"
  shows "quiet_end P (Received c ec s junk) c w (arrived c s w)" (is "quiet_end P ?e c w ?v")
proof -
  obtain x where x: "heap w c = Some x" by (rule pending_read [OF I r])
  have "quiet_change c w ?v"
    by (rule quiet_changeI [OF x, where x' = "x\<lparr>buffer := buffer x @ s\<rparr>" and u = "wire w c"
          and q' = "(ops w c)\<lparr>reads := reads (ops w c) - 1\<rparr>"])
       (use x in \<open>auto simp: world_simps stalled_def\<close>)
  moreover have "ops ?v c = no_ops \<longleftrightarrow> ends ?e w"
    using ec op_count_1(1) [OF r] r by (auto simp: world_simps use_count_idle [OF I] no_ops_iff)
  ultimately show ?thesis
    using exec_Received_fail [OF P I r ec] inv_arrived [OF I r] by (simp add: quiet_end_def)
qed

lemma quiet_Written:
  assumes P: "platform_ok P" and I: "world_inv P [] w" and p: "writes (ops w c) \<noteq> []"
  shows "\<exists>v. quiet_end P (Written c ec) c w v"
proof -
  obtain x t ts where x: "heap w c = Some x" "writes (ops w c) = [t]" "queue x = t # ts"
    by (rule pending_write [OF I p])
  let ?ok = "push_stack c (written c t ts w)" and ?fail = "begun c (\<lambda>q. q\<lparr>writes := tl (writes q)\<rparr>) w"
  have "quiet_change c w ?ok"
    by (rule quiet_changeI [OF x(1), where x' = "x\<lparr>queue := ts\<rparr>" and u = "wire w c @ [t]"
          and q' = "(ops w c)\<lparr>writes := (case ts of [] \<Rightarrow> [] | u # _ \<Rightarrow> [u])\<rparr>"])
       (use x in \<open>auto simp: world_simps stalled_def\<close>)
  moreover have "ops ?ok c = no_ops \<longleftrightarrow> ends (Written c Success) w"
    using x op_count_1(2) [OF p]
    by (auto simp: world_simps use_count_idle [OF I] no_ops_iff split: list.splits)
  ultimately have ok: "quiet_end P (Written c Success) c w ?ok"
    using exec_Written_ok [OF P I x] by (simp add: quiet_end_def)
  have "quiet_change c w ?fail"
    by (rule quiet_changeI [OF x(1), where x' = x and u = "wire w c"
          and q' = "(ops w c)\<lparr>writes := tl (writes (ops w c))\<rparr>"])
       (use x in \<open>auto simp: world_simps stalled_def\<close>)
  moreover have "ec \<noteq> Success \<Longrightarrow> ops ?fail c = no_ops \<longleftrightarrow> ends (Written c ec) w"
    using x op_count_1(2) [OF p] by (auto simp: world_simps use_count_idle [OF I] no_ops_iff)
  ultimately have "ec \<noteq> Success \<Longrightarrow> quiet_end P (Written c ec) c w ?fail"
    using exec_Written_fail [OF P I p] by (simp add: quiet_end_def)
  then show ?thesis using ok by (cases "ec = Success") auto
qed

lemma quiet_Posted:
  assumes P: "platform_ok P" and I: "world_inv P [] w" and ne: "posts (ops w c) \<noteq> []"
  shows "\<exists>v. quiet_end P (Posted c) c w v"
proof -
  obtain t ps where p: "posts (ops w c) = t # ps" using ne by (cases "posts (ops w c)") auto
  obtain x where x: "heap w c = Some x" and empty: "queue x = [] \<Longrightarrow> writes (ops w c) = []"
    using pending_post [OF I ne] by blast
  let ?v = "push_stack c (queued c t ps x w)"
  have "quiet_change c w ?v"
    by (rule quiet_changeI [OF x, where x' = "x\<lparr>queue := queue x @ [t]\<rparr>" and u = "wire w c"
          and q' = "(ops w c)\<lparr>posts := ps, writes := (if queue x = [] then [t] else writes (ops w c))\<rparr>"])
       (use x in \<open>auto simp: world_simps stalled_def\<close>)
  moreover have "ops ?v c = no_ops \<longleftrightarrow> ends (Posted c) w"
    using x p op_count_1(3) [OF ne] empty by (auto simp: world_simps use_count_idle [OF I] no_ops_iff)
  ultimately have "quiet_end P (Posted c) c w ?v"
    using exec_Posted [OF P I x p] by (simp add: quiet_end_def)
  then show ?thesis by blast
qed

lemma quiet_outcome:
  assumes "platform_ok P" and "world_inv P [] w" and "enabled e w" and "quiet_event e c"
  obtains v where "exec P e w = release P c v" and "world_inv P [c] v" and "quiet_change c w v"
    and "ops v c = no_ops \<longleftrightarrow> ends e w"
proof -
  have "\<exists>v. quiet_end P e c w v"
    using assms(3,4) quiet_Accepted [OF assms(1,2)] quiet_Received [OF assms(1,2)]
      quiet_Written [OF assms(1,2)] quiet_Posted [OF assms(1,2)]
    by (cases e) (auto, blast)
  then show thesis using that by (auto simp: quiet_end_def)
qed

lemma exec_outcome [consumes 3, case_names opened joined said quiet]:
  assumes P: "platform_ok P" and I: "world_inv P [] w" and e: "enabled e w"
  obtains "e = Open" and "exec P e w = opened P w"
  | c t where "e = Accepted c Success" and "accepts (ops w c) > 0"
    and "system_text P Connect (random_uuid P (conn_index c)) (ticks w) = Inr t"
    and "exec P e w = pop_stack c (set_ops c (\<lambda>q. q\<lparr>reads := Suc (reads q)\<rparr>)
        (joined P c t (begun c (\<lambda>q. q\<lparr>accepts := accepts q - 1\<rparr>) w)))"
  | c s junk where "e = Received c Success s junk" and "reads (ops w c) > 0"
    and "exec P e w = pop_stack c (set_ops c (\<lambda>q. q\<lparr>reads := Suc (reads q)\<rparr>)
        (set_conn c (\<lambda>y. y\<lparr>buffer := ''''\<rparr>) (reply P junk c s (arrived c s w))))"
  | c v where "quiet_event e c" and "exec P e w = release P c v" and "world_inv P [c] v"
    and "quiet_change c w v" and "ops v c = no_ops \<longleftrightarrow> ends e w"
proof (cases "\<exists>c. quiet_event e c")
  case True
  then obtain c where qe: "quiet_event e c" by blast
  obtain v where "exec P e w = release P c v" "world_inv P [c] v" "quiet_change c w v"
    "ops v c = no_ops \<longleftrightarrow> ends e w"
    by (rule quiet_outcome [OF P I e qe])
  then show thesis using that(4) qe by blast
next
  case False
  show thesis
  proof (cases e)
    case Open
    then show thesis using that(1) exec_Open [OF I] by simp
  next
    case (Accepted c ec)
    then have ec: "ec = Success" and a: "accepts (ops w c) > 0" using False e by auto
    show thesis by (rule exec_Accepted_ok [OF P I a]) (use that(2) Accepted ec a in simp)
  next
    case (Received c ec s junk)
    then have ec: "ec = Success" and r: "reads (ops w c) > 0" using False e by auto
    show thesis using that(3) exec_Received_ok(1) [OF P I r] Received ec r by simp
  qed (use False in simp_all)
qed

end
