(* ===== verification/HttpSession.thy ===== *)
theory HttpSession
  imports Handlers
begin

text \<open>
  Class \<open>HttpSession\<close> (\<open>include/http_session.cpp\<close>): one HTTP connection, which is answered request by
  request until it is upgraded to a websocket, closed or fails. Also the data of the whole process
  (\<open>system\<close>): the chat part of the previous theories, the HTTP sessions and the listener.
\<close>

section \<open>Requests and responses\<close>

text \<open>
  A request as the accessors of \<open>http::request\<close> show it; \<open>is_upgrade\<close> is what
  \<open>websocket::is_upgrade\<close> says of it. A response records the calls made on it; \<open>prepared\<close> is the call
  of \<open>prepare_payload\<close>, which sets the length header.
\<close>

record http_request =
  target :: string
  version :: nat
  keep_alive :: bool
  is_upgrade :: bool

datatype status = Bad_Request | Not_Found

record http_response =
  result :: status
  res_version :: nat
  content_type :: "string option"
  res_keep_alive :: bool
  body :: string
  prepared :: bool

definition handle_request :: "http_request \<Rightarrow> http_response" where
  "handle_request req =
     (if (case target req of [] \<Rightarrow> True | c # _ \<Rightarrow> c = CHR ''/'')
      then \<lparr>result = Bad_Request, res_version = version req, content_type = Some ''text/html'',
            res_keep_alive = keep_alive req, body = ''not websocket protocol'', prepared = True\<rparr>
      else \<lparr>result = Not_Found, res_version = version req, content_type = Some ''text/html'',
            res_keep_alive = keep_alive req, body = '''', prepared = True\<rparr>)"

section \<open>State\<close>

text \<open>
  The parser in \<open>parser_\<close>: freshly constructed, holding a parsed request, or holding what is left when
  \<open>release\<close> has moved the request out, of which nothing is known.
\<close>

datatype http_parser = Fresh | Parsed http_request | Moved_From

text \<open>
  What runs the completion handlers of a socket: a strand, which runs one at a time, or the
  \<open>io_context\<close> itself, where any idle thread takes them.
\<close>

datatype executor = Io_Context | Strand nat

text \<open>
  \<open>parser\<close> is \<open>parser_\<close>, which may be empty. \<open>socket_exec\<close> is the executor of the socket in \<open>stream_\<close>.
  \<open>http_reads\<close> and \<open>http_writes\<close> are the outstanding operations; a write remembers the \<open>keep_alive\<close>
  its completion handler captured. \<open>send_shut\<close> and \<open>released\<close> say what became of the socket.
\<close>

record http_session =
  parser :: "http_parser option"
  socket_exec :: executor
  http_reads :: nat
  http_writes :: "(http_response \<times> bool) list"
  send_shut :: bool
  released :: bool

text \<open>
  The listener is alive while an \<open>async_accept\<close> is outstanding, which puts the next socket on
  \<open>accept_exec\<close>. \<open>next_strand\<close> numbers the strands that \<open>net::make_strand\<close> makes. \<open>conn_exec\<close> is the
  executor of the socket of each connection, the \<open>get_executor()\<close> of its \<open>ws_\<close>. \<open>cerr\<close> is what the \<open>fail\<close> functions
  print; \<open>stopped\<close> is set by \<open>ioc.stop()\<close>. \<open>gone\<close> is a history that no operation reads: the sessions that
  were destroyed, as they were then.
\<close>

record system =
  chat :: world
  sessions :: "sess \<Rightarrow> http_session option"
  next_sess :: nat
  listening :: bool
  listener_accepts :: nat
  accept_exec :: executor
  next_strand :: nat
  conn_exec :: "conn \<Rightarrow> executor"
  cerr :: "(string \<times> error_code) list"
  stopped :: bool
  gone :: "(sess \<times> http_session) list"

definition log_fail :: "error_code \<Rightarrow> string \<Rightarrow> system \<Rightarrow> system" where
  "log_fail ec w s = (if ec \<noteq> Operation_Aborted then s\<lparr>cerr := cerr s @ [(w, ec)]\<rparr> else s)"

definition set_session :: "sess \<Rightarrow> (http_session \<Rightarrow> http_session) \<Rightarrow> system \<Rightarrow> system" where
  "set_session h f s = s\<lparr>sessions := (sessions s)(h := map_option f (sessions s h))\<rparr>"

section \<open>Operations\<close>

definition http_session_fail :: "error_code \<Rightarrow> string \<Rightarrow> system \<Rightarrow> system" where
  "http_session_fail ec w s = log_fail ec w s"

definition do_read :: "sess \<Rightarrow> system \<Rightarrow> system" where
  "do_read h s = set_session h (\<lambda>x. x\<lparr>parser := Some Fresh, http_reads := Suc (http_reads x)\<rparr>) s"

definition http_session_new :: "executor \<Rightarrow> system \<Rightarrow> sess \<times> system" where
  "http_session_new x s = (Sess (next_sess s),
     s\<lparr>sessions := (sessions s)(Sess (next_sess s) \<mapsto>
          \<lparr>parser = None, socket_exec = x, http_reads = 0, http_writes = [], send_shut = False, released = False\<rparr>),
       next_sess := Suc (next_sess s)\<rparr>)"

definition http_session_run :: "sess \<Rightarrow> system \<Rightarrow> system" where
  "http_session_run h s = do_read h s"

text \<open>
  \<open>parser_->get()\<close> after a completed read. An empty optional must not be dereferenced, and a request
  that was moved out has no specified value; that neither happens is part of the invariant of the sessions.
\<close>

definition parsed :: "sess \<Rightarrow> system \<Rightarrow> http_request option" where
  "parsed h s = (case sessions s h of
       None \<Rightarrow> None
     | Some x \<Rightarrow> (case parser x of Some (Parsed r) \<Rightarrow> Some r | _ \<Rightarrow> None))"

text \<open>\<open>parser_->release()\<close> moves the request out of the parser.\<close>

definition parser_release :: "sess \<Rightarrow> system \<Rightarrow> system" where
  "parser_release h s = set_session h (\<lambda>x. x\<lparr>parser := Some Moved_From\<rparr>) s"

text \<open>\<open>stream_.release_socket()\<close> gives the socket, with its executor, to the next \<open>WsConn\<close>.\<close>

definition release_socket :: "sess \<Rightarrow> system \<Rightarrow> system" where
  "release_socket h s = (set_session h (\<lambda>x. x\<lparr>released := True\<rparr>) s)
     \<lparr>conn_exec := (case sessions s h of
        None \<Rightarrow> conn_exec s
      | Some x \<Rightarrow> (conn_exec s)(Conn (next_conn (chat s)) := socket_exec x))\<rparr>"

text \<open>On an upgrade the socket moves into a new \<open>WsConn\<close>, whose handshake begins with the request.\<close>

definition http_handle :: "'j platform \<Rightarrow> sess \<Rightarrow> error_code \<Rightarrow> system \<Rightarrow> system" where
  "http_handle P h ec s =
     (if ec \<noteq> Success
      then (if ec = End_Of_Stream then set_session h (\<lambda>x. x\<lparr>send_shut := True\<rparr>) s
            else http_session_fail ec ''read'' s)
      else (case parsed h s of
        None \<Rightarrow> s\<lparr>chat := (chat s)\<lparr>crash := Some (Undefined_Behaviour ''empty parser'')\<rparr>\<rparr>
      | Some req \<Rightarrow>
          if is_upgrade req
          then (let s1 = parser_release h (release_socket h s)
                in s1\<lparr>chat := open_conn P (chat s1)\<rparr>)
          else (let msg = handle_request req; ka = res_keep_alive msg; s1 = parser_release h s
                in set_session h (\<lambda>x. x\<lparr>http_writes := http_writes x @ [(msg, ka)]\<rparr>) s1)))"

definition http_on_write :: "sess \<Rightarrow> error_code \<Rightarrow> bool \<Rightarrow> system \<Rightarrow> system" where
  "http_on_write h ec ka s =
     (if ec \<noteq> Success then http_session_fail ec ''write'' s
      else if \<not> ka then set_session h (\<lambda>x. x\<lparr>send_shut := True\<rparr>) s
      else do_read h s)"

text \<open>
  The session lives as long as an operation with a shared pointer to it is outstanding; its
  destructor has no code of its own.
\<close>

definition http_release :: "sess \<Rightarrow> system \<Rightarrow> system" where
  "http_release h s = (case sessions s h of
       None \<Rightarrow> s
     | Some x \<Rightarrow> if http_reads x = 0 \<and> http_writes x = []
                 then s\<lparr>sessions := (sessions s)(h := None), gone := gone s @ [(h, x)]\<rparr> else s)"

section \<open>Projections\<close>

lemma set_session_simps [world_simps]:
  "sessions (set_session h f s) = (sessions s)(h := map_option f (sessions s h))"
  "chat (set_session h f s) = chat s" "next_sess (set_session h f s) = next_sess s"
  "listening (set_session h f s) = listening s"
  "listener_accepts (set_session h f s) = listener_accepts s"
  "accept_exec (set_session h f s) = accept_exec s" "next_strand (set_session h f s) = next_strand s"
  "conn_exec (set_session h f s) = conn_exec s"
  "cerr (set_session h f s) = cerr s" "stopped (set_session h f s) = stopped s" "gone (set_session h f s) = gone s"
  by (simp_all add: set_session_def)

lemma release_simps [world_simps]:
  "chat (parser_release h s) = chat s" "chat (release_socket h s) = chat s"
  "sessions (parser_release h s) = (sessions s)(h := map_option (\<lambda>x. x\<lparr>parser := Some Moved_From\<rparr>) (sessions s h))"
  "sessions (release_socket h s) = (sessions s)(h := map_option (\<lambda>x. x\<lparr>released := True\<rparr>) (sessions s h))"
  "next_sess (parser_release h s) = next_sess s" "next_sess (release_socket h s) = next_sess s"
  "listening (parser_release h s) = listening s" "listening (release_socket h s) = listening s"
  "listener_accepts (parser_release h s) = listener_accepts s"
  "listener_accepts (release_socket h s) = listener_accepts s"
  "stopped (parser_release h s) = stopped s" "stopped (release_socket h s) = stopped s"
  "gone (parser_release h s) = gone s" "gone (release_socket h s) = gone s"
  by (simp_all add: parser_release_def release_socket_def set_session_def)

lemma log_fail_simps [world_simps]:
  "sessions (log_fail ec w s) = sessions s" "chat (log_fail ec w s) = chat s"
  "next_sess (log_fail ec w s) = next_sess s" "listening (log_fail ec w s) = listening s"
  "listener_accepts (log_fail ec w s) = listener_accepts s" "accept_exec (log_fail ec w s) = accept_exec s"
  "next_strand (log_fail ec w s) = next_strand s" "conn_exec (log_fail ec w s) = conn_exec s" "stopped (log_fail ec w s) = stopped s" "gone (log_fail ec w s) = gone s"
  by (simp_all add: log_fail_def)

lemma do_read_simps [world_simps]:
  "chat (do_read h s) = chat s" "next_sess (do_read h s) = next_sess s"
  "listening (do_read h s) = listening s" "listener_accepts (do_read h s) = listener_accepts s"
  "stopped (do_read h s) = stopped s" "gone (do_read h s) = gone s"
  "sessions (do_read h s) = (sessions s)(h := map_option
     (\<lambda>x. x\<lparr>parser := Some Fresh, http_reads := Suc (http_reads x)\<rparr>) (sessions s h))"
  by (simp_all add: do_read_def world_simps)

lemma http_release_simps [world_simps]:
  "chat (http_release h s) = chat s" "next_sess (http_release h s) = next_sess s"
  "listening (http_release h s) = listening s"
  "listener_accepts (http_release h s) = listener_accepts s"
  "stopped (http_release h s) = stopped s" "cerr (http_release h s) = cerr s"
  by (simp_all add: http_release_def split: option.splits)

end
