(* ===== verification/Listener.thy ===== *)
theory Listener
  imports HttpSession
begin

text \<open>
  Class \<open>Listener\<close> (\<open>include/listener.cpp\<close>): opening the acceptor, and the accept loop that makes an
  \<open>HttpSession\<close> of every connection.
\<close>

definition listener_fail :: "error_code \<Rightarrow> string \<Rightarrow> system \<Rightarrow> system" where
  "listener_fail ec w s = log_fail ec w s"

text \<open>
  The constructor gets the outcome of each of its four system calls from the environment. It cannot
  report failure: it prints and returns, and \<open>main\<close> goes on to \<open>run\<close>.
\<close>

definition listener_new ::
  "error_code \<Rightarrow> error_code \<Rightarrow> error_code \<Rightarrow> error_code \<Rightarrow> system \<Rightarrow> system" where
  "listener_new open_ec option_ec bind_ec listen_ec s =
     (if open_ec \<noteq> Success then listener_fail open_ec ''open'' s
      else if option_ec \<noteq> Success then listener_fail option_ec ''set_option'' s
      else if bind_ec \<noteq> Success then listener_fail bind_ec ''bind'' s
      else if listen_ec \<noteq> Success then listener_fail listen_ec ''listen'' s
      else s\<lparr>listening := True\<rparr>)"

text \<open>\<open>net::make_strand(ioc_)\<close>: every call makes a strand of its own.\<close>

definition make_strand :: "system \<Rightarrow> executor \<times> system" where
  "make_strand s = (Strand (next_strand s), s\<lparr>next_strand := Suc (next_strand s)\<rparr>)"

text \<open>\<open>async_accept\<close> with an executor: the socket it accepts will be on it.\<close>

definition async_accept_on :: "executor \<Rightarrow> system \<Rightarrow> system" where
  "async_accept_on x s = s\<lparr>listener_accepts := Suc (listener_accepts s), accept_exec := x\<rparr>"

definition listener_run :: "system \<Rightarrow> system" where
  "listener_run s = (let (x, s1) = make_strand s in async_accept_on x s1)"

definition listener_accept :: "error_code \<Rightarrow> system \<Rightarrow> system" where
  "listener_accept ec s =
     (if ec \<noteq> Success then listener_fail ec ''accept'' s
      else (let (h, s1) = http_session_new (accept_exec s) s; s2 = http_session_run h s1;
                (x, s3) = make_strand s2
            in async_accept_on x s3))"

lemmas listener_defs = listener_run_def listener_accept_def make_strand_def async_accept_on_def

end
