(* ===== verification/Room.thy ===== *)
theory Room
  imports Prelude
begin

text \<open>
  The abstract specification of the chat (README.md, "The App" and "The Servers"): one room, whose
  members each have an inbox. Whoever joins, speaks or leaves is announced to everybody present; the
  first text in the inbox of a member is the announcement of its own arrival, and there is no
  history from before.
\<close>

record room =
  present :: "conn set"
  inbox :: "conn \<Rightarrow> string list"

definition empty_room :: room where
  "empty_room = \<lparr>present = {}, inbox = (\<lambda>_. [])\<rparr>"

datatype announcement =
    Join conn string
  | Say string
  | Whisper conn string
  | Leave conn string
  | Quiet

definition tell :: "conn set \<Rightarrow> string \<Rightarrow> room \<Rightarrow> room" where
  "tell A t r = r\<lparr>inbox := (\<lambda>c. if c \<in> A then inbox r c @ [t] else inbox r c)\<rparr>"

fun room_apply :: "announcement \<Rightarrow> room \<Rightarrow> room" where
  "room_apply (Join c t) r = tell (insert c (present r)) t (r\<lparr>present := insert c (present r)\<rparr>)"
| "room_apply (Say t) r = tell (present r) t r"
| "room_apply (Whisper c t) r = tell {c} t r"
| "room_apply (Leave c t) r = tell (present r - {c}) t (r\<lparr>present := present r - {c}\<rparr>)"
| "room_apply Quiet r = r"

text \<open>What a connection that is present hears of an announcement.\<close>

fun heard :: "conn \<Rightarrow> announcement \<Rightarrow> string list" where
  "heard c (Join d t) = [t]"
| "heard c (Say t) = [t]"
| "heard c (Whisper d t) = (if d = c then [t] else [])"
| "heard c (Leave d t) = (if d = c then [] else [t])"
| "heard c Quiet = []"

fun leaves :: "conn \<Rightarrow> announcement \<Rightarrow> bool" where
  "leaves c (Leave d t) \<longleftrightarrow> d = c"
| "leaves c _ \<longleftrightarrow> False"

fun joins :: "conn \<Rightarrow> announcement \<Rightarrow> bool" where
  "joins c (Join d t) \<longleftrightarrow> d = c"
| "joins c _ \<longleftrightarrow> False"

lemma tell_simps [simp]:
  "present (tell A t r) = present r"
  "inbox (tell A t r) c = (if c \<in> A then inbox r c @ [t] else inbox r c)"
  by (simp_all add: tell_def)

lemma room_apply_heard:
  "c \<in> present r \<Longrightarrow> inbox (room_apply a r) c = inbox r c @ heard c a"
  by (cases a) auto

lemma room_apply_present:
  "c \<in> present (room_apply a r) \<longleftrightarrow> joins c a \<or> (c \<in> present r \<and> \<not> leaves c a)"
  by (cases a) auto

text \<open>
  A member that stays hears exactly what is announced, in the order in which it is announced.
\<close>

lemma room_run_heard:
  assumes "c \<in> present r" and "\<forall>a \<in> set as. \<not> leaves c a"
  shows "inbox (fold room_apply as r) c = inbox r c @ concat (map (heard c) as)
    \<and> c \<in> present (fold room_apply as r)"
  using assms
proof (induction as arbitrary: r)
  case Nil
  then show ?case by simp
next
  case (Cons a as)
  then have "c \<in> present (room_apply a r)" by (simp add: room_apply_present)
  then show ?case using Cons by (simp add: room_apply_heard)
qed

text \<open>What everybody hears: the announcements without whispers.\<close>

fun public :: "announcement \<Rightarrow> string list" where
  "public (Join d t) = [t]"
| "public (Say t) = [t]"
| "public (Leave d t) = [t]"
| "public _ = []"

lemma heard_public: "\<not> leaves c a \<Longrightarrow> (\<And>t. a \<noteq> Whisper c t) \<Longrightarrow> heard c a = public a"
  by (cases a) auto

lemma concat_heard_public:
  "(\<forall>a \<in> set as. \<not> leaves c a \<and> (\<forall>t. a \<noteq> Whisper c t)) \<Longrightarrow>
     concat (map (heard c) as) = concat (map public as)"
  by (induction as) (auto simp: heard_public)

end
