(* ===== verification/Refinement.thy ===== *)
theory Refinement
  imports Handlers Room
begin

text \<open>
  The server implements the room: under the abstraction that forgets everything but the members and
  the texts sent to each connection, every step of the program is one announcement, and which one is
  determined by the event and the state it happens in.
\<close>

definition room_of :: "world \<Rightarrow> room" where
  "room_of w = \<lparr>present = set (clients w), inbox = sent w\<rparr>"

definition farewell :: "'j platform \<Rightarrow> conn \<Rightarrow> event \<Rightarrow> world \<Rightarrow> announcement" where
  "farewell P c e w =
     (if ends e w
      then (case system_text P Disconnect (random_uuid P (conn_index c)) (ticks w) of
              Inr t \<Rightarrow> Leave c t | Inl _ \<Rightarrow> Quiet)
      else Quiet)"

fun announce :: "'j platform \<Rightarrow> event \<Rightarrow> world \<Rightarrow> announcement" where
  "announce P Open w = Quiet"
| "announce P (Accepted c ec) w =
     (if ec = Success
      then (case system_text P Connect (random_uuid P (conn_index c)) (ticks w) of
              Inr t \<Rightarrow> Join c t | Inl _ \<Rightarrow> Quiet)
      else farewell P c (Accepted c ec) w)"
| "announce P (Received c ec s junk) w =
     (if ec = Success
      then (case message_of_string (json P) junk s of
              Inr m \<Rightarrow> (case serialize (json P) m of Inr t \<Rightarrow> Say t | Inl _ \<Rightarrow> Quiet)
            | Inl _ \<Rightarrow> (case system_text P Error ''bad message'' (ticks w) of
                Inr t \<Rightarrow> Whisper c t | Inl _ \<Rightarrow> Quiet))
      else farewell P c (Received c ec s junk) w)"
| "announce P (Written c ec) w = farewell P c (Written c ec) w"
| "announce P (Posted c) w = farewell P c (Posted c) w"

fun announcements :: "'j platform \<Rightarrow> event list \<Rightarrow> world \<Rightarrow> announcement list" where
  "announcements P [] w = []"
| "announcements P (e # es) w = announce P e w # announcements P es (exec P e w)"

lemma room_of_simps [simp]: "present (room_of w) = set (clients w)" "inbox (room_of w) = sent w"
  by (simp_all add: room_of_def)

lemma room_eqI: "present r = present s \<Longrightarrow> inbox r = inbox s \<Longrightarrow> r = (s :: room)"
  by (rule room.equality) simp_all

text \<open>The end of a handler that sent nothing.\<close>

lemma release_farewell:
  assumes P: "platform_ok P" and I: "world_inv P [c] v"
    and w: "sent v = sent w" "clients v = clients w" "ticks v = ticks w"
    and e: "ops v c = no_ops \<longleftrightarrow> ends e w"
  shows "room_of (release P c v) = room_apply (farewell P c e w) (room_of w)"
proof (cases "ops v c = no_ops")
  case True
  obtain x where x: "heap v c = Some x" using invD(7) [OF I, of c] by fastforce
  have u: "uuid x = random_uuid P (conn_index c)" using invD(4) [OF I x] by (simp add: obj_inv_def)
  obtain t where t: "system_text P Disconnect (uuid x) (ticks v) = Inr t"
    and r: "release P c v = left c t v" by (rule release_last [OF P I True x])
  have "farewell P c e w = Leave c t"
    using t u w e True by (simp add: farewell_def)
  moreover have "distinct (clients w)" using invD(12) [OF I] w by simp
  ultimately show ?thesis
    using w by (auto intro!: room_eqI simp: r left_def world_simps)
next
  case False
  then have r: "release P c v = pop_stack c v" by (rule release_alive(1) [OF I])
  have "farewell P c e w = Quiet" using e False by (simp add: farewell_def)
  then show ?thesis using w by (simp add: room_of_def r world_simps)
qed

lemma announce_quiet: "quiet_event e c \<Longrightarrow> announce P e w = farewell P c e w"
  by (cases e) auto

lemma exec_announce:
  assumes P: "platform_ok P" and I: "world_inv P [] w" and e: "enabled e w"
  shows "room_of (exec P e w) = room_apply (announce P e w) (room_of w)"
  using P I e
proof (cases rule: exec_outcome)
  case opened
  then show ?thesis by (simp add: room_of_def world_simps)
next
  case (joined c t)
  have "set (clients (exec P e w)) = insert c (set (clients w))"
    unfolding joined(4)
    using clients_insert_set(1) [OF P, of "post_all (insert c (set (clients w))) t
        (tick (begun c (\<lambda>q. q\<lparr>accepts := accepts q - 1\<rparr>) w))" c] invD(12) [OF I]
    by (simp add: joined_def world_simps)
  moreover have "sent (exec P e w) =
      (\<lambda>d. if d \<in> insert c (set (clients w)) then sent w d @ [t] else sent w d)"
    unfolding joined(4) by (rule ext) (simp add: world_simps)
  ultimately show ?thesis using joined(1,3) by (auto intro!: room_eqI)
next
  case (said c s junk)
  have L: "json_laws (json P)" using P by (simp add: platform_ok_def)
  have b: "ascii ''bad message''" by (simp add: ascii_def)
  obtain t where t: "system_text P Error ''bad message'' (ticks w) = Inr t"
    using system_text_ok [OF P _ b, of Error] by (metis named.simps(5))
  have "\<exists>t. serialize (json P) m = Inr t" if "message_of_string (json P) junk s = Inr m" for m
    using codec.encode_decoded [OF L that] .
  then show ?thesis
    unfolding said(3) using said(1) t
    by (auto intro!: room_eqI simp: reply_def world_simps split: sum.splits)
next
  case (quiet c v)
  then have "sent v = sent w" "clients v = clients w" "ticks v = ticks w"
    by (auto simp: quiet_change_def)
  from release_farewell [OF P quiet(3) this quiet(5)] show ?thesis
    using quiet(1,2) by (simp add: announce_quiet)
qed

text \<open>So the chat implements the room, whose steps are arbitrary announcements.\<close>

definition room_moves :: "room \<Rightarrow> announcement \<Rightarrow> room \<Rightarrow> bool" where
  "room_moves r a r' \<longleftrightarrow> r' = room_apply a r"

interpretation room_of_chat: simulation "\<lambda>w. w = world0 \<and> platform_ok P" "step P"
  "\<lambda>w. platform_ok P \<and> world_inv P [] w" "\<lambda>r. r = empty_room" room_moves room_of
  for P :: "'j platform"
proof
  fix w e v
  show "w = world0 \<and> platform_ok P \<Longrightarrow> platform_ok P \<and> world_inv P [] w"
    by (simp add: inv_world0)
  show "w = world0 \<and> platform_ok P \<Longrightarrow> room_of w = empty_room"
    by (simp add: room_of_def empty_room_def world0_def)
  assume I: "platform_ok P \<and> world_inv P [] w" and st: "step P w e v"
  show "platform_ok P \<and> world_inv P [] v" using I st by (auto simp: step_iff exec_inv)
  show "room_of v = room_of w \<or> (\<exists>a. room_moves (room_of w) a (room_of v))"
    using I st exec_announce by (auto simp: step_iff room_moves_def)
qed

lemma run_announcements:
  assumes "platform_ok P" and "world_inv P [] w" and "run P es w = Some w'"
  shows "room_of w' = fold room_apply (announcements P es w) (room_of w)"
  using assms(2,3)
proof (induction es arbitrary: w)
  case Nil
  then show ?case by simp
next
  case (Cons e es)
  then have e: "enabled e w" and r: "run P es (exec P e w) = Some w'" by (auto split: if_splits)
  show ?case
    using Cons.IH [OF exec_inv [OF assms(1) Cons.prems(1) e] r] exec_announce [OF assms(1) Cons.prems(1) e]
    by simp
qed

end
