(* ===== verification/Program.thy ===== *)
theory Program
  imports Listener Refinement
begin

text \<open>
  The running process: the events of the io_context with one worker thread, each of which runs one
  completion handler of the listener, of an HTTP session or of a websocket connection to its end, or
  the signal handler that stops the context.
\<close>

datatype sys_event =
    Listener_Accepted error_code
  | Http_Read sess error_code http_request
  | Http_Written sess error_code
  | Ws event
  | Signal

fun sys_enabled :: "sys_event \<Rightarrow> system \<Rightarrow> bool" where
  "sys_enabled (Listener_Accepted ec) s \<longleftrightarrow>
     listener_accepts s > 0 \<and> (ec = Success \<longrightarrow> listening s)"
| "sys_enabled (Http_Read h ec req) s \<longleftrightarrow>
     (case sessions s h of None \<Rightarrow> False | Some x \<Rightarrow> http_reads x > 0)"
| "sys_enabled (Http_Written h ec) s \<longleftrightarrow>
     (case sessions s h of None \<Rightarrow> False | Some x \<Rightarrow> http_writes x \<noteq> [])"
| "sys_enabled (Ws e) s \<longleftrightarrow> e \<noteq> Open \<and> enabled e (chat s)"
| "sys_enabled Signal s \<longleftrightarrow> True"

text \<open>
  The completed operation is no longer outstanding when its handler runs. A read fills a fresh parser;
  one that is done already takes nothing in.
\<close>

definition http_read_done :: "sess \<Rightarrow> error_code \<Rightarrow> http_request \<Rightarrow> system \<Rightarrow> system" where
  "http_read_done h ec req s = set_session h (\<lambda>x. x\<lparr>http_reads := http_reads x - 1,
     parser := (if ec = Success \<and> parser x = Some Fresh then Some (Parsed req) else parser x)\<rparr>) s"

definition http_write_done :: "sess \<Rightarrow> system \<Rightarrow> system" where
  "http_write_done h s = set_session h (\<lambda>x. x\<lparr>http_writes := tl (http_writes x)\<rparr>) s"

text \<open>The handler of SIGINT and SIGTERM that \<open>main\<close> installs: \<open>ioc.stop()\<close>.\<close>

definition main_on_signal :: "system \<Rightarrow> system" where
  "main_on_signal s = s\<lparr>stopped := True\<rparr>"

declare main_on_signal_def [simp]

fun sys_exec :: "'j platform \<Rightarrow> sys_event \<Rightarrow> system \<Rightarrow> system" where
  "sys_exec P (Listener_Accepted ec) s =
     listener_accept ec (s\<lparr>listener_accepts := listener_accepts s - 1\<rparr>)"
| "sys_exec P (Http_Read h ec req) s =
     http_release h (http_handle P h ec (http_read_done h ec req s))"
| "sys_exec P (Http_Written h ec) s =
     (case sessions s h of
        None \<Rightarrow> s
      | Some x \<Rightarrow> http_release h (http_on_write h ec (snd (hd (http_writes x))) (http_write_done h s)))"
| "sys_exec P (Ws e) s = s\<lparr>chat := exec P e (chat s)\<rparr>"
| "sys_exec P Signal s = main_on_signal s"

inductive sys_step :: "'j platform \<Rightarrow> system \<Rightarrow> sys_event \<Rightarrow> system \<Rightarrow> bool" for P where
  sys_stepI: "\<not> stopped s \<Longrightarrow> crash (chat s) = None \<Longrightarrow> sys_enabled e s \<Longrightarrow>
     sys_step P s e (sys_exec P e s)"

inductive_cases sys_stepE: "sys_step P s e s'"
inductive_simps sys_step_iff: "sys_step P s e s'"

text \<open>The state when \<open>main\<close> calls \<open>ioc.run()\<close>, for given outcomes of the listener's system calls.\<close>

definition booted :: "error_code \<Rightarrow> error_code \<Rightarrow> error_code \<Rightarrow> error_code \<Rightarrow> system" where
  "booted o_ec s_ec b_ec l_ec = listener_run (listener_new o_ec s_ec b_ec l_ec
     \<lparr>chat = world0, sessions = (\<lambda>_. None), next_sess = 0, listening = False,
      listener_accepts = 0, accept_exec = Io_Context, next_strand = 0, conn_exec = (\<lambda>_. Io_Context),
      cerr = [], stopped = False, gone = []\<rparr>)"

definition boot_state :: "system \<Rightarrow> bool" where
  "boot_state s \<longleftrightarrow> (\<exists>o_ec s_ec b_ec l_ec. s = booted o_ec s_ec b_ec l_ec)"

abbreviation sys_reachable :: "'j platform \<Rightarrow> system \<Rightarrow> bool" where
  "sys_reachable P s \<equiv> reach boot_state (sys_step P) s"

fun sys_run :: "'j platform \<Rightarrow> sys_event list \<Rightarrow> system \<Rightarrow> system option" where
  "sys_run P [] s = Some s"
| "sys_run P (e # es) s =
     (if \<not> stopped s \<and> crash (chat s) = None \<and> sys_enabled e s
      then sys_run P es (sys_exec P e s) else None)"

lemma sys_run_reachable: "sys_run P es s = Some s' \<Longrightarrow> sys_reachable P s \<Longrightarrow> sys_reachable P s'"
proof (induction es arbitrary: s)
  case Nil
  then show ?case by simp
next
  case (Cons e es)
  then have "sys_step P s e (sys_exec P e s)" by (simp add: sys_step_iff split: if_splits)
  then have "sys_reachable P (sys_exec P e s)" using Cons.prems(2) reach_step by fastforce
  then show ?case using Cons by (simp split: if_splits)
qed

text \<open>A run of the chat is a run of the process.\<close>

lemma sys_run_ws:
  "\<not> stopped s \<Longrightarrow> Open \<notin> set es \<Longrightarrow>
     sys_run P (map Ws es) s = map_option (\<lambda>w. s\<lparr>chat := w\<rparr>) (run P es (chat s))"
  by (induction es arbitrary: s) auto

lemma sys_run_append: "sys_run P (es @ fs) s = Option.bind (sys_run P es s) (sys_run P fs)"
  by (induction es arbitrary: s) auto

section \<open>The chat inside the process\<close>

text \<open>What the operations of listener and sessions do to the chat.\<close>

lemma open_conn_exec: "open_conn P w = exec P Open w"
  by (simp add: exec.simps)

lemma listener_accept_chat [world_simps]: "chat (listener_accept ec s) = chat s"
  by (simp add: listener_defs listener_fail_def http_session_new_def http_session_run_def
      Let_def world_simps)

lemma parsed_read_done:
  "map_option parser (sessions s h) = Some (Some Fresh) \<Longrightarrow>
     parsed h (http_read_done h Success req s) = Some req"
  by (auto simp: parsed_def http_read_done_def world_simps)

lemma http_on_write_chat [world_simps]: "chat (http_on_write h ec ka s) = chat s"
  by (simp add: http_on_write_def http_session_fail_def world_simps)

lemma http_done_chat [world_simps]:
  "chat (http_read_done h ec req s) = chat s" "chat (http_write_done h s) = chat s"
  by (simp_all add: http_read_done_def http_write_done_def world_simps)

lemma booted_chat [world_simps]: "chat (booted o_ec s_ec b_ec l_ec) = world0"
  by (simp add: booted_def listener_defs listener_new_def listener_fail_def world_simps)

end
