(* ===== verification/Delivery.thy ===== *)
theory Delivery
  imports Handlers "HOL-Library.Sublist"
begin

text \<open>
  What becomes of a text after it was sent to a connection: the histories only grow, what reached a
  socket is a prefix of what was sent to it, a connection whose write failed never writes again, and
  one that did not can always be drained by completing its own operations.
\<close>

section \<open>What the end of a handler leaves alone\<close>

lemma release_cases:
  assumes P: "platform_ok P" and I: "world_inv P [c] v"
  obtains (alive) "release P c v = pop_stack c v" and "ops v c \<noteq> no_ops"
  | (gone) t where "release P c v = left c t v" and "ops v c = no_ops"
proof (cases "ops v c = no_ops")
  case True
  obtain x where x: "heap v c = Some x" using invD(7) [OF I, of c] by fastforce
  show thesis by (rule release_last [OF P I True x]) (use gone True in simp)
next
  case False
  then show thesis using alive release_alive(1) [OF I] by simp
qed

lemma release_frame:
  assumes P: "platform_ok P" and I: "world_inv P [c] v"
  shows "next_conn (release P c v) = next_conn v" and "wire (release P c v) = wire v"
    and "\<exists>ts. sent (release P c v) d = sent v d @ ts"
    and "d \<noteq> c \<Longrightarrow> heap (release P c v) d = heap v d"
    and "heap (release P c v) c = Some y \<Longrightarrow> heap v c = Some y \<and> release P c v = pop_stack c v"
    and "writes (ops (release P c v) d) = writes (ops v d)"
    and "reads (ops (release P c v) d) = reads (ops v d)"
    and "accepts (ops (release P c v) d) = accepts (ops v d)"
  by (cases rule: release_cases [OF P I]; auto simp: left_def world_simps)+

section \<open>The histories\<close>

lemma exec_sent:
  assumes P: "platform_ok P" and I: "world_inv P [] w" and e: "enabled e w"
  shows "\<exists>ts. sent (exec P e w) d = sent w d @ ts"
  using P I e
proof (cases rule: exec_outcome)
  case opened
  then show ?thesis by (simp add: world_simps)
next
  case (joined c t)
  then show ?thesis by (simp add: world_simps)
next
  case (said c s junk)
  show ?thesis unfolding said(3) by (auto simp: reply_def world_simps split: sum.splits)
next
  case (quiet c v)
  then show ?thesis using release_frame(3) [OF P quiet(3), of d] by (auto simp: quiet_change_def)
qed

definition wire_prefix :: "world \<Rightarrow> bool" where
  "wire_prefix w \<longleftrightarrow> (\<forall>c. prefix (wire w c) (sent w c))"

lemma exec_wire_prefix:
  assumes P: "platform_ok P" and I: "world_inv P [] w" and e: "enabled e w" and p: "wire_prefix w"
  shows "wire_prefix (exec P e w)"
proof -
  have grow: "prefix (wire (exec P e w) d) (sent (exec P e w) d)"
    if "wire (exec P e w) d = wire w d" for d
    using exec_sent [OF P I e, of d] p that by (auto simp: wire_prefix_def prefix_def) (metis append_assoc)
  show ?thesis
    using P I e
  proof (cases rule: exec_outcome)
    case opened
    then show ?thesis using grow by (simp add: wire_prefix_def world_simps)
  next
    case (joined c t)
    then show ?thesis using grow by (simp add: wire_prefix_def world_simps)
  next
    case (said c s junk)
    then show ?thesis using grow by (simp add: wire_prefix_def world_simps)
  next
    case (quiet c v)
    note fr = release_frame [OF P quiet(3)]
    have "prefix (wire (exec P e w) d) (sent (exec P e w) d)" for d
    proof (cases "d = c")
      case True
      obtain x where "heap v c = Some x" using quiet(4) by (auto simp: quiet_change_def)
      from invD(4) [OF quiet(3) this] have "prefix (wire v c) (sent v c)"
        by (simp add: obj_inv_def outbox_inv_def)
      then show ?thesis using fr(2) fr(3) [of c] quiet(2) True by (auto simp: prefix_def)
    next
      case False
      then have "wire (exec P e w) d = wire w d"
        using quiet(2,4) fr(2) by (auto simp: quiet_change_def)
      then show ?thesis by (rule grow)
    qed
    then show ?thesis by (simp add: wire_prefix_def)
  qed
qed

interpretation wires: invariant_system "\<lambda>w. w = world0" "step P"
  "\<lambda>w. platform_ok P \<longrightarrow> world_inv P [] w \<and> wire_prefix w" for P :: "'j platform"
proof
  fix s :: world
  show "s = world0 \<Longrightarrow> platform_ok P \<longrightarrow> world_inv P [] s \<and> wire_prefix s"
    by (simp add: inv_world0) (simp add: wire_prefix_def world0_def)
  fix e t
  show "platform_ok P \<longrightarrow> world_inv P [] s \<and> wire_prefix s \<Longrightarrow> step P s e t \<Longrightarrow>
      platform_ok P \<longrightarrow> world_inv P [] t \<and> wire_prefix t"
    by (auto simp: step_iff exec_inv exec_wire_prefix)
qed

section \<open>A connection that cannot write any more\<close>

text \<open>
  \<open>frozen c w\<close>: \<open>c\<close> is gone, or its queue is not empty and no write is outstanding, which only the end
  of a write would change.
\<close>

definition frozen :: "conn \<Rightarrow> world \<Rightarrow> bool" where
  "frozen c w \<longleftrightarrow> (case heap w c of
       None \<Rightarrow> conn_index c < next_conn w
     | Some x \<Rightarrow> stalled x (ops w c))"

lemma exec_frozen:
  assumes P: "platform_ok P" and I: "world_inv P [] w" and e: "enabled e w" and f: "frozen c w"
  shows "frozen c (exec P e w)" and "wire (exec P e w) c = wire w c"
proof -
  have new: "c \<noteq> Conn (next_conn w)"
    using f invD(8) [OF I, of "next_conn w"] by (auto simp: frozen_def)
  have "frozen c (exec P e w) \<and> wire (exec P e w) c = wire w c"
    using P I e
  proof (cases rule: exec_outcome)
    case opened
    then show ?thesis using f new by (auto simp: frozen_def world_simps split: option.splits)
  next
    case (joined d t)
    then show ?thesis using f by (auto simp: frozen_def stalled_def world_simps split: option.splits)
  next
    case (said d s junk)
    then show ?thesis using f
      by (auto simp: frozen_def stalled_def world_simps split: option.splits if_splits)
  next
    case (quiet d v)
    note fr = release_frame [OF P quiet(3)]
    show ?thesis
    proof (cases "d = c")
      case True
      obtain x x' q' u where x: "heap w c = Some x" and v: "heap v c = Some x'" "ops v c = q'"
        "wire v c = u" "next_conn v = next_conn w"
        and s: "stalled x (ops w c) \<longrightarrow> stalled x' q' \<and> u = wire w c"
        using quiet(4) True by (auto simp: quiet_change_def)
      have st: "stalled x' q'" "u = wire w c" using f x s by (auto simp: frozen_def)
      have "conn_index c < next_conn w"
        using x invD(8) [OF I, of "conn_index c"] by (cases c) (auto simp: not_less [symmetric])
      then show ?thesis
        using st v fr(1,2) fr(5) fr(6) [of c] quiet(2) True
        by (auto simp: frozen_def stalled_def split: option.splits)
    next
      case False
      then have "heap v c = heap w c" "ops v c = ops w c" "wire v c = wire w c"
        "next_conn v = next_conn w" using quiet(4) by (auto simp: quiet_change_def)
      then show ?thesis
        using f fr(1,2) fr(4) [of c] fr(6) [of c] quiet(2) False
        by (auto simp: frozen_def stalled_def split: option.splits)
    qed
  qed
  then show "frozen c (exec P e w)" and "wire (exec P e w) c = wire w c" by blast+
qed

lemma run_inv:
  assumes "platform_ok P"
  shows "world_inv P [] w \<Longrightarrow> run P es w = Some w' \<Longrightarrow> world_inv P [] w'"
proof (induction es arbitrary: w)
  case Nil
  then show ?case by simp
next
  case (Cons e es)
  then have "enabled e w" and "run P es (exec P e w) = Some w'" by (auto split: if_splits)
  then show ?case using Cons.IH exec_inv [OF assms Cons.prems(1)] by blast
qed

lemma run_frozen:
  assumes "platform_ok P"
  shows "world_inv P [] w \<Longrightarrow> run P es w = Some w' \<Longrightarrow> frozen c w \<Longrightarrow>
    frozen c w' \<and> wire w' c = wire w c"
proof (induction es arbitrary: w)
  case Nil
  then show ?case by simp
next
  case (Cons e es)
  then have e: "enabled e w" and r: "run P es (exec P e w) = Some w'" by (auto split: if_splits)
  note f = exec_frozen [OF assms Cons.prems(1) e Cons.prems(3)]
  show ?case using Cons.IH [OF exec_inv [OF assms Cons.prems(1) e] r f(1)] f(2) by simp
qed

section \<open>Draining\<close>

lemma exec_Posted_alive:
  assumes P: "platform_ok P" and I: "world_inv P [] w" and x: "heap w c = Some x"
    and p: "posts (ops w c) = t # ps" and r: "reads (ops w c) = 1"
  shows "exec P (Posted c) w = queued c t ps x w"
proof -
  note B = exec_Posted [OF P I x p]
  have "ops (push_stack c (queued c t ps x w)) c \<noteq> no_ops"
    using r by (simp add: world_simps no_ops_iff)
  from release_alive(1) [OF B(2) this] show ?thesis
    unfolding B(1) by (simp add: push_stack_def pop_stack_def)
qed

lemma exec_Written_alive:
  assumes P: "platform_ok P" and I: "world_inv P [] w" and x: "heap w c = Some x"
    and q: "writes (ops w c) = [t]" "queue x = t # ts" and r: "reads (ops w c) = 1"
  shows "exec P (Written c Success) w = written c t ts w"
proof -
  note B = exec_Written_ok [OF P I x q]
  have "ops (push_stack c (written c t ts w)) c \<noteq> no_ops"
    using r by (simp add: world_simps no_ops_iff)
  from release_alive(1) [OF B(2) this] show ?thesis
    unfolding B(1) by (simp add: push_stack_def pop_stack_def)
qed

lemma drain_posts:
  assumes P: "platform_ok P"
  shows "world_inv P [] w \<Longrightarrow> heap w c = Some x \<Longrightarrow> posts (ops w c) = ts \<Longrightarrow> reads (ops w c) = 1 \<Longrightarrow>
    \<not> stalled x (ops w c) \<Longrightarrow>
    \<exists>w' x'. run P (replicate (length ts) (Posted c)) w = Some w' \<and> heap w' c = Some x' \<and>
      queue x' = queue x @ ts \<and> posts (ops w' c) = [] \<and> reads (ops w' c) = 1 \<and>
      \<not> stalled x' (ops w' c) \<and> sent w' = sent w"
proof (induction ts arbitrary: w x)
  case Nil
  then show ?case by simp
next
  case (Cons t ts)
  let ?w = "queued c t ts x w"
  have E: "exec P (Posted c) w = ?w" by (rule exec_Posted_alive [OF P Cons.prems(1-4)])
  have e: "enabled (Posted c) w" using Cons.prems(3) by simp
  have "world_inv P [] ?w" using exec_inv [OF P Cons.prems(1) e] E by simp
  moreover have "heap ?w c = Some (x\<lparr>queue := queue x @ [t]\<rparr>)" "posts (ops ?w c) = ts"
    "reads (ops ?w c) = 1" "sent ?w = sent w" using Cons.prems(4) by (simp_all add: world_simps)
  moreover have "\<not> stalled (x\<lparr>queue := queue x @ [t]\<rparr>) (ops ?w c)"
    using Cons.prems(5) by (auto simp: stalled_def world_simps)
  ultimately obtain w' x' where "run P (replicate (length ts) (Posted c)) ?w = Some w'"
    "heap w' c = Some x'" "queue x' = (queue x @ [t]) @ ts" "posts (ops w' c) = []"
    "reads (ops w' c) = 1" "\<not> stalled x' (ops w' c)" "sent w' = sent w"
    using Cons.IH by fastforce
  then show ?case using E e invD(1) [OF Cons.prems(1)] by auto
qed

lemma drain_queue:
  assumes P: "platform_ok P"
  shows "world_inv P [] w \<Longrightarrow> heap w c = Some x \<Longrightarrow> queue x = ts \<Longrightarrow> reads (ops w c) = 1 \<Longrightarrow>
    \<not> stalled x (ops w c) \<Longrightarrow>
    \<exists>w' x'. run P (replicate (length ts) (Written c Success)) w = Some w' \<and> heap w' c = Some x' \<and>
      queue x' = [] \<and> posts (ops w' c) = posts (ops w c) \<and> sent w' = sent w"
proof (induction ts arbitrary: w x)
  case Nil
  then show ?case by simp
next
  case (Cons t ts)
  have n: "writes (ops w c) \<noteq> []" using Cons.prems(3,5) by (simp add: stalled_def)
  then have q: "writes (ops w c) = [t]"
    using pending_write [OF Cons.prems(1) n] Cons.prems(2,3) by fastforce
  let ?w = "written c t ts w"
  have E: "exec P (Written c Success) w = ?w"
    by (rule exec_Written_alive [OF P Cons.prems(1,2) q Cons.prems(3,4)])
  have e: "enabled (Written c Success) w" using n by simp
  have "world_inv P [] ?w" using exec_inv [OF P Cons.prems(1) e] E by simp
  moreover have "heap ?w c = Some (x\<lparr>queue := ts\<rparr>)" "posts (ops ?w c) = posts (ops w c)"
    "reads (ops ?w c) = 1" "sent ?w = sent w" using Cons.prems(2,4) by (simp_all add: world_simps)
  moreover have "\<not> stalled (x\<lparr>queue := ts\<rparr>) (ops ?w c)"
    by (auto simp: stalled_def world_simps split: list.splits)
  ultimately obtain w' x' where "run P (replicate (length ts) (Written c Success)) ?w = Some w'"
    "heap w' c = Some x'" "queue x' = []" "posts (ops w' c) = posts (ops w c)" "sent w' = sent w"
    using Cons.IH [of ?w "x\<lparr>queue := ts\<rparr>"] by auto
  then show ?case using E e invD(1) [OF Cons.prems(1)] by auto
qed

text \<open>The schedule that empties the outbox of \<open>c\<close>: first its posted calls, then its writes.\<close>

definition drain :: "conn \<Rightarrow> wsconn \<Rightarrow> conn_ops \<Rightarrow> event list" where
  "drain c x q = replicate (length (posts q)) (Posted c) @
     replicate (length (queue x) + length (posts q)) (Written c Success)"

lemma drain_run:
  assumes P: "platform_ok P" and I: "world_inv P [] w" and x: "heap w c = Some x"
    and r: "reads (ops w c) = 1" and s: "\<not> stalled x (ops w c)"
  shows "\<exists>w'. run P (drain c x (ops w c)) w = Some w' \<and> wire w' c = sent w c \<and>
    sent w' c = sent w c \<and> heap w' c \<noteq> None"
proof -
  obtain v y where v: "run P (replicate (length (posts (ops w c))) (Posted c)) w = Some v"
    "heap v c = Some y" "queue y = queue x @ posts (ops w c)" "posts (ops v c) = []"
    "reads (ops v c) = 1" "\<not> stalled y (ops v c)" "sent v = sent w"
    using drain_posts [OF P I x refl r s] by blast
  have V: "world_inv P [] v" by (rule run_inv [OF P I v(1)])
  obtain w' x' where w': "run P (replicate (length (queue y)) (Written c Success)) v = Some w'"
    "heap w' c = Some x'" "queue x' = []" "posts (ops w' c) = []" "sent w' = sent w"
    using drain_queue [OF P V v(2) refl v(5,6)] v(4,7) by auto
  have W: "world_inv P [] w'" by (rule run_inv [OF P V w'(1)])
  have "wire w' c = sent w' c"
    using invD(4) [OF W w'(2)] w'(3,4) by (simp add: obj_inv_def outbox_inv_def)
  then show ?thesis using v(1,3) w'(1,2,5) by (simp add: drain_def run_append)
qed

end
