(* ===== verification/Sessions.thy ===== *)
theory Sessions
  imports Program Delivery
begin

text \<open>
  The invariant of the HTTP side of the process: every session has exactly one operation outstanding
  and knows what it is for, every websocket connection came out of exactly one session, and the
  listener accepts one connection at a time and none after a failure.
\<close>

section \<open>One session\<close>

definition session_ok :: "http_session \<Rightarrow> bool" where
  "session_ok x \<longleftrightarrow> \<not> send_shut x \<and> \<not> released x \<and>
     (http_reads x = 1 \<and> http_writes x = [] \<and> parser x = Some Fresh \<or>
      http_reads x = 0 \<and> (\<exists>req. http_writes x = [(handle_request req, keep_alive req)] \<and>
        parser x = Some Moved_From \<and> \<not> is_upgrade req))"

text \<open>How a session ended: handed over, shut down, or failed; never with work outstanding.\<close>

definition ended_ok :: "http_session \<Rightarrow> bool" where
  "ended_ok x \<longleftrightarrow> http_reads x = 0 \<and> http_writes x = [] \<and> \<not> (released x \<and> send_shut x)"

lemma res_keep_alive_handle [simp]: "res_keep_alive (handle_request req) = keep_alive req"
  by (simp add: handle_request_def)

section \<open>The steps of a session\<close>

definition fresh_session :: "executor \<Rightarrow> http_session" where
  "fresh_session k = \<lparr>parser = Some Fresh, socket_exec = k, http_reads = 1, http_writes = [],
     send_shut = False, released = False\<rparr>"

lemma fresh_session_simps [simp]:
  "http_writes (fresh_session k) = []" "http_reads (fresh_session k) = 1" "parser (fresh_session k) = Some Fresh"
  "socket_exec (fresh_session k) = k" "\<not> send_shut (fresh_session k)" "\<not> released (fresh_session k)"
  by (simp_all add: fresh_session_def)

definition gone_as :: "sess \<Rightarrow> http_session \<Rightarrow> system \<Rightarrow> system" where
  "gone_as h x s = s\<lparr>sessions := (sessions s)(h := None), gone := gone s @ [(h, x)]\<rparr>"

definition put_session :: "sess \<Rightarrow> http_session \<Rightarrow> system \<Rightarrow> system" where
  "put_session h x s = s\<lparr>sessions := (sessions s)(h \<mapsto> x)\<rparr>"

lemma session_changes [world_simps]:
  "sessions (gone_as h x s) = (sessions s)(h := None)" "gone (gone_as h x s) = gone s @ [(h, x)]"
  "sessions (put_session h x s) = (sessions s)(h \<mapsto> x)" "gone (put_session h x s) = gone s"
  "chat (gone_as h x s) = chat s" "chat (put_session h x s) = chat s"
  "next_sess (gone_as h x s) = next_sess s" "next_sess (put_session h x s) = next_sess s"
  "listening (gone_as h x s) = listening s" "listening (put_session h x s) = listening s"
  "listener_accepts (gone_as h x s) = listener_accepts s"
  "listener_accepts (put_session h x s) = listener_accepts s"
  "cerr (gone_as h x s) = cerr s" "cerr (put_session h x s) = cerr s"
  "next_strand (gone_as h x s) = next_strand s" "next_strand (put_session h x s) = next_strand s"
  "accept_exec (gone_as h x s) = accept_exec s" "accept_exec (put_session h x s) = accept_exec s"
  "conn_exec (gone_as h x s) = conn_exec s" "conn_exec (put_session h x s) = conn_exec s"
  "stopped (gone_as h x s) = stopped s" "stopped (put_session h x s) = stopped s"
  by (simp_all add: gone_as_def put_session_def)

lemma reading:
  assumes "session_ok x" and "http_reads x > 0"
  shows "x = fresh_session (socket_exec x)"
  using assms by (cases x) (auto simp: session_ok_def fresh_session_def)

lemma writing:
  assumes "session_ok x" and "http_writes x \<noteq> []"
  obtains req where "x = (fresh_session (socket_exec x))\<lparr>parser := Some Moved_From, http_reads := 0,
    http_writes := [(handle_request req, keep_alive req)]\<rparr>" and "\<not> is_upgrade req"
  using assms by (cases x) (auto simp: session_ok_def fresh_session_def)

text \<open>What a completed read leads to, by outcome.\<close>

lemma sys_exec_read:
  assumes x: "sessions s h = Some (fresh_session k)"
  shows "sys_exec P (Http_Read h Success req) s =
      (if is_upgrade req
       then (gone_as h ((fresh_session k)\<lparr>parser := Some Moved_From, http_reads := 0, released := True\<rparr>) s)
              \<lparr>chat := exec P Open (chat s), conn_exec := (conn_exec s)(Conn (next_conn (chat s)) := k)\<rparr>
       else put_session h ((fresh_session k)\<lparr>parser := Some Moved_From, http_reads := 0,
              http_writes := [(handle_request req, keep_alive req)]\<rparr>) s)"
    and "sys_exec P (Http_Read h End_Of_Stream req) s =
      gone_as h ((fresh_session k)\<lparr>http_reads := 0, send_shut := True\<rparr>) s"
    and "ec \<noteq> Success \<Longrightarrow> ec \<noteq> End_Of_Stream \<Longrightarrow> sys_exec P (Http_Read h ec req) s =
      gone_as h ((fresh_session k)\<lparr>http_reads := 0\<rparr>) (log_fail ec ''read'' s)"
  using x
  by (auto simp: http_handle_def http_read_done_def parsed_def http_release_def set_session_def parser_release_def release_socket_def
      fresh_session_def gone_as_def put_session_def Let_def open_conn_exec http_session_fail_def
      log_fail_def)

lemma sys_exec_written:
  assumes x: "sessions s h = Some ((fresh_session k)\<lparr>parser := Some Moved_From, http_reads := 0,
    http_writes := [(r, ka)]\<rparr>)"
  shows "sys_exec P (Http_Written h Success) s =
      (if ka then put_session h (fresh_session k) s
       else gone_as h ((fresh_session k)\<lparr>parser := Some Moved_From, http_reads := 0, send_shut := True\<rparr>) s)"
    and "ec \<noteq> Success \<Longrightarrow> sys_exec P (Http_Written h ec) s =
      gone_as h ((fresh_session k)\<lparr>parser := Some Moved_From, http_reads := 0\<rparr>) (log_fail ec ''write'' s)"
  using x
  by (auto simp: http_on_write_def http_write_done_def http_release_def set_session_def do_read_def
      fresh_session_def gone_as_def put_session_def http_session_fail_def log_fail_def)

lemma sys_exec_accepted:
  "sys_exec P (Listener_Accepted Success) s =
     put_session (Sess (next_sess s)) (fresh_session (accept_exec s))
       (s\<lparr>next_sess := Suc (next_sess s), listener_accepts := Suc (listener_accepts s - 1),
          accept_exec := Strand (next_strand s), next_strand := Suc (next_strand s)\<rparr>)"
  "ec \<noteq> Success \<Longrightarrow> sys_exec P (Listener_Accepted ec) s =
     log_fail ec ''accept'' (s\<lparr>listener_accepts := listener_accepts s - 1\<rparr>)"
  by (auto simp: listener_defs http_session_new_def http_session_run_def do_read_def
      set_session_def put_session_def fresh_session_def Let_def listener_fail_def)

text \<open>From here on these closed forms replace the definition of \<open>sys_exec\<close> for the HTTP side.\<close>

declare sys_exec.simps(1-3) [simp del]

section \<open>The invariant\<close>

definition handed_over :: "system \<Rightarrow> nat" where
  "handed_over s = length (filter (\<lambda>(h, x). released x) (gone s))"

definition http_inv :: "system \<Rightarrow> bool" where
  "http_inv s \<longleftrightarrow>
     (\<forall>h x. sessions s h = Some x \<longrightarrow> session_ok x) \<and>
     (\<forall>n \<ge> next_sess s. sessions s (Sess n) = None) \<and>
     (\<forall>(h, x) \<in> set (gone s). ended_ok x) \<and>
     listener_accepts s \<le> 1 \<and> (listening s \<or> next_sess s = 0)"

lemma http_invD:
  assumes "http_inv s"
  shows "sessions s h = Some x \<Longrightarrow> session_ok x"
    and "next_sess s \<le> n \<Longrightarrow> sessions s (Sess n) = None"
    and "(h, x) \<in> set (gone s) \<Longrightarrow> ended_ok x"
    and "listener_accepts s \<le> 1" and "listening s \<or> next_sess s = 0"
  using assms by (auto simp: http_inv_def)

lemma session_ok_fresh: "session_ok (fresh_session k)"
  by (simp add: session_ok_def fresh_session_def)

lemma http_inv_put: "http_inv s \<Longrightarrow> session_ok x \<Longrightarrow> sessions s h \<noteq> None \<Longrightarrow> http_inv (put_session h x s)"
  by (auto simp: http_inv_def world_simps)

lemma http_inv_gone: "http_inv s \<Longrightarrow> ended_ok x \<Longrightarrow> http_inv (gone_as h x s)"
  by (auto simp: http_inv_def world_simps)

lemma http_inv_log: "http_inv (log_fail ec w s) = http_inv s"
  by (simp add: http_inv_def world_simps)

lemma read_enabled:
  assumes "http_inv s" and "sys_enabled (Http_Read h ec req) s"
  obtains k where "sessions s h = Some (fresh_session k)"
  using assms reading http_invD(1) by (fastforce split: option.splits)

lemma write_enabled:
  assumes "http_inv s" and "sys_enabled (Http_Written h ec) s"
  obtains k req where "sessions s h = Some ((fresh_session k)\<lparr>parser := Some Moved_From, http_reads := 0,
    http_writes := [(handle_request req, keep_alive req)]\<rparr>)"
proof -
  obtain x where x: "sessions s h = Some x" and r: "http_writes x \<noteq> []"
    using assms(2) by (auto split: option.splits)
  show thesis by (rule writing [OF http_invD(1) [OF assms(1) x] r]) (metis that x)
qed

lemma accepted_http_inv:
  assumes I: "http_inv s" and e: "sys_enabled (Listener_Accepted ec) s"
  shows "http_inv (sys_exec P (Listener_Accepted ec) s)"
  using assms session_ok_fresh
  by (cases "ec = Success") (auto simp: sys_exec_accepted http_inv_def world_simps)

lemma read_http_inv:
  assumes I: "http_inv s" and e: "sys_enabled (Http_Read h ec req) s"
  shows "http_inv (sys_exec P (Http_Read h ec req) s)"
proof (cases "ec = Success")
  obtain k where f: "sessions s h = Some (fresh_session k)" by (rule read_enabled [OF I e])
  note ex = sys_exec_read [OF f, where P = P]
  {
    case True
    have "http_inv (gone_as h ((fresh_session k)\<lparr>parser := Some Moved_From, http_reads := 0, released := True\<rparr>) s)"
      by (rule http_inv_gone [OF I]) (simp add: ended_ok_def)
    moreover have "http_inv (put_session h ((fresh_session k)\<lparr>parser := Some Moved_From, http_reads := 0,
              http_writes := [(handle_request req, keep_alive req)]\<rparr>) s)" if "\<not> is_upgrade req"
      using that f by (intro http_inv_put [OF I]) (auto simp: session_ok_def)
    ultimately show ?thesis using True ex(1) by (auto simp: http_inv_def world_simps)
  next
    case False
    then show ?thesis
      using I ex(2,3)
      by (cases "ec = End_Of_Stream") (auto intro!: http_inv_gone simp: http_inv_log ended_ok_def)
  }
qed

lemma written_http_inv:
  assumes I: "http_inv s" and e: "sys_enabled (Http_Written h ec) s"
  shows "http_inv (sys_exec P (Http_Written h ec) s)"
proof -
  obtain k req where f: "sessions s h = Some ((fresh_session k)\<lparr>parser := Some Moved_From, http_reads := 0,
    http_writes := [(handle_request req, keep_alive req)]\<rparr>)" by (rule write_enabled [OF I e])
  show ?thesis
    using I sys_exec_written [OF f, where P = P] f
    by (cases "ec = Success")
       (auto intro!: http_inv_gone http_inv_put session_ok_fresh simp: http_inv_log ended_ok_def)
qed

lemma idle_http_inv:
  "http_inv s \<Longrightarrow> http_inv (sys_exec P (Ws f) s)" "http_inv s \<Longrightarrow> http_inv (sys_exec P Signal s)"
  by (simp_all add: http_inv_def)

lemma sys_exec_http_inv: "http_inv s \<Longrightarrow> sys_enabled e s \<Longrightarrow> http_inv (sys_exec P e s)"
  by (cases e) (blast intro: accepted_http_inv read_http_inv written_http_inv idle_http_inv)+

lemma booted_http_inv: "http_inv (booted o_ec s_ec b_ec l_ec)"
  by (simp add: booted_def listener_defs listener_new_def listener_fail_def http_inv_def log_fail_def)

interpretation web: invariant_system boot_state "sys_step P" http_inv for P :: "'j platform"
proof
  fix s e t
  show "boot_state s \<Longrightarrow> http_inv s" by (auto simp: boot_state_def booted_http_inv)
  show "http_inv s \<Longrightarrow> sys_step P s e t \<Longrightarrow> http_inv t"
    by (auto simp: sys_step_iff sys_exec_http_inv)
qed

section \<open>Sessions and connections\<close>

text \<open>Every step of the process is a step of the chat or leaves the chat alone.\<close>

lemma sys_exec_chat:
  assumes I: "http_inv s" and e: "sys_enabled e s"
  shows "chat (sys_exec P e s) = (case e of Ws f \<Rightarrow> exec P f (chat s)
    | Http_Read h ec req \<Rightarrow> if ec = Success \<and> is_upgrade req then exec P Open (chat s) else chat s
    | _ \<Rightarrow> chat s)"
proof (cases e)
  case (Listener_Accepted ec)
  then show ?thesis by (cases "ec = Success") (simp_all add: sys_exec_accepted world_simps)
next
  case (Http_Read h ec req)
  then obtain k where f: "sessions s h = Some (fresh_session k)" using read_enabled [OF I] e by metis
  consider "ec = Success" | "ec = End_Of_Stream" | "ec \<noteq> Success" "ec \<noteq> End_Of_Stream" by blast
  then show ?thesis
    by cases (simp_all add: Http_Read sys_exec_read [OF f] world_simps del: exec.simps)
next
  case (Http_Written h ec)
  then obtain k req where f: "sessions s h = Some ((fresh_session k)\<lparr>parser := Some Moved_From, http_reads := 0,
    http_writes := [(handle_request req, keep_alive req)]\<rparr>)" using write_enabled [OF I] e by metis
  show ?thesis
    by (cases "ec = Success") (simp_all add: Http_Written sys_exec_written [OF f] world_simps)
qed (simp_all del: exec.simps)

lemma sys_step_chat:
  assumes I: "http_inv s" and st: "sys_step P s e s'"
  shows "chat s' = chat s \<or> (\<exists>f. step P (chat s) f (chat s'))"
proof -
  from st have g: "crash (chat s) = None" "sys_enabled e s" and s': "s' = sys_exec P e s"
    by (auto elim: sys_stepE)
  have o: "step P (chat s) Open (exec P Open (chat s))" by (rule stepI) (simp_all add: g)
  have w: "step P (chat s) f (exec P f (chat s))" if "e = Ws f" for f using g that by (simp add: step_iff)
  show ?thesis
    unfolding s' sys_exec_chat [OF I g(2)] using o w by (cases e) (auto simp del: exec.simps)
qed

text \<open>Connections are only made by \<open>Open\<close>, one at a time.\<close>

lemma exec_next_conn:
  assumes P: "platform_ok P" and I: "world_inv P [] w" and e: "enabled e w"
  shows "next_conn (exec P e w) = (if e = Open then Suc (next_conn w) else next_conn w)"
  using P I e
proof (cases rule: exec_outcome)
  case (quiet c v)
  then have "e \<noteq> Open" by (cases e) auto
  then show ?thesis
    using quiet release_frame(1) [OF P quiet(3)] by (auto simp: quiet_change_def)
qed (simp_all add: world_simps)

definition linked :: "system \<Rightarrow> bool" where
  "linked s \<longleftrightarrow> next_conn (chat s) = handed_over s"

lemma handed_over_simps [world_simps]:
  "handed_over (put_session h x s) = handed_over s" "handed_over (log_fail ec w s) = handed_over s"
  "handed_over (gone_as h x s) = (if released x then Suc (handed_over s) else handed_over s)"
  by (simp_all add: handed_over_def world_simps)

lemma sys_exec_linked:
  assumes P: "platform_ok P" and W: "world_inv P [] (chat s)" and I: "http_inv s"
    and e: "sys_enabled e s" and l: "linked s"
  shows "linked (sys_exec P e s)"
proof (cases e)
  case (Listener_Accepted ec)
  then show ?thesis
    using l by (cases "ec = Success") (simp_all add: sys_exec_accepted linked_def handed_over_def world_simps)
next
  case (Http_Read h ec req)
  then obtain k where f: "sessions s h = Some (fresh_session k)" using read_enabled [OF I] e by metis
  have c: "handed_over (t\<lparr>chat := w, conn_exec := g\<rparr>) = handed_over t" for t w g
    by (simp add: handed_over_def)
  note ex = sys_exec_read [OF f, where P = P]
  consider "ec = Success" | "ec = End_Of_Stream" | "ec \<noteq> Success" "ec \<noteq> End_Of_Stream" by blast
  then show ?thesis
  proof cases
    case 1
    then show ?thesis
      using l Http_Read ex(1) [of req] c exec_next_conn [OF P W, of Open]
      by (simp add: linked_def world_simps)
  next
    case 2
    then show ?thesis using l Http_Read ex(2) [of req] by (simp add: linked_def world_simps)
  next
    case 3
    then show ?thesis using l Http_Read ex(3) [of ec req] by (simp add: linked_def world_simps)
  qed
next
  case (Http_Written h ec)
  then obtain k req where f: "sessions s h = Some ((fresh_session k)\<lparr>parser := Some Moved_From, http_reads := 0,
    http_writes := [(handle_request req, keep_alive req)]\<rparr>)"
    using write_enabled [OF I] e by metis
  show ?thesis
    using l Http_Written sys_exec_written [OF f, where P = P]
    by (cases "ec = Success") (auto simp: linked_def world_simps)
next
  case (Ws f)
  then show ?thesis using l e exec_next_conn [OF P W, of f] by (simp add: linked_def handed_over_def)
next
  case Signal
  then show ?thesis using l by (simp add: linked_def handed_over_def)
qed

interpretation whole: invariant_system boot_state "sys_step P"
  "\<lambda>s. platform_ok P \<longrightarrow> world_inv P [] (chat s) \<and> http_inv s \<and> linked s" for P :: "'j platform"
proof
  fix s e t
  have "handed_over (booted o_ec s_ec b_ec l_ec) = 0" for o_ec s_ec b_ec l_ec
    by (simp add: handed_over_def booted_def listener_defs listener_new_def listener_fail_def log_fail_def)
  then have "linked (booted o_ec s_ec b_ec l_ec)" for o_ec s_ec b_ec l_ec
    by (simp add: linked_def world_simps world0_def)
  then show "boot_state s \<Longrightarrow> platform_ok P \<longrightarrow> world_inv P [] (chat s) \<and> http_inv s \<and> linked s"
    using inv_world0 booted_http_inv by (auto simp: boot_state_def world_simps)
  assume I: "platform_ok P \<longrightarrow> world_inv P [] (chat s) \<and> http_inv s \<and> linked s"
    and st: "sys_step P s e t"
  show "platform_ok P \<longrightarrow> world_inv P [] (chat t) \<and> http_inv t \<and> linked t"
  proof
    assume P: "platform_ok P"
    with I have W: "world_inv P [] (chat s)" and H: "http_inv s" and l: "linked s" by auto
    from st have e: "sys_enabled e s" and t: "t = sys_exec P e s" by (auto elim: sys_stepE)
    have "world_inv P [] (chat t)"
      using sys_step_chat [OF H st] W P by (auto simp: step_iff exec_inv)
    then show "world_inv P [] (chat t) \<and> http_inv t \<and> linked t"
      using sys_exec_http_inv [OF H e] sys_exec_linked [OF P W H e l] t by simp
  qed
qed

section \<open>The end of the listener\<close>

text \<open>After a failed accept nothing is ever accepted again.\<close>

lemma sys_exec_deaf:
  assumes "listener_accepts s = 0" and "sys_enabled e s"
  shows "listener_accepts (sys_exec P e s) = 0 \<and> next_sess (sys_exec P e s) = next_sess s"
proof (cases e)
  case (Http_Read h ec req)
  then show ?thesis
    using assms
    by (auto simp: sys_exec.simps http_handle_def http_read_done_def http_session_fail_def Let_def
        world_simps split: option.splits)
next
  case (Http_Written h ec)
  then show ?thesis
    using assms
    by (auto simp: sys_exec.simps http_on_write_def http_write_done_def http_session_fail_def
        world_simps split: option.splits)
qed (use assms in simp_all)

lemma sys_run_deaf:
  "sys_run P es s = Some s' \<Longrightarrow> listener_accepts s = 0 \<Longrightarrow>
     listener_accepts s' = 0 \<and> next_sess s' = next_sess s"
proof (induction es arbitrary: s)
  case Nil
  then show ?case by simp
next
  case (Cons e es)
  then have "sys_enabled e s" and "sys_run P es (sys_exec P e s) = Some s'" by (auto split: if_splits)
  then show ?case using Cons sys_exec_deaf [of s e P] by simp
qed

end
