(* ===== verification/Decimal.thy ===== *)
theory Decimal
  imports Prelude
begin

text \<open>
  Decimal digits as characters: writing a number and reading it back. Used by the model of
  \<open>std::stoul\<close> and by the reference JSON library.
\<close>

section \<open>Writing and reading\<close>

definition digit_char :: "nat \<Rightarrow> char" where
  "digit_char d = char_of (48 + d)"

fun nat_text :: "nat \<Rightarrow> string" where
  "nat_text n = (if n < 10 then [digit_char n] else nat_text (n div 10) @ [digit_char (n mod 10)])"

declare nat_text.simps [simp del]

definition is_digit :: "char \<Rightarrow> bool" where
  "is_digit c \<longleftrightarrow> 48 \<le> (of_char c :: nat) \<and> (of_char c :: nat) \<le> 57"

definition nat_value :: "string \<Rightarrow> nat" where
  "nat_value s = foldl (\<lambda>a c. 10 * a + (of_char c - 48)) 0 s"

lemma of_char_digit: "d < 10 \<Longrightarrow> (of_char (digit_char d) :: nat) = 48 + d"
  by (simp add: digit_char_def)

lemma nat_text_digits: "c \<in> set (nat_text n) \<Longrightarrow> is_digit c"
proof (induction n rule: nat_text.induct)
  case (1 n)
  then show ?case
    by (subst (asm) (2) nat_text.simps)
       (auto simp: is_digit_def of_char_digit split: if_splits)
qed

lemma nat_text_nonempty: "nat_text n \<noteq> []"
  by (subst nat_text.simps) simp

lemma nat_value_snoc: "nat_value (s @ [c]) = 10 * nat_value s + (of_char c - 48)"
  by (simp add: nat_value_def)

lemma nat_value_text: "nat_value (nat_text n) = n"
proof (induction n rule: nat_text.induct)
  case (1 n)
  show ?case
  proof (cases "n < 10")
    case True
    then show ?thesis
      by (subst nat_text.simps) (simp add: nat_value_def of_char_digit)
  next
    case False
    then have "nat_value (nat_text (n div 10)) = n div 10" by (rule "1.IH")
    with False show ?thesis
      by (subst nat_text.simps) (simp add: nat_value_snoc of_char_digit)
  qed
qed

lemma nat_text_Cons: obtains d ds where "nat_text n = d # ds" and "is_digit d"
  using nat_text_nonempty [of n] nat_text_digits [of _ n] by (cases "nat_text n") auto

lemma takeWhile_digits:
  assumes "\<forall>c r'. r = c # r' \<longrightarrow> \<not> is_digit c"
  shows "takeWhile is_digit (nat_text n @ r) = nat_text n"
    and "dropWhile is_digit (nat_text n @ r) = r"
proof -
  have "takeWhile is_digit r = []" "dropWhile is_digit r = r" using assms by (cases r; simp)+
  then show "takeWhile is_digit (nat_text n @ r) = nat_text n"
    and "dropWhile is_digit (nat_text n @ r) = r"
    using nat_text_digits by (simp_all add: takeWhile_append2 dropWhile_append2)
qed

end
