(* ===== verification/Json_Ref.thy ===== *)
theory Json_Ref
  imports Json_Lib Decimal
begin

text \<open>
  A concrete JSON library for flat objects of ASCII strings and integers that satisfies
  \<open>json_laws\<close>. It stands in for nlohmann's library wherever a witness has to run the program on a
  concrete input, and shows that the laws can hold. Members keep the order they are written in, as
  in \<open>nlohmann::ordered_json\<close>, and white space is not accepted.
\<close>

datatype jval = JStr string | JInt int | JObj "(string \<times> jval) list"

section \<open>Numbers\<close>

definition int_text :: "int \<Rightarrow> string" where
  "int_text i = (if i < 0 then CHR ''-'' # nat_text (nat (- i)) else nat_text (nat i))"

definition lex_nat :: "string \<Rightarrow> (nat \<times> string) option" where
  "lex_nat s = (let d = takeWhile is_digit s in
     if d = [] then None else Some (nat_value d, dropWhile is_digit s))"

definition lex_int :: "string \<Rightarrow> (int \<times> string) option" where
  "lex_int s = (case s of
       [] \<Rightarrow> None
     | c # r \<Rightarrow> if c = CHR ''-'' then map_option (\<lambda>(n, q). (- int n, q)) (lex_nat r)
               else map_option (\<lambda>(n, q). (int n, q)) (lex_nat s))"

lemma lex_nat_text:
  assumes "\<not> is_digit c"
  shows "lex_nat (nat_text n @ c # r) = Some (n, c # r)"
proof -
  have "takeWhile is_digit (nat_text n @ c # r) = nat_text n"
    "dropWhile is_digit (nat_text n @ c # r) = c # r"
    using assms takeWhile_digits [of "c # r"] by simp_all
  then show ?thesis by (simp add: lex_nat_def nat_text_nonempty nat_value_text)
qed

lemma lex_int_text:
  assumes "\<not> is_digit c"
  shows "lex_int (int_text i @ c # r) = Some (i, c # r)"
proof (cases "i < 0")
  case True
  then show ?thesis using lex_nat_text [OF assms, of "nat (- i)" r]
    by (simp add: lex_int_def int_text_def)
next
  case False
  obtain d ds where d: "nat_text (nat i) = d # ds" "is_digit d" by (rule nat_text_Cons)
  then have "d \<noteq> CHR ''-''" by (auto simp: is_digit_def)
  then show ?thesis using False d lex_nat_text [OF assms, of "nat i" r]
    by (simp add: lex_int_def int_text_def)
qed

section \<open>Strings\<close>

fun escape :: "string \<Rightarrow> string" where
  "escape [] = []"
| "escape (c # cs) =
     (if c = CHR 0x22 \<or> c = CHR 0x5C then CHR 0x5C # c # escape cs else c # escape cs)"

definition quoted :: "string \<Rightarrow> string" where
  "quoted s = CHR 0x22 # escape s @ [CHR 0x22]"

text \<open>Reads up to the closing quote.\<close>

fun unescape :: "string \<Rightarrow> (string \<times> string) option" where
  "unescape [] = None"
| "unescape (c # cs) =
     (if c = CHR 0x22 then Some ([], cs)
      else if c = CHR 0x5C
      then (case cs of
              [] \<Rightarrow> None
            | d # ds \<Rightarrow>
                if d = CHR 0x22 \<or> d = CHR 0x5C
                then map_option (\<lambda>(s, r). (d # s, r)) (unescape ds) else None)
      else map_option (\<lambda>(s, r). (c # s, r)) (unescape cs))"

lemma unescape_escape: "unescape (escape s @ CHR 0x22 # r) = Some (s, r)"
  by (induction s) auto

definition lex_string :: "string \<Rightarrow> (string \<times> string) option" where
  "lex_string s = (case s of [] \<Rightarrow> None | c # cs \<Rightarrow> if c = CHR 0x22 then unescape cs else None)"

lemma lex_string_quoted: "lex_string (quoted s @ r) = Some (s, r)"
  using unescape_escape [of s r] by (simp add: lex_string_def quoted_def)

section \<open>Flat objects\<close>

fun scalar_ok :: "jval \<Rightarrow> bool" where
  "scalar_ok (JStr s) = ascii s"
| "scalar_ok (JInt i) = True"
| "scalar_ok (JObj ms) = False"

fun scalar_text :: "jval \<Rightarrow> string" where
  "scalar_text (JStr s) = quoted s"
| "scalar_text (JInt i) = int_text i"
| "scalar_text (JObj ms) = []"

definition flat_ok :: "(string \<times> jval) list \<Rightarrow> bool" where
  "flat_ok ms \<longleftrightarrow> list_all (\<lambda>(k, v). ascii k \<and> scalar_ok v) ms"

fun pair_text :: "string \<times> jval \<Rightarrow> string" where
  "pair_text (k, v) = quoted k @ CHR '':'' # scalar_text v"

fun joined_text :: "(string \<times> jval) list \<Rightarrow> string" where
  "joined_text [] = []"
| "joined_text [p] = pair_text p"
| "joined_text (p # ps) = pair_text p @ CHR '','' # joined_text ps"

definition ref_dump :: "jval \<Rightarrow> exn + string" where
  "ref_dump j = (case j of
       JObj ms \<Rightarrow> if flat_ok ms then Inr (CHR ''{'' # joined_text ms @ ''}'')
                  else Inl (Library_Error ''[json.exception.type_error.316] invalid UTF-8 byte'')
     | _ \<Rightarrow> if scalar_ok j then Inr (scalar_text j)
            else Inl (Library_Error ''[json.exception.type_error.316] invalid UTF-8 byte''))"

definition lex_scalar :: "string \<Rightarrow> (jval \<times> string) option" where
  "lex_scalar s = (case s of
       [] \<Rightarrow> None
     | c # cs \<Rightarrow> if c = CHR 0x22 then map_option (\<lambda>(t, r). (JStr t, r)) (lex_string s)
                else map_option (\<lambda>(i, r). (JInt i, r)) (lex_int s))"

definition lex_pair :: "string \<Rightarrow> ((string \<times> jval) \<times> string) option" where
  "lex_pair s = (case lex_string s of
       Some (k, c # r) \<Rightarrow>
         if c = CHR '':'' then map_option (\<lambda>(v, q). ((k, v), q)) (lex_scalar r) else None
     | _ \<Rightarrow> None)"

fun lex_members :: "nat \<Rightarrow> string \<Rightarrow> (string \<times> jval) list option" where
  "lex_members 0 s = None"
| "lex_members (Suc n) s = (case lex_pair s of
       Some (p, c # r) \<Rightarrow>
         if c = CHR ''}'' then (if r = [] then Some [p] else None)
         else if c = CHR '','' then map_option (\<lambda>ps. p # ps) (lex_members n r)
         else None
     | _ \<Rightarrow> None)"

text \<open>The fuel is the length of the text: every member consumes at least one character.\<close>

definition ref_parse :: "string \<Rightarrow> exn + jval" where
  "ref_parse s = (case s of
       [] \<Rightarrow> Inl (Library_Error ''[json.exception.parse_error.101] unexpected end of input'')
     | c # r \<Rightarrow>
         if c = CHR ''{'' \<and> r = ''}'' then Inr (JObj [])
         else if c = CHR ''{''
         then (case lex_members (length r) r of
                 Some ms \<Rightarrow>
                   if flat_ok ms then Inr (JObj ms)
                   else Inl (Library_Error ''[json.exception.parse_error.101] ill-formed UTF-8'')
               | None \<Rightarrow> Inl (Library_Error ''[json.exception.parse_error.101] syntax error''))
         else Inl (Library_Error ''[json.exception.parse_error.101] syntax error''))"

definition ref_json :: "jval json_lib" where
  "ref_json = \<lparr>
     json_parse = ref_parse,
     json_dump = ref_dump,
     json_at = (\<lambda>j k. case j of
         JObj ms \<Rightarrow> (case map_of ms k of Some v \<Rightarrow> Inr v
           | None \<Rightarrow> Inl (Library_Error ''[json.exception.out_of_range.403] key not found''))
       | _ \<Rightarrow> Inl (Library_Error ''[json.exception.type_error.304] cannot use at()'')),
     json_contains = (\<lambda>j k. case j of JObj ms \<Rightarrow> map_of ms k \<noteq> None | _ \<Rightarrow> False),
     get_string = (\<lambda>j. case j of JStr s \<Rightarrow> Inr s
       | _ \<Rightarrow> Inl (Library_Error ''[json.exception.type_error.302] type must be string'')),
     get_int64 = (\<lambda>j. case j of JInt i \<Rightarrow> Inr (word_of_int i)
       | _ \<Rightarrow> Inl (Library_Error ''[json.exception.type_error.302] type must be number'')),
     of_string = JStr,
     of_int64 = (\<lambda>n. JInt (sint n)),
     json_object = JObj\<rparr>"

section \<open>Reading back what was written\<close>

lemma lex_scalar_text:
  assumes "scalar_ok v" and "\<not> is_digit c"
  shows "lex_scalar (scalar_text v @ c # r) = Some (v, c # r)"
proof (cases v)
  case (JStr s)
  then show ?thesis using lex_string_quoted [of s "c # r"]
    by (simp add: lex_scalar_def quoted_def)
next
  case (JInt i)
  obtain d ds where d: "nat_text (nat \<bar>i\<bar>) = d # ds" "is_digit d" by (rule nat_text_Cons)
  have "\<exists>e es. int_text i = e # es \<and> e \<noteq> CHR 0x22"
    using d by (cases "i < 0") (auto simp: int_text_def is_digit_def)
  then show ?thesis using JInt lex_int_text [OF assms(2), of i r]
    by (auto simp: lex_scalar_def)
next
  case (JObj ms)
  then show ?thesis using assms by simp
qed

lemma lex_pair_text:
  assumes "scalar_ok v" and "\<not> is_digit c"
  shows "lex_pair (pair_text (k, v) @ c # r) = Some ((k, v), c # r)"
  using lex_string_quoted [of k "CHR '':'' # scalar_text v @ c # r"] lex_scalar_text [OF assms, of r]
  by (simp add: lex_pair_def)

lemma lex_members_text:
  assumes "flat_ok ms" and "ms \<noteq> []" and "length ms \<le> n"
  shows "lex_members n (joined_text ms @ ''}'') = Some ms"
  using assms
proof (induction ms arbitrary: n rule: joined_text.induct)
  case 1
  then show ?case by simp
next
  case (2 p)
  then obtain m where n: "n = Suc m" by (cases n) auto
  obtain k v where p: "p = (k, v)" by (cases p)
  have "lex_pair (pair_text p @ CHR ''}'' # []) = Some (p, CHR ''}'' # [])"
    unfolding p by (rule lex_pair_text) (use 2 p in \<open>simp_all add: flat_ok_def is_digit_def\<close>)
  then show ?case using n by simp
next
  case (3 p q ps)
  then obtain m where n: "n = Suc m" by (cases n) auto
  obtain k v where p: "p = (k, v)" by (cases p)
  have "lex_pair (pair_text p @ CHR '','' # joined_text (q # ps) @ ''}'')
      = Some (p, CHR '','' # joined_text (q # ps) @ ''}'')"
    unfolding p by (rule lex_pair_text) (use 3 p in \<open>simp_all add: flat_ok_def is_digit_def\<close>)
  moreover have "lex_members m (joined_text (q # ps) @ ''}'') = Some (q # ps)"
    using 3 n by (simp add: flat_ok_def)
  ultimately show ?case using n by simp
qed

lemma length_joined_text: "length ms \<le> length (joined_text ms)"
  by (induction ms rule: joined_text.induct) (auto simp: quoted_def split: prod.splits)

lemma ref_parse_dump:
  assumes "ref_dump (JObj ms) = Inr t"
  shows "ref_parse t = Inr (JObj ms)"
proof -
  from assms have ok: "flat_ok ms" and t: "t = CHR ''{'' # joined_text ms @ ''}''"
    by (auto simp: ref_dump_def split: if_splits)
  show ?thesis
  proof (cases ms)
    case Nil
    then show ?thesis by (simp add: t ref_parse_def)
  next
    case (Cons p ps)
    have "joined_text ms \<noteq> []" using length_joined_text [of ms] Cons by auto
    moreover have "lex_members (length (joined_text ms @ ''}'')) (joined_text ms @ ''}'') = Some ms"
      by (rule lex_members_text [OF ok]) (use Cons length_joined_text [of ms] in auto)
    ultimately show ?thesis using ok by (simp add: t ref_parse_def)
  qed
qed

lemma ref_parse_flat: "ref_parse t = Inr j \<Longrightarrow> \<exists>ms. j = JObj ms \<and> flat_ok ms"
  by (auto simp: ref_parse_def flat_ok_def split: list.splits if_splits option.splits)

section \<open>The laws\<close>

lemma ref_json_simps [simp]:
  "json_parse ref_json = ref_parse" "json_dump ref_json = ref_dump"
  "of_string ref_json = JStr" "of_int64 ref_json n = JInt (sint n)" "json_object ref_json = JObj"
  "json_at ref_json (JObj ms) k = (case map_of ms k of Some v \<Rightarrow> Inr v
     | None \<Rightarrow> Inl (Library_Error ''[json.exception.out_of_range.403] key not found''))"
  "json_contains ref_json (JObj ms) k \<longleftrightarrow> map_of ms k \<noteq> None"
  "get_string ref_json (JStr s) = Inr s" "get_int64 ref_json (JInt i) = Inr (word_of_int i)"
  by (simp_all add: ref_json_def)

lemma ref_dumpable: "dumpable ref_json s \<longleftrightarrow> ascii s"
  by (simp add: dumpable_def ref_dump_def)

definition ref_members :: "(string \<times> member) list \<Rightarrow> (string \<times> jval) list" where
  "ref_members ms = map (\<lambda>(k, v). (k, to_value ref_json v)) ms"

lemma flat_object_ref: "flat_object ref_json ms = JObj (ref_members ms)"
  by (simp add: flat_object_def ref_members_def)

lemma scalar_ok_value: "scalar_ok (to_value ref_json v) \<longleftrightarrow> member_ok ref_json v"
  by (cases v) (simp_all add: ref_dumpable)

lemma flat_ok_ref:
  "keys_ok ms \<Longrightarrow> flat_ok (ref_members ms) \<longleftrightarrow> (\<forall>(k, v) \<in> set ms. member_ok ref_json v)"
  by (auto simp: flat_ok_def ref_members_def keys_ok_def list_all_iff scalar_ok_value)

lemma map_of_ref:
  "keys_ok ms \<Longrightarrow> (k, v) \<in> set ms \<Longrightarrow> map_of (ref_members ms) k = Some (to_value ref_json v)"
  by (rule map_of_is_SomeI) (force simp: ref_members_def keys_ok_def o_def split_def)+

lemma map_of_ref_dom: "map_of (ref_members ms) k \<noteq> None \<longleftrightarrow> k \<in> set (map fst ms)"
  by (auto simp: map_of_eq_None_iff ref_members_def image_iff split_def)

lemma reads_back_ref:
  "keys_ok ms \<Longrightarrow> (k, v) \<in> set ms \<Longrightarrow> reads_back ref_json (JObj (ref_members ms)) k v"
  by (cases v) (simp_all add: at_string_def at_int64_def map_of_ref)

lemma ref_at_string_std: "at_string ref_json j k = Inl e \<Longrightarrow> std_exception e"
  by (auto simp: at_string_def ref_json_def split: jval.splits option.splits)

lemma ref_at_int64_std: "at_int64 ref_json j k = Inl e \<Longrightarrow> std_exception e"
  by (auto simp: at_int64_def ref_json_def split: jval.splits option.splits)

lemma ref_parsed_ascii:
  assumes "ref_parse t = Inr j" and "at_string ref_json j k = Inr s"
  shows "ascii s"
proof -
  obtain ms where ms: "j = JObj ms" "flat_ok ms" using ref_parse_flat [OF assms(1)] by blast
  then have "map_of ms k = Some (JStr s)"
    using assms(2) by (auto simp: at_string_def ref_json_def split: jval.splits option.splits)
  then have "(k, JStr s) \<in> set ms" by (rule map_of_SomeD)
  then show ?thesis using ms(2) by (auto simp: flat_ok_def list_all_iff)
qed

lemma ref_std:
  "ref_parse t = Inl e \<Longrightarrow> std_exception e" "ref_dump j = Inl e \<Longrightarrow> std_exception e"
  by (auto simp: ref_parse_def ref_dump_def split: list.splits jval.splits if_splits option.splits)

lemma ref_dump_iff:
  "keys_ok ms \<Longrightarrow> (\<not> isl (ref_dump (JObj (ref_members ms)))) \<longleftrightarrow>
     (\<forall>(k, v) \<in> set ms. member_ok ref_json v)"
  using flat_ok_ref [of ms] by (simp add: ref_dump_def)

lemma ref_laws: "json_laws ref_json"
  unfolding json_laws_def
proof (intro conjI allI impI)
  fix s assume "ascii s"
  then show "dumpable ref_json s" by (simp add: ref_dumpable)
next
  fix ms assume "keys_ok ms"
  then show "(\<not> isl (json_dump ref_json (flat_object ref_json ms))) \<longleftrightarrow>
      (\<forall>(k, v) \<in> set ms. member_ok ref_json v)"
    by (simp add: flat_object_ref ref_dump_iff)
next
  fix ms t assume k: "keys_ok ms" and d: "json_dump ref_json (flat_object ref_json ms) = Inr t"
  then have "ref_parse t = Inr (JObj (ref_members ms))"
    by (intro ref_parse_dump) (simp add: flat_object_ref)
  moreover have "\<forall>(k, v) \<in> set ms. reads_back ref_json (JObj (ref_members ms)) k v"
    using reads_back_ref [OF k] by blast
  ultimately show "\<exists>j. json_parse ref_json t = Inr j \<and>
      (\<forall>k. json_contains ref_json j k \<longleftrightarrow> k \<in> set (map fst ms)) \<and>
      (\<forall>(k, v) \<in> set ms. reads_back ref_json j k v)"
    using map_of_ref_dom by auto
next
  fix t j k s assume "json_parse ref_json t = Inr j" and "at_string ref_json j k = Inr s"
  then show "dumpable ref_json s" using ref_parsed_ascii by (simp add: ref_dumpable)
qed (use ref_std ref_at_string_std ref_at_int64_std in auto)

end
