(* ===== verification/Demo.thy ===== *)
theory Demo
  imports Sessions Json_Ref
begin

text \<open>
  One concrete platform and one concrete run, used by the witnesses: Alice and Bob connect, Bob says
  hi, the greeting to Alice is written to her socket.
\<close>

definition demo :: "jval platform" where
  "demo = \<lparr>json = ref_json, clock = int, random_uuid = nat_text, place = (\<lambda>c cs. c # cs)\<rparr>"

abbreviation "alice \<equiv> Conn 0"
abbreviation "bob \<equiv> Conn 1"

definition junk0 :: indeterminate where
  "junk0 = \<lparr>junk_action = Error, junk_timestamp = 7\<rparr>"

lemma demo_simps [simp]:
  "json demo = ref_json" "clock demo n = int n" "random_uuid demo n = nat_text n"
  "place demo c cs = c # cs"
  by (simp_all add: demo_def)

lemma ascii_nat_text: "ascii (nat_text n)"
  using nat_text_digits [of _ n] by (fastforce simp: ascii_def list_all_iff is_digit_def)

lemma demo_ok: "platform_ok demo"
  using ref_laws ascii_nat_text by (simp add: platform_ok_def)

section \<open>The texts\<close>

definition text_a :: string where
  "text_a = ''{\"sender\":\"system\",\"action\":\"connect\",\"contents\":\"0\",\"timestamp\":0}''"

definition text_b :: string where
  "text_b = ''{\"sender\":\"system\",\"action\":\"connect\",\"contents\":\"1\",\"timestamp\":1}''"

text \<open>What Bob sends, and what is relayed: the timestamp is whatever the storage held.\<close>

definition said :: string where
  "said = ''{\"sender\":\"bob\",\"contents\":\"hi\"}''"

definition relayed :: string where
  "relayed = ''{\"sender\":\"bob\",\"action\":\"chat\",\"contents\":\"hi\",\"timestamp\":7}''"

definition said_message :: message where
  "said_message = \<lparr>sender = ''bob'', action = Chat, contents = ''hi'', timestamp = 7\<rparr>"

lemma text_a: "system_text demo Connect (nat_text 0) 0 = Inr text_a"
  by code_simp

lemma text_b: "system_text demo Connect (nat_text (Suc 0)) (Suc 0) = Inr text_b"
  by code_simp

lemma said_message: "message_of_string ref_json junk0 said = Inr said_message"
  by code_simp

lemma relayed: "serialize ref_json said_message = Inr relayed"
  by code_simp

section \<open>The run\<close>

definition obj :: "nat \<Rightarrow> string list \<Rightarrow> wsconn" where
  "obj n q = \<lparr>buffer = '''', queue = q, uuid = nat_text n\<rparr>"

definition pend :: "nat \<Rightarrow> string list \<Rightarrow> string list \<Rightarrow> conn_ops" where
  "pend r ws ps = \<lparr>accepts = 0, reads = r, writes = ws, posts = ps\<rparr>"

definition demo1 :: world where
  "demo1 = opened demo world0"

definition demo2 :: world where
  "demo2 = world0\<lparr>heap := [alice \<mapsto> obj 0 []], ops := (\<lambda>_. no_ops)(alice := pend 1 [] [text_a]),
     clients := [alice], ticks := 1, next_conn := 1, sent := (\<lambda>_. [])(alice := [text_a])\<rparr>"

definition demo4 :: world where
  "demo4 = world0\<lparr>heap := [alice \<mapsto> obj 0 [], bob \<mapsto> obj 1 []],
     ops := (\<lambda>_. no_ops)(alice := pend 1 [] [text_a, text_b], bob := pend 1 [] [text_b]),
     clients := [bob, alice], ticks := 2, next_conn := 2,
     sent := (\<lambda>_. [])(alice := [text_a, text_b], bob := [text_b])\<rparr>"

lemma inv1: "world_inv demo [] demo1"
  using inv_opened [OF inv_world0] by (simp add: demo1_def)

lemma step1: "step demo world0 Open demo1"
  using exec_Open [OF inv_world0 [of demo]] by (simp add: step_iff demo1_def world0_def)

lemma exec2: "exec demo (Accepted alice Success) demo1 = demo2"
proof -
  have "accepts (ops demo1 alice) > 0" by (simp add: demo1_def world_simps world0_def)
  moreover have "ticks demo1 = 0" by (simp add: demo1_def world_simps world0_def)
  ultimately have "exec demo (Accepted alice Success) demo1 =
      pop_stack alice (set_ops alice (\<lambda>q. q\<lparr>reads := Suc (reads q)\<rparr>)
        (joined demo alice text_a (begun alice (\<lambda>q. q\<lparr>accepts := accepts q - 1\<rparr>) demo1)))"
    using exec_Accepted_eq [OF demo_ok inv1, of alice text_a] text_a by simp
  also have "\<dots> = demo2"
    by (rule world.equality)
       (auto simp: demo1_def demo2_def opened_def joined_def world0_def begun_def push_stack_def
         pop_stack_def set_ops_def post_all_def tick_def clients_insert_def obj_def pend_def
         no_ops_def fun_eq_iff)
  finally show ?thesis .
qed

lemma step2: "step demo demo1 (Accepted alice Success) demo2"
  using exec2 by (simp add: step_iff demo1_def world_simps world0_def)

lemma reach2: "reachable demo demo2"
  by (rule reachable_step [OF reachable_step [OF reachable_world0 step1] step2])

lemma inv2: "world_inv demo [] demo2"
  by (rule reachable_inv [OF demo_ok reach2])

lemma step3: "step demo demo2 Open (opened demo demo2)"
  using exec_Open [OF inv2] by (simp add: step_iff demo2_def world0_def)

lemma inv3: "world_inv demo [] (opened demo demo2)"
  by (rule inv_opened [OF inv2])

lemma exec4: "exec demo (Accepted bob Success) (opened demo demo2) = demo4"
proof -
  let ?w = "opened demo demo2"
  have "accepts (ops ?w bob) > 0" and "ticks ?w = Suc 0"
    by (simp_all add: demo2_def world_simps)
  then have "exec demo (Accepted bob Success) ?w =
      pop_stack bob (set_ops bob (\<lambda>q. q\<lparr>reads := Suc (reads q)\<rparr>)
        (joined demo bob text_b (begun bob (\<lambda>q. q\<lparr>accepts := accepts q - 1\<rparr>) ?w)))"
    using exec_Accepted_eq [OF demo_ok inv3, of bob text_b] text_b by simp
  also have "\<dots> = demo4"
    by (rule world.equality)
       (auto simp: demo2_def demo4_def opened_def joined_def world0_def begun_def push_stack_def
         pop_stack_def set_ops_def post_all_def tick_def clients_insert_def obj_def pend_def
         no_ops_def fun_eq_iff)
  finally show ?thesis .
qed

lemma step4: "step demo (opened demo demo2) (Accepted bob Success) demo4"
  using exec4 by (simp add: step_iff demo2_def world_simps world0_def)

lemma reach4: "reachable demo demo4"
  by (rule reachable_step [OF reachable_step [OF reach2 step3] step4])

lemma inv4: "world_inv demo [] demo4"
  by (rule reachable_inv [OF demo_ok reach4])

lemma reach3: "reachable demo (opened demo demo2)"
  by (rule reachable_step [OF reach2 step3])

text \<open>The greeting of Alice queued, when she is alone.\<close>

definition demo5 :: world where
  "demo5 = queued alice text_a [] (obj 0 []) demo2"

lemma demo2_simps [simp]:
  "heap demo2 = [alice \<mapsto> obj 0 []]" "ops demo2 = (\<lambda>_. no_ops)(alice := pend 1 [] [text_a])"
  "clients demo2 = [alice]" "ticks demo2 = 1" "next_conn demo2 = 1" "crash demo2 = None"
  "sent demo2 = (\<lambda>_. [])(alice := [text_a])" "wire demo2 = (\<lambda>_. [])" "stack demo2 = []"
  by (simp_all add: demo2_def world0_def)

lemma demo4_simps [simp]:
  "heap demo4 = [alice \<mapsto> obj 0 [], bob \<mapsto> obj 1 []]"
  "ops demo4 = (\<lambda>_. no_ops)(alice := pend 1 [] [text_a, text_b], bob := pend 1 [] [text_b])"
  "clients demo4 = [bob, alice]" "ticks demo4 = 2" "next_conn demo4 = 2" "crash demo4 = None"
  "sent demo4 = (\<lambda>_. [])(alice := [text_a, text_b], bob := [text_b])"
  "wire demo4 = (\<lambda>_. [])" "stack demo4 = []"
  by (simp_all add: demo4_def world0_def)

lemma obj_simps [simp]: "buffer (obj n q) = ''''" "queue (obj n q) = q" "uuid (obj n q) = nat_text n"
  by (simp_all add: obj_def)

lemma pend_simps [simp]:
  "accepts (pend r ws ps) = 0" "reads (pend r ws ps) = r" "writes (pend r ws ps) = ws"
  "posts (pend r ws ps) = ps"
  by (simp_all add: pend_def)

lemma step5: "step demo demo2 (Posted alice) demo5"
  using exec_Posted_alive [OF demo_ok inv2, of alice "obj 0 []" text_a "[]"]
  by (simp add: step_iff demo5_def)

lemma reach5: "reachable demo demo5"
  by (rule reachable_step [OF reach2 step5])

lemma demo5_simps [simp]:
  "heap demo5 = [alice \<mapsto> obj 0 [text_a]]"
  "ops demo5 = (\<lambda>_. no_ops)(alice := pend 1 [text_a] [])" "crash demo5 = None" "wire demo5 = (\<lambda>_. [])"
  by (simp_all add: demo5_def world_simps obj_def pend_def)

end
