(* ===== verification/Traffic.thy ===== *)
theory Traffic
  imports Sessions
begin

text \<open>
  The type of what the server sends: every text it gives to a connection is a message with one of the
  four actions, written exactly as \<open>serialize\<close> writes it, whoever caused it.
\<close>

section \<open>Well-formed texts\<close>

definition fixed_junk :: indeterminate where
  "fixed_junk = \<lparr>junk_action = Error, junk_timestamp = 0\<rparr>"

text \<open>A text that reads as a message which is written as this text.\<close>

definition chat_text :: "'j platform \<Rightarrow> string \<Rightarrow> bool" where
  "chat_text P t \<longleftrightarrow> (case message_of_string (json P) fixed_junk t of
       Inl _ \<Rightarrow> False
     | Inr m \<Rightarrow> named (action m) \<and> serialize (json P) m = Inr t)"

lemma chat_text_iff:
  assumes "platform_ok P"
  shows "chat_text P t \<longleftrightarrow> (\<exists>m. serialize (json P) m = Inr t)"
proof
  show "chat_text P t \<Longrightarrow> \<exists>m. serialize (json P) m = Inr t"
    by (auto simp: chat_text_def split: sum.splits)
  assume "\<exists>m. serialize (json P) m = Inr t"
  then obtain m where m: "serialize (json P) m = Inr t" by blast
  have L: "json_laws (json P)" using assms by (simp add: platform_ok_def)
  show "chat_text P t"
    using m codec.decode_encode [OF L m] serialize_ok_iff [OF L, of m] by (simp add: chat_text_def)
qed

lemma chat_text_system: "platform_ok P \<Longrightarrow> system_text P a u n = Inr t \<Longrightarrow> chat_text P t"
  by (auto simp: chat_text_iff system_text_def)

lemma chat_text_reads:
  assumes "platform_ok P" and "chat_text P t"
  shows "\<exists>m. named (action m) \<and> serialize (json P) m = Inr t \<and>
    (\<forall>junk. message_of_string (json P) junk t = Inr m)"
proof -
  obtain m where m: "named (action m)" "serialize (json P) m = Inr t"
    using assms(2) by (auto simp: chat_text_def split: sum.splits)
  have "json_laws (json P)" using assms(1) by (simp add: platform_ok_def)
  then show ?thesis using m codec.decode_encode [OF _ m(2)] by blast
qed

section \<open>Well-typed announcements and rooms\<close>

fun typed_announcement :: "'j platform \<Rightarrow> announcement \<Rightarrow> bool" where
  "typed_announcement P (Join c t) \<longleftrightarrow> chat_text P t"
| "typed_announcement P (Say t) \<longleftrightarrow> chat_text P t"
| "typed_announcement P (Whisper c t) \<longleftrightarrow> chat_text P t"
| "typed_announcement P (Leave c t) \<longleftrightarrow> chat_text P t"
| "typed_announcement P Quiet \<longleftrightarrow> True"

definition typed_room :: "'j platform \<Rightarrow> room \<Rightarrow> bool" where
  "typed_room P r \<longleftrightarrow> (\<forall>c. \<forall>t \<in> set (inbox r c). chat_text P t)"

lemma typed_room_apply: "typed_room P r \<Longrightarrow> typed_announcement P a \<Longrightarrow> typed_room P (room_apply a r)"
  by (cases a) (auto simp: typed_room_def)

lemma typed_farewell: "platform_ok P \<Longrightarrow> typed_announcement P (farewell P c e w)"
  by (auto simp: farewell_def chat_text_system split: sum.splits)

lemma typed_announce: "platform_ok P \<Longrightarrow> typed_announcement P (announce P e w)"
  by (cases e) (auto simp: typed_farewell chat_text_system chat_text_iff [of P] system_text_def
      split: sum.splits)

interpretation traffic: invariant_system "\<lambda>w. w = world0" "step P"
  "\<lambda>w. platform_ok P \<longrightarrow> world_inv P [] w \<and> typed_room P (room_of w)" for P :: "'j platform"
proof
  fix s e t
  show "s = world0 \<Longrightarrow> platform_ok P \<longrightarrow> world_inv P [] s \<and> typed_room P (room_of s)"
    by (simp add: inv_world0) (simp add: typed_room_def world0_def)
  show "platform_ok P \<longrightarrow> world_inv P [] s \<and> typed_room P (room_of s) \<Longrightarrow> step P s e t \<Longrightarrow>
      platform_ok P \<longrightarrow> world_inv P [] t \<and> typed_room P (room_of t)"
    by (auto simp: step_iff exec_inv exec_announce typed_room_apply typed_announce)
qed

lemma reachable_typed: "platform_ok P \<Longrightarrow> reachable P w \<Longrightarrow> t \<in> set (sent w c) \<Longrightarrow> chat_text P t"
  using traffic.reach_inv [of P w] by (auto simp: typed_room_def)

text \<open>Every place a text can be in was reached through \<open>send\<close>.\<close>

lemma places_sent:
  assumes "platform_ok P" and "reachable P w"
  shows "set (wire w c) \<subseteq> set (sent w c)" and "set (posts (ops w c)) \<subseteq> set (sent w c)"
    and "set (writes (ops w c)) \<subseteq> set (sent w c)"
    and "heap w c = Some x \<Longrightarrow> set (queue x) \<subseteq> set (sent w c)"
proof -
  have I: "world_inv P [] w" by (rule reachable_inv [OF assms])
  show "set (wire w c) \<subseteq> set (sent w c)"
    using wires.reach_inv [OF assms(2)] assms(1) set_mono_prefix
    by (auto simp: wire_prefix_def dest!: set_mono_prefix)
  have o: "outbox_inv y (ops w c) (sent w c) (wire w c)" if "heap w c = Some y" for y
    using invD(4) [OF I that] by (simp add: obj_inv_def)
  show "set (queue x) \<subseteq> set (sent w c)" if "heap w c = Some x"
    using o [OF that] by (auto simp: outbox_inv_def)
  show "set (posts (ops w c)) \<subseteq> set (sent w c)" "set (writes (ops w c)) \<subseteq> set (sent w c)"
    using o invD(6) [OF I, of c] by (cases "heap w c"; fastforce simp: outbox_inv_def)+
qed

text \<open>The chat of a process that can be reached is a chat that can be reached.\<close>

interpretation chat_of_process: simulation boot_state "sys_step P" http_inv "\<lambda>w. w = world0" "step P" chat
  for P :: "'j platform"
proof
  show "boot_state s \<Longrightarrow> chat s = world0" for s by (auto simp: boot_state_def world_simps)
  show "http_inv s \<Longrightarrow> sys_step P s e t \<Longrightarrow> chat t = chat s \<or> (\<exists>f. step P (chat s) f (chat t))" for s e t
    by (rule sys_step_chat)
qed

lemmas sys_reachable_chat = chat_of_process.reach_image

end
