(* ===== verification/Chat_Properties.thy ===== *)
theory Chat_Properties
  imports Demo Traffic
begin

text \<open>
  The properties of the chat: what the members of the room see, and that the program never goes
  wrong. They are stated over the states a run can reach, for every platform that behaves as
  documented; the demo run shows for each that its hypotheses can hold.
\<close>

section \<open>The room\<close>

text \<open>C1: Every step of the program is one announcement in the abstract room: a finished handshake is
  a join that everybody hears, a well-formed message is said to all, a malformed one is answered to
  its sender alone, the end of the last operation of a connection is a leave that everybody else
  hears, and nothing else is visible.\<close>

theorem room_step:
  assumes "platform_ok P" and "reachable P w" and "step P w e w'"
  shows "room_of w' = room_apply (announce P e w) (room_of w)"
  using exec_announce [OF assms(1) reachable_inv [OF assms(1,2)]] assms(3) by (simp add: step_iff)

theorem room_step_witness:
  "room_of demo4 = room_apply (Join bob text_b) (room_of (opened demo demo2))"
  using room_step [OF demo_ok reach3 step4] text_b by (simp add: world_simps)

text \<open>C2: No exception leaves a handler and no handler touches a destroyed connection or an empty
  queue: a step from a reachable state never ends the process, leaves no pointer on the stack, and the
  server's set has no duplicates and points to live objects only.\<close>

theorem never_crashes:
  assumes "platform_ok P" and "reachable P w" and "enabled e w"
  shows "crash (exec P e w) = None \<and> stack (exec P e w) = [] \<and> no_dangling (exec P e w)"
  using invD(1-3) [OF exec_inv [OF assms(1) reachable_inv [OF assms(1,2)] assms(3)]] by simp

theorem never_crashes_witness: "crash (exec demo (Received alice Success said junk0) demo4) = None"
  using never_crashes [OF demo_ok reach4, of "Received alice Success said junk0"] by simp

text \<open>C3: Nothing that is sent to a connection is lost, duplicated or reordered: as long as it lives,
  the texts sent to it are exactly those written to its socket, then those in its queue, then those
  posted to its strand.\<close>

theorem outbox_exact:
  assumes "platform_ok P" and "reachable P w" and "heap w c = Some x"
  shows "sent w c = wire w c @ queue x @ posts (ops w c)"
  using invD(4) [OF reachable_inv [OF assms(1,2)] assms(3)] by (simp add: obj_inv_def outbox_inv_def)

theorem outbox_exact_witness: "sent demo5 alice = [] @ [text_a] @ []"
  using outbox_exact [OF demo_ok reach5, of alice "obj 0 [text_a]"] by simp

text \<open>A live connection has at most one handshake or read and at most one write outstanding. The text
  being written is the front of its queue, which therefore outlives the write. Only members are read
  from, into an empty buffer, so each message is handled alone; one that is no member yet was sent
  nothing.\<close>

lemma one_operation:
  assumes "platform_ok P" and "reachable P w" and "heap w c = Some x"
  shows "length (writes (ops w c)) \<le> 1 \<and> (\<forall>t \<in> set (writes (ops w c)). \<exists>ts. queue x = t # ts) \<and>
    accepts (ops w c) + reads (ops w c) \<le> 1 \<and>
    (if c \<in> set (clients w)
     then accepts (ops w c) = 0 \<and> (reads (ops w c) = 1 \<longrightarrow> buffer x = '''')
     else reads (ops w c) = 0 \<and> sent w c = [])"
proof -
  have o: "obj_inv P (c \<in> set (clients w)) c x (ops w c) (sent w c) (wire w c)"
    by (rule invD(4) [OF reachable_inv [OF assms(1,2)] assms(3)])
  then have "length (writes (ops w c)) \<le> 1" and "\<forall>t \<in> set (writes (ops w c)). \<exists>ts. queue x = t # ts"
    by (auto simp: obj_inv_def outbox_inv_def neq_Nil_conv)
  then show ?thesis using o by (auto simp: obj_inv_def member_inv_def)
qed

lemma one_operation_instance: "writes (ops demo5 alice) = [text_a] \<and> sent (opened demo demo2) bob = []"
  using one_operation [OF demo_ok reach5, of alice "obj 0 [text_a]"]
    one_operation [OF demo_ok reach3, of bob] by (simp add: world_simps)

text \<open>A connection object exists exactly while some shared pointer owns it: it is not freed while an
  operation is outstanding, and not leaked when the last one is over. What is outstanding belongs to
  a live object.\<close>

lemma alive_iff_owned:
  assumes "platform_ok P" and "reachable P w"
  shows "heap w c \<noteq> None \<longleftrightarrow> op_count (ops w c) > 0"
proof -
  have I: "world_inv P [] w" by (rule reachable_inv [OF assms])
  show ?thesis
    using invD(5) [OF I, of c] invD(6) [OF I, of c] use_count_idle [OF I, of c]
    by (cases "heap w c") (auto simp: op_count_def no_ops_def)
qed

lemma alive_iff_owned_instance: "heap demo4 (Conn 2) = None \<and> op_count (ops demo4 bob) > 0"
  using alive_iff_owned [OF demo_ok reach4, of "Conn 2"] alive_iff_owned [OF demo_ok reach4, of bob]
  by (simp add: op_count_def no_ops_def)

section \<open>What a member sees\<close>

text \<open>The first text a member was ever sent is its own connect message: it decodes, at any client
  that uses the codec, to action connect, sender system and the identifier of that connection.\<close>

lemma greeted_first:
  assumes "platform_ok P" and "reachable P w" and "c \<in> set (clients w)"
  shows "\<exists>t ts n. sent w c = t # ts \<and> message_of_string (json P) junk t =
    Inr \<lparr>sender = ''system'', action = Connect, contents = random_uuid P (conn_index c),
         timestamp = get_timestamp (clock P n)\<rparr>"
proof -
  have I: "world_inv P [] w" by (rule reachable_inv [OF assms(1,2)])
  obtain x where x: "heap w c = Some x" using invD(11) [OF I assms(3)] by auto
  have "greeted P (random_uuid P (conn_index c)) (sent w c)"
    using invD(4) [OF I x] assms(3) by (auto simp: obj_inv_def member_inv_def)
  then show ?thesis using system_text_decodes [OF assms(1)] by (fastforce simp: greeted_def message_system_def)
qed

lemma greeted_first_instance: "\<exists>n. message_of_string ref_json junk0 text_b =
    Inr \<lparr>sender = ''system'', action = Connect, contents = nat_text 1, timestamp = get_timestamp n\<rparr>"
  using greeted_first [OF demo_ok reach4, of bob junk0] by auto

text \<open>C6: A member that stays during a run is sent exactly what is announced in it, in order: joins
  and leaves of others and everything said, plus the error answers to itself, and nothing else.\<close>

theorem member_history:
  assumes "platform_ok P" and "reachable P w" and "run P es w = Some w'" and "c \<in> set (clients w)"
    and "\<forall>a \<in> set (announcements P es w). \<not> leaves c a"
  shows "sent w' c = sent w c @ concat (map (heard c) (announcements P es w)) \<and> c \<in> set (clients w')"
  using room_run_heard [of c "room_of w" "announcements P es w"] assms(4,5)
    run_announcements [OF assms(1) reachable_inv [OF assms(1,2)] assms(3)]
  by (metis room_of_simps)

lemma demo_run: "run demo [Open, Accepted bob Success] demo2 = Some demo4"
  using exec_Open [OF inv2] exec4 by (simp add: world_simps)

theorem member_history_witness: "sent demo4 alice = [text_a] @ [text_b]"
  using member_history [OF demo_ok reach2 demo_run, of alice] exec_Open [OF inv2] text_b
  by (simp add: world_simps)

text \<open>C5: All members agree on the order of events: two that stay during a run and send nothing
  malformed in it are sent the same texts.\<close>

theorem members_agree:
  assumes "platform_ok P" and "reachable P w" and "run P es w = Some w'"
    and "c \<in> set (clients w)" and "d \<in> set (clients w)"
    and "\<forall>a \<in> set (announcements P es w). \<forall>t. \<not> leaves c a \<and> \<not> leaves d a \<and>
      a \<noteq> Whisper c t \<and> a \<noteq> Whisper d t"
  shows "\<exists>ts. sent w' c = sent w c @ ts \<and> sent w' d = sent w d @ ts"
proof -
  have r: "room_of w' = fold room_apply (announcements P es w) (room_of w)"
    by (rule run_announcements [OF assms(1) reachable_inv [OF assms(1,2)] assms(3)])
  have "sent w' x = sent w x @ concat (map public (announcements P es w))"
    if "x \<in> set (clients w)" "\<forall>a \<in> set (announcements P es w). \<not> leaves x a \<and> (\<forall>t. a \<noteq> Whisper x t)"
    for x
    using room_run_heard [of x "room_of w" "announcements P es w"] concat_heard_public [OF that(2)]
      that r by (metis room_of_simps)
  from this [of c] this [of d] show ?thesis using assms(4-6) by blast
qed

theorem members_agree_witness: "\<exists>ts. sent (exec demo (Received alice Success said junk0) demo4) alice
      = [text_a, text_b] @ ts \<and>
    sent (exec demo (Received alice Success said junk0) demo4) bob = [text_b] @ ts"
  using members_agree [OF demo_ok reach4, of "[Received alice Success said junk0]" _ alice bob]
    said_message relayed by simp

section \<open>The type of the traffic\<close>

text \<open>C27: Everything the server sends is typed: each text that was sent to a connection, waits in its
  queue or its strand, is being written or was written is exactly what \<open>serialize\<close> makes of a message
  with one of the four actions, and every client that reads it gets that message.\<close>

theorem typed_traffic:
  assumes "platform_ok P" and "reachable P w"
    and "t \<in> set (sent w c @ wire w c @ writes (ops w c) @ posts (ops w c)) \<or>
      (\<exists>x. heap w c = Some x \<and> t \<in> set (queue x))"
  shows "\<exists>m. named (action m) \<and> serialize (json P) m = Inr t \<and>
    (\<forall>junk. message_of_string (json P) junk t = Inr m)"
proof -
  have "t \<in> set (sent w c)" using assms(3) places_sent [OF assms(1,2)] by fastforce
  then show ?thesis using chat_text_reads [OF assms(1)] reachable_typed [OF assms(1,2)] by blast
qed

theorem typed_traffic_witness: "\<exists>m. named (action m) \<and> serialize ref_json m = Inr text_a"
  using typed_traffic [OF demo_ok reach5, of text_a alice] by auto

lemma process_traffic:
  "platform_ok P \<Longrightarrow> sys_reachable P s \<Longrightarrow> t \<in> set (wire (chat s) c) \<Longrightarrow>
     \<exists>m. named (action m) \<and> (\<forall>junk. message_of_string (json P) junk t = Inr m)"
  using chat_text_reads reachable_typed places_sent(1) sys_reachable_chat by blast

end
