(* ===== verification/Handler_Properties.thy ===== *)
theory Handler_Properties
  imports Demo
begin

text \<open>
  What each handler of a websocket connection does in a reachable state, on every branch, and what
  becomes of the texts it sends.
\<close>

section \<open>Joining and leaving\<close>

text \<open>C23: A finished handshake makes the connection a member, tells it and every other member, once
  each, the same connect message with its identifier and the time, and starts its first read.\<close>

theorem handshake_joins:
  assumes "platform_ok P" and "reachable P w" and "step P w (Accepted c Success) w'"
  shows "\<exists>t. message_of_string (json P) junk t =
      Inr (message_system Connect (random_uuid P (conn_index c)) (clock P (ticks w))) \<and>
    (\<forall>d. sent w' d = sent w d @ (if d \<in> insert c (set (clients w)) then [t] else [])) \<and>
    set (clients w') = insert c (set (clients w)) \<and> c \<notin> set (clients w) \<and> reads (ops w' c) = 1"
proof -
  have I: "world_inv P [] w" by (rule reachable_inv [OF assms(1,2)])
  from assms(3) have a: "accepts (ops w c) > 0" and w': "w' = exec P (Accepted c Success) w"
    by (auto simp: step_iff)
  obtain x where c: "c \<notin> set (clients w)" and q: "ops w c = no_ops\<lparr>accepts := 1\<rparr>"
    by (rule pending_accept [OF I a])
  obtain t where t: "system_text P Connect (random_uuid P (conn_index c)) (ticks w) = Inr t"
    and e: "exec P (Accepted c Success) w = pop_stack c (set_ops c (\<lambda>q. q\<lparr>reads := Suc (reads q)\<rparr>)
      (joined P c t (begun c (\<lambda>q. q\<lparr>accepts := accepts q - 1\<rparr>) w)))"
    by (rule exec_Accepted_ok [OF assms(1) I a])
  have "set (clients w') = insert c (set (clients w))"
    unfolding w' e
    using clients_insert_set(1) [OF assms(1), of "post_all (insert c (set (clients w))) t
        (tick (begun c (\<lambda>q. q\<lparr>accepts := accepts q - 1\<rparr>) w))" c] invD(12) [OF I]
    by (simp add: joined_def world_simps)
  then show ?thesis
    using system_text_decodes [OF assms(1) t, of junk] c q
    by (intro exI [of _ t]) (auto simp: w' e world_simps no_ops_def)
qed

theorem handshake_joins_witness: "set (clients demo4) = {alice, bob}"
  using handshake_joins [OF demo_ok reach3 step4, of junk0] by (auto simp: world_simps)

text \<open>C20: When the last operation of a connection completes and its handler starts no other, the object
  is destroyed: every other member is sent one disconnect message with its identifier, it is erased
  from the set, and all other objects stay.\<close>

theorem last_release_leaves:
  assumes "platform_ok P" and "reachable P w" and "step P w e w'" and "quiet_event e c" and "ends e w"
  shows "\<exists>t. message_of_string (json P) junk t =
      Inr (message_system Disconnect (random_uuid P (conn_index c)) (clock P (ticks w))) \<and>
    heap w' c = None \<and> clients w' = remove1 c (clients w) \<and>
    (\<forall>d. sent w' d = sent w d @ (if d \<in> set (clients w) - {c} then [t] else [])) \<and>
    (\<forall>d. d \<noteq> c \<longrightarrow> heap w' d = heap w d)"
proof -
  have I: "world_inv P [] w" by (rule reachable_inv [OF assms(1,2)])
  from assms(3) have en: "enabled e w" and w': "w' = exec P e w" by (auto simp: step_iff)
  obtain v where v: "exec P e w = release P c v" "world_inv P [c] v" "quiet_change c w v"
    "ops v c = no_ops \<longleftrightarrow> ends e w"
    by (rule quiet_outcome [OF assms(1) I en assms(4)])
  have q: "ops v c = no_ops" using v(4) assms(5) by simp
  obtain x where x: "heap v c = Some x" using v(3) by (auto simp: quiet_change_def)
  have u: "uuid x = random_uuid P (conn_index c)" using invD(4) [OF v(2) x] by (simp add: obj_inv_def)
  obtain t where t: "system_text P Disconnect (uuid x) (ticks v) = Inr t"
    and r: "release P c v = left c t v" by (rule release_last [OF assms(1) v(2) q x])
  have m: "message_of_string (json P) junk t =
      Inr (message_system Disconnect (random_uuid P (conn_index c)) (clock P (ticks w)))"
    using system_text_decodes [OF assms(1) t, of junk] u v(3) by (auto simp: quiet_change_def)
  show ?thesis
    by (rule exI [of _ t]) (use m v(3) in \<open>auto simp: w' v(1) r left_def world_simps quiet_change_def\<close>)
qed

lemma bob_fails: "step demo (opened demo demo2) (Accepted bob End_Of_Stream)
    (exec demo (Accepted bob End_Of_Stream) (opened demo demo2))"
  by (simp add: step_iff world_simps)

lemma bob_ends: "ends (Accepted bob End_Of_Stream) (opened demo demo2)"
  by (simp add: use_count_def op_count_def world_simps no_ops_def)

theorem last_release_leaves_witness:
  "heap (exec demo (Accepted bob End_Of_Stream) (opened demo demo2)) bob = None"
  using last_release_leaves [OF demo_ok reach3 bob_fails _ bob_ends, of bob junk0] by auto

text \<open>A failed handshake destroys a connection nobody heard of, yet every member is sent a
  disconnect message for it: the identifier leaves without ever having joined.\<close>

lemma failed_handshake_ghost:
  assumes "platform_ok P" and "reachable P w" and "step P w (Accepted c ec) w'" and "ec \<noteq> Success"
  shows "c \<notin> set (clients w) \<and> sent w c = [] \<and> heap w' c = None \<and>
    (\<exists>t. message_of_string (json P) junk t =
        Inr (message_system Disconnect (random_uuid P (conn_index c)) (clock P (ticks w))) \<and>
      (\<forall>d \<in> set (clients w). sent w' d = sent w d @ [t]))"
proof -
  have I: "world_inv P [] w" by (rule reachable_inv [OF assms(1,2)])
  have a: "accepts (ops w c) > 0" and w': "w' = exec P (Accepted c ec) w"
    using assms(3) by (auto simp: step_iff)
  obtain x where x: "heap w c = Some x" and c: "c \<notin> set (clients w)" and s: "sent w c = []"
    and q: "ops w c = no_ops\<lparr>accepts := 1\<rparr>" and u: "uuid x = random_uuid P (conn_index c)"
    by (rule pending_accept [OF I a])
  let ?b = "begun c (\<lambda>q. q\<lparr>accepts := accepts q - 1\<rparr>) w"
  have B: "world_inv P [c] ?b" "ops ?b c = no_ops" "heap ?b c = Some x"
    using inv_begun_accept [OF I a] q x by (simp_all add: world_simps no_ops_def)
  obtain t where t: "system_text P Disconnect (uuid x) (ticks ?b) = Inr t"
    and r: "release P c ?b = left c t ?b" by (rule release_last [OF assms(1) B])
  have "w' = left c t ?b" using w' exec_Accepted_fail [OF assms(1) I a assms(4)] r by simp
  moreover have "message_of_string (json P) junk t =
      Inr (message_system Disconnect (random_uuid P (conn_index c)) (clock P (ticks w)))"
    using system_text_decodes [OF assms(1) t, of junk] u by (simp add: world_simps)
  ultimately show ?thesis using c s by (auto simp: left_def world_simps)
qed

lemma failed_handshake_ghost_instance: "\<exists>t. message_of_string ref_json junk0 t =
      Inr (message_system Disconnect (nat_text 1) 1) \<and>
    sent (exec demo (Accepted bob End_Of_Stream) (opened demo demo2)) alice = [text_a, t]"
  using failed_handshake_ghost [OF demo_ok reach3 bob_fails, of junk0] by (simp add: world_simps)

section \<open>Messages\<close>

text \<open>C21: A well-formed message is sent to every member, its sender included, exactly once and to nobody
  else, as one text that decodes to a message with the same sender, action and contents; the members
  stay the same and the sender is read from again with an empty buffer.\<close>

theorem good_message_relayed:
  assumes "platform_ok P" and "reachable P w" and "step P w (Received c Success s junk) w'"
    and "message_of_string (json P) junk s = Inr m"
  shows "\<exists>t m'. message_of_string (json P) junk' t = Inr m' \<and>
    sender m' = sender m \<and> action m' = action m \<and> contents m' = contents m \<and>
    (\<forall>d. sent w' d = sent w d @ (if d \<in> set (clients w) then [t] else [])) \<and>
    clients w' = clients w \<and> reads (ops w' c) = 1 \<and> map_option buffer (heap w' c) = Some ''''"
proof -
  have I: "world_inv P [] w" by (rule reachable_inv [OF assms(1,2)])
  from assms(3) have r: "reads (ops w c) > 0" and w': "w' = exec P (Received c Success s junk) w"
    by (auto simp: step_iff)
  obtain x where x: "heap w c = Some x" and q: "reads (ops w c) = 1" by (rule pending_read [OF I r])
  have L: "json_laws (json P)" using assms(1) by (simp add: platform_ok_def)
  obtain t where t: "serialize (json P) m = Inr t" and d: "\<forall>k. message_of_string (json P) k t = Inr m"
    using codec.relay_text [OF L assms(4)] by blast
  have y: "reply P junk c s (arrived c s w) = post_all (set (clients w)) t (arrived c s w)"
    using assms(4) t by (simp add: reply_def world_simps)
  show ?thesis
    by (rule exI [of _ t], rule exI [of _ m])
       (use d x q in \<open>simp add: w' exec_Received_ok(1) [OF assms(1) I r] y world_simps\<close>)
qed

lemma alice_says: "step demo demo4 (Received alice Success said junk0)
    (exec demo (Received alice Success said junk0) demo4)"
  by (simp add: step_iff)

theorem good_message_relayed_witness: "\<exists>t m. message_of_string ref_json junk0 t = Inr m \<and>
    sender m = sender said_message \<and> action m = Chat \<and> contents m = contents said_message \<and>
    sent (exec demo (Received alice Success said junk0) demo4) bob = [text_b, t]"
proof -
  have "message_of_string (json demo) junk0 said = Inr said_message" using said_message by simp
  from good_message_relayed [OF demo_ok reach4 alice_says this, of junk0] obtain t m where
    m: "message_of_string ref_json junk0 t = Inr m" "sender m = sender said_message"
      "action m = Chat" "contents m = contents said_message"
    and d: "\<forall>d. sent (exec demo (Received alice Success said junk0) demo4) d =
      sent demo4 d @ (if d \<in> set (clients demo4) then [t] else [])"
    by (auto simp: said_message_def)
  have "sent (exec demo (Received alice Success said junk0) demo4) bob = [text_b, t]"
    using d by simp
  with m show ?thesis by blast
qed

text \<open>The server does not put the time of receipt into what it relays: the clock is not read, and the
  text carries the timestamp that was read from the client.\<close>

lemma relayed_timestamp_kept:
  assumes "platform_ok P" and "reachable P w" and "step P w (Received c Success s junk) w'"
    and "message_of_string (json P) junk s = Inr m" and "c \<in> set (clients w)"
  shows "ticks w' = ticks w \<and>
    (\<exists>t m'. sent w' c = sent w c @ [t] \<and> message_of_string (json P) junk' t = Inr m' \<and>
      timestamp m' = timestamp m)"
proof -
  have I: "world_inv P [] w" by (rule reachable_inv [OF assms(1,2)])
  from assms(3) have r: "reads (ops w c) > 0" and w': "w' = exec P (Received c Success s junk) w"
    by (auto simp: step_iff)
  have L: "json_laws (json P)" using assms(1) by (simp add: platform_ok_def)
  obtain t where t: "serialize (json P) m = Inr t" and d: "\<forall>k. message_of_string (json P) k t = Inr m"
    using codec.relay_text [OF L assms(4)] by blast
  have y: "reply P junk c s (arrived c s w) = post_all (set (clients w)) t (arrived c s w)"
    using assms(4) t by (simp add: reply_def world_simps)
  show ?thesis
    using d assms(5) by (simp add: w' exec_Received_ok(1) [OF assms(1) I r] y world_simps)
qed

text \<open>C22: A malformed message is answered to its sender alone, with one error message that carries the
  time; nobody else is sent anything, and nothing changes for any other connection, neither its object
  nor whether it is a member.\<close>

theorem bad_message_answered:
  assumes "platform_ok P" and "reachable P w" and "step P w (Received c Success s junk) w'"
    and "message_of_string (json P) junk s = Inl err"
  shows "\<exists>t. message_of_string (json P) junk' t =
      Inr (message_system Error ''bad message'' (clock P (ticks w))) \<and>
    sent w' c = sent w c @ [t] \<and>
    (\<forall>d. d \<noteq> c \<longrightarrow> sent w' d = sent w d \<and> heap w' d = heap w d \<and>
      (d \<in> set (clients w') \<longleftrightarrow> d \<in> set (clients w)))"
proof -
  have I: "world_inv P [] w" by (rule reachable_inv [OF assms(1,2)])
  from assms(3) have r: "reads (ops w c) > 0" and w': "w' = exec P (Received c Success s junk) w"
    by (auto simp: step_iff)
  obtain x where x: "heap w c = Some x" and q: "reads (ops w c) = 1" by (rule pending_read [OF I r])
  have "ascii ''bad message''" by (simp add: ascii_def)
  then obtain t where t: "system_text P Error ''bad message'' (ticks w) = Inr t"
    using system_text_ok [OF assms(1), of Error] by (metis named.simps(5))
  have y: "reply P junk c s (arrived c s w) = post_all {c} t (tick (arrived c s w))"
    using assms(4) t by (simp add: reply_def world_simps)
  show ?thesis
    by (rule exI [of _ t])
       (use system_text_decodes [OF assms(1) t] x q in
         \<open>auto simp: w' exec_Received_ok(1) [OF assms(1) I r] y world_simps\<close>)
qed

lemma alice_babbles: "step demo demo4 (Received alice Success ''hi'' junk0)
    (exec demo (Received alice Success ''hi'' junk0) demo4)"
  by (simp add: step_iff)

lemma babble: "isl (message_of_string ref_json junk0 ''hi'')"
  by code_simp

theorem bad_message_answered_witness:
  "sent (exec demo (Received alice Success ''hi'' junk0) demo4) bob = [text_b]"
proof -
  obtain e where e: "message_of_string (json demo) junk0 ''hi'' = Inl e"
    using babble by (auto simp: isl_def)
  from bad_message_answered [OF demo_ok reach4 alice_babbles e, of junk0]
  have "sent (exec demo (Received alice Success ''hi'' junk0) demo4) bob = sent demo4 bob"
    by (elim exE conjE) simp
  then show ?thesis by simp
qed

text \<open>The connection of a malformed message is not closed: it stays a member and is read from again.\<close>

lemma bad_message_keeps_connection:
  assumes "platform_ok P" and "reachable P w" and "step P w (Received c Success s junk) w'"
    and "message_of_string (json P) junk s = Inl err"
  shows "clients w' = clients w \<and> reads (ops w' c) = 1 \<and> map_option buffer (heap w' c) = Some ''''"
proof -
  have I: "world_inv P [] w" by (rule reachable_inv [OF assms(1,2)])
  from assms(3) have r: "reads (ops w c) > 0" and w': "w' = exec P (Received c Success s junk) w"
    by (auto simp: step_iff)
  obtain x where x: "heap w c = Some x" and q: "reads (ops w c) = 1" by (rule pending_read [OF I r])
  have "ascii ''bad message''" by (simp add: ascii_def)
  then obtain t where t: "system_text P Error ''bad message'' (ticks w) = Inr t"
    using system_text_ok [OF assms(1), of Error] by (metis named.simps(5))
  have y: "reply P junk c s (arrived c s w) = post_all {c} t (tick (arrived c s w))"
    using assms(4) t by (simp add: reply_def world_simps)
  show ?thesis using x q by (simp add: w' exec_Received_ok(1) [OF assms(1) I r] y world_simps)
qed

text \<open>The server relays what it is told: any text the codec can write, with any sender, action
  and timestamp, is sent to every member unchanged when a client sends it, so a client can speak as
  anybody, as the system too.\<close>

lemma relayed_verbatim:
  assumes "platform_ok P" and "reachable P w" and "step P w (Received c Success t junk) w'"
    and "serialize (json P) m = Inr t"
  shows "sent w' d = sent w d @ (if d \<in> set (clients w) then [t] else [])"
proof -
  have I: "world_inv P [] w" by (rule reachable_inv [OF assms(1,2)])
  from assms(3) have r: "reads (ops w c) > 0" and w': "w' = exec P (Received c Success t junk) w"
    by (auto simp: step_iff)
  have "message_of_string (json P) junk t = Inr m"
    using codec.decode_encode [of "json P"] assms(1,4) by (simp add: platform_ok_def)
  then have "reply P junk c t (arrived c t w) = post_all (set (clients w)) t (arrived c t w)"
    using assms(4) by (simp add: reply_def world_simps)
  then show ?thesis by (simp add: w' exec_Received_ok(1) [OF assms(1) I r] world_simps)
qed

text \<open>Alice sends the connect message of Bob again.\<close>

lemma alice_spoofs: "step demo demo4 (Received alice Success text_b junk0)
    (exec demo (Received alice Success text_b junk0) demo4)"
  by (simp add: step_iff)

lemma relayed_verbatim_instance:
  "sent (exec demo (Received alice Success text_b junk0) demo4) bob = [text_b, text_b]"
  using relayed_verbatim [OF demo_ok reach4 alice_spoofs, of _ bob] text_b
  by (simp add: system_text_def)

section \<open>Delivery\<close>

text \<open>What reached the socket of any connection, dead ones included, is a prefix of what was sent
  to it.\<close>

lemma wire_is_prefix:
  assumes "platform_ok P" and "reachable P w"
  shows "prefix (wire w c) (sent w c)"
  using wires.reach_inv [OF assms(2)] assms(1) by (simp add: wire_prefix_def)

text \<open>C35: After a failed write a connection never writes again: whatever happens later, its socket gets
  nothing more, because the text stays at the front of its queue and every later one finds the queue
  not empty.\<close>

theorem failed_write_silences:
  assumes "platform_ok P" and "reachable P w" and "run P (Written c ec # es) w = Some w'"
    and "ec \<noteq> Success"
  shows "wire w' c = wire w c \<and> writes (ops w' c) = []"
proof -
  have I: "world_inv P [] w" by (rule reachable_inv [OF assms(1,2)])
  have p: "writes (ops w c) \<noteq> []" and r: "run P es (exec P (Written c ec) w) = Some w'"
    using assms(3) by (auto split: if_splits)
  obtain x t ts where x: "heap w c = Some x" "writes (ops w c) = [t]" "queue x = t # ts"
    by (rule pending_write [OF I p])
  let ?b = "begun c (\<lambda>q. q\<lparr>writes := tl (writes q)\<rparr>) w"
  note B = exec_Written_fail [OF assms(1) I p assms(4)]
  note fr = release_frame [OF assms(1) B(2)]
  have "conn_index c < next_conn w"
    using x(1) invD(8) [OF I, of "conn_index c"] by (cases c) (auto simp: not_less [symmetric])
  then have "frozen c (exec P (Written c ec) w)"
    using fr(1) fr(5) fr(6) [of c] B(1) x
    by (auto simp: frozen_def stalled_def world_simps split: option.splits)
  moreover have W: "world_inv P [] (exec P (Written c ec) w)"
    by (rule exec_inv [OF assms(1) I]) (simp add: p)
  ultimately have f: "frozen c w'" "wire w' c = wire (exec P (Written c ec) w) c"
    using run_frozen [OF assms(1) W r] by simp_all
  have "writes (ops w' c) = []"
    using f(1) invD(6) [OF run_inv [OF assms(1) W r], of c]
    by (auto simp: frozen_def stalled_def no_ops_def split: option.splits)
  then show ?thesis using f(2) fr(2) B(1) by (simp add: world_simps)
qed

lemma write_fails: "run demo [Written alice (Other_Error ''reset'')] demo5 =
    Some (exec demo (Written alice (Other_Error ''reset'')) demo5)"
  by simp

theorem failed_write_silences_witness:
  "writes (ops (exec demo (Written alice (Other_Error ''reset'')) demo5) alice) = []"
  using failed_write_silences [OF demo_ok reach5 write_fails] by simp

text \<open>C19: Everything can be delivered: while a member reads and no write of it failed, the
  completion of its own posted calls and then of its writes, \<open>drain\<close> in length \<open>2 p + q\<close> for \<open>p\<close> posted
  and \<open>q\<close> queued texts, brings everything that was sent to it to its socket.\<close>

theorem outbox_drains:
  assumes "platform_ok P" and "reachable P w" and "heap w c = Some x" and "reads (ops w c) = 1"
    and "queue x = [] \<or> writes (ops w c) \<noteq> []"
  shows "\<exists>w'. run P (drain c x (ops w c)) w = Some w' \<and> wire w' c = sent w c"
  using drain_run [OF assms(1) reachable_inv [OF assms(1,2)] assms(3,4)] assms(5)
  by (auto simp: stalled_def)

theorem outbox_drains_witness:
  "\<exists>w'. run demo [Posted alice, Posted alice, Written alice Success, Written alice Success] demo4 = Some w' \<and>
     wire w' alice = [text_a, text_b]"
  using outbox_drains [OF demo_ok reach4, of alice "obj 0 []"]
  by (simp add: drain_def numeral_2_eq_2)

section \<open>The server\<close>

text \<open>When the server's set is sound, a sequence of broadcasts reaches every member that is alive
  with each text once, in order, and nobody else, and leaves the membership alone.\<close>

lemma broadcasts_reach_all:
  assumes "no_dangling w"
  shows "\<exists>w'. each broadcast_msg_text ts w = (Inr (), w') \<and> clients w' = clients w \<and>
    (\<forall>d. sent w' d = sent w d @ (if d \<in> set (clients w) \<and> use_count w d > 0 then ts else []))"
  using notices.broadcasts_in_order [OF assms, of ts] by blast

lemma broadcasts_reach_all_instance:
  "\<exists>w'. each broadcast_msg_text [''x'', ''y''] demo4 = (Inr (), w') \<and>
     sent w' bob = [text_b, ''x'', ''y'']"
  using broadcasts_reach_all [of demo4 "[''x'', ''y'']"] invD(3) [OF inv4]
  by (auto simp: use_count_def op_count_def)

text \<open>A pointer left in the set after its object is gone makes the next broadcast undefined, so
  the destructor has to erase it.\<close>

lemma stale_pointer_undefined:
  assumes "c \<in> set (clients w)" and "heap w c = None"
  shows "\<exists>w'. broadcast_msg_text t w = (Inl (Undefined_Behaviour ''dangling WsConn''), w')"
  using broadcast_dangling [OF assms, of t] by (simp add: broadcast_msg_text_def seq_def comp_simps)

text \<open>Connections are told apart: if the generator does not repeat itself, no two live connections
  have the same identifier.\<close>

lemma identifiers_differ:
  assumes "platform_ok P" and "reachable P w" and "inj (random_uuid P)"
    and "heap w c = Some x" and "heap w d = Some y" and "uuid x = uuid y"
  shows "c = d"
proof -
  have I: "world_inv P [] w" by (rule reachable_inv [OF assms(1,2)])
  have "random_uuid P (conn_index c) = random_uuid P (conn_index d)"
    using invD(4) [OF I assms(4)] invD(4) [OF I assms(5)] assms(6) by (simp add: obj_inv_def)
  then show ?thesis using injD [OF assms(3)] by (cases c; cases d) auto
qed

end
