(* ===== verification/Message_Split.thy ===== *)
theory Message_Split
  imports Messages
begin

text \<open>
  The message code split into \<open>include/message.hpp\<close> (declarations) and \<open>include/message.cpp\<close>
  (definitions), a second implementation of \<open>wschat-cpp/message.hpp\<close> beside the one the server is built
  with. It is translated on its own here, with its own types, and then compared with the code of
  \<open>Messages\<close>: both write and read the same texts, so a program built with either talks to one built with
  the other. The header does not declare the constructor from two strings that \<open>message.cpp\<close> defines;
  it is translated as it is defined there.
\<close>

section \<open>Types and constructors\<close>

datatype split_action = SConnect | SChat | SDisconnect | SError | SUnnamed int

record split_message =
  s_sender :: string
  s_action :: split_action
  s_contents :: string
  s_timestamp :: "64 word"

definition split_get_timestamp :: "int \<Rightarrow> 64 word" where
  "split_get_timestamp now = word_of_int now"

definition invalid_action_error :: "string \<Rightarrow> exn" where
  "invalid_action_error err = Invalid_Action err"

definition json_error :: "exn \<Rightarrow> exn" where
  "json_error err = JSON_Error (what err)"

definition split_max_action_str_len :: nat where
  "split_max_action_str_len = 10"

fun split_action_str :: "split_action \<Rightarrow> exn + string" where
  "split_action_str SConnect = Inr ''connect''"
| "split_action_str SChat = Inr ''chat''"
| "split_action_str SDisconnect = Inr ''disconnect''"
| "split_action_str SError = Inr ''error''"
| "split_action_str (SUnnamed n) = Inl (invalid_action_error ''shouldn't be reached'')"

definition split_action_from_string :: "string \<Rightarrow> exn + split_action" where
  "split_action_from_string sv =
     (if sv = ''connect'' then Inr SConnect
      else if sv = ''chat'' then Inr SChat
      else if sv = ''disconnect'' then Inr SDisconnect
      else if sv = ''error'' then Inr SError
      else Inl (invalid_action_error (''invalid action: '' @ sv)))"

definition split_message_default :: split_message where
  "split_message_default = \<lparr>s_sender = '''', s_action = SError, s_contents = '''', s_timestamp = 0\<rparr>"

definition split_message_system :: "split_action \<Rightarrow> string \<Rightarrow> int \<Rightarrow> split_message" where
  "split_message_system a c now =
     \<lparr>s_sender = ''system'', s_action = a, s_contents = c, s_timestamp = split_get_timestamp now\<rparr>"

definition split_message_chat :: "string \<Rightarrow> string \<Rightarrow> int \<Rightarrow> split_message" where
  "split_message_chat s c now =
     \<lparr>s_sender = s, s_action = SChat, s_contents = c, s_timestamp = split_get_timestamp now\<rparr>"

section \<open>The codec\<close>

definition split_to_json :: "'j json_lib \<Rightarrow> split_message \<Rightarrow> exn + 'j" where
  "split_to_json L m = (case split_action_str (s_action m) of
       Inl e \<Rightarrow> Inl e
     | Inr a \<Rightarrow> Inr (json_object L
         [(''sender'', of_string L (s_sender m)),
          (''action'', of_string L a),
          (''contents'', of_string L (s_contents m)),
          (''timestamp'', of_int64 L (s_timestamp m))]))"

definition split_from_json :: "'j json_lib \<Rightarrow> 'j \<Rightarrow> (split_message, unit) comp" where
  "split_from_json L j =
     seq (lift (at_string L j ''sender'')) (\<lambda>s.
     seq (modify (\<lambda>m. m\<lparr>s_sender := s\<rparr>)) (\<lambda>_.
     seq (if json_contains L j ''action''
          then seq (lift (at_string L j ''action'')) (\<lambda>t.
               seq (lift (split_action_from_string t)) (\<lambda>a. modify (\<lambda>m. m\<lparr>s_action := a\<rparr>)))
          else modify (\<lambda>m. m\<lparr>s_action := SChat\<rparr>)) (\<lambda>_.
     seq (if json_contains L j ''contents''
          then seq (lift (at_string L j ''contents'')) (\<lambda>c. modify (\<lambda>m. m\<lparr>s_contents := c\<rparr>))
          else ret ()) (\<lambda>_.
     if json_contains L j ''timestamp''
     then seq (lift (at_int64 L j ''timestamp'')) (\<lambda>t. modify (\<lambda>m. m\<lparr>s_timestamp := t\<rparr>))
     else ret ()))))"

definition split_deserialize :: "'j json_lib \<Rightarrow> string \<Rightarrow> (split_message, unit) comp" where
  "split_deserialize L sv =
     catch_std (seq (lift (json_parse L sv)) (\<lambda>msg_json. split_from_json L msg_json))
       (\<lambda>e. raise (json_error e))"

definition split_serialize :: "'j json_lib \<Rightarrow> split_message \<Rightarrow> exn + string" where
  "split_serialize L m =
     (case (case split_to_json L m of Inl e \<Rightarrow> Inl e | Inr msg_json \<Rightarrow> json_dump L msg_json) of
        Inl e \<Rightarrow> if std_exception e then Inl (json_error e) else Inl e
      | Inr t \<Rightarrow> Inr t)"

text \<open>As in \<open>Messages\<close>, the constructor from a text starts from indeterminate members.\<close>

definition split_message_of_string ::
  "'j json_lib \<Rightarrow> split_action \<Rightarrow> 64 word \<Rightarrow> string \<Rightarrow> exn + split_message" where
  "split_message_of_string L junk_a junk_t sv =
     (case split_deserialize L sv \<lparr>s_sender = '''', s_action = junk_a, s_contents = '''',
                                   s_timestamp = junk_t\<rparr> of
        (Inl e, _) \<Rightarrow> Inl e
      | (Inr _, m) \<Rightarrow> Inr m)"

section \<open>The two implementations\<close>

text \<open>The same message as a value of the other implementation.\<close>

fun built_action :: "split_action \<Rightarrow> action" where
  "built_action SConnect = Connect"
| "built_action SChat = Chat"
| "built_action SDisconnect = Disconnect"
| "built_action SError = Error"
| "built_action (SUnnamed n) = Unnamed n"

fun split_of_action :: "action \<Rightarrow> split_action" where
  "split_of_action Connect = SConnect"
| "split_of_action Chat = SChat"
| "split_of_action Disconnect = SDisconnect"
| "split_of_action Error = SError"
| "split_of_action (Unnamed n) = SUnnamed n"

definition built :: "split_message \<Rightarrow> message" where
  "built m = \<lparr>sender = s_sender m, action = built_action (s_action m), contents = s_contents m,
     timestamp = s_timestamp m\<rparr>"

definition split_of :: "message \<Rightarrow> split_message" where
  "split_of m = \<lparr>s_sender = sender m, s_action = split_of_action (action m), s_contents = contents m,
     s_timestamp = timestamp m\<rparr>"

lemma built_action_inverse [simp]:
  "built_action (split_of_action a) = a" "split_of_action (built_action b) = b"
  by (cases a; simp) (cases b; simp)

lemma built_inverse [simp]: "built (split_of m) = m" "split_of (built n) = n"
  by (simp_all add: built_def split_of_def)

lemma built_simps [simp]:
  "built \<lparr>s_sender = s, s_action = a, s_contents = c, s_timestamp = t\<rparr> =
     \<lparr>sender = s, action = built_action a, contents = c, timestamp = t\<rparr>"
  "sender (built m) = s_sender m" "action (built m) = built_action (s_action m)"
  "contents (built m) = s_contents m" "timestamp (built m) = s_timestamp m"
  by (simp_all add: built_def)

lemma built_updates [simp]:
  "built (m\<lparr>s_sender := s\<rparr>) = (built m)\<lparr>sender := s\<rparr>"
  "built (m\<lparr>s_action := a\<rparr>) = (built m)\<lparr>action := built_action a\<rparr>"
  "built (m\<lparr>s_contents := s\<rparr>) = (built m)\<lparr>contents := s\<rparr>"
  "built (m\<lparr>s_timestamp := t\<rparr>) = (built m)\<lparr>timestamp := t\<rparr>"
  by (simp_all add: built_def)

lemma built_action_str: "action_str (built_action a) = split_action_str a"
  by (cases a) (simp_all add: invalid_action_error_def)

lemma built_action_from_string:
  "action_from_string s = map_sum id built_action (split_action_from_string s)"
  by (simp add: action_from_string_def split_action_from_string_def invalid_action_error_def)

lemma built_to_json: "to_json L (built m) = split_to_json L m"
  by (simp add: to_json_def split_to_json_def built_action_str split: sum.split)

lemma built_serialize: "serialize L (built m) = split_serialize L m"
  by (simp add: serialize_def split_serialize_def built_to_json json_error_def split: sum.split)

lemma built_from_json: "from_json L j (built m) = apsnd built (split_from_json L j m)"
  by (auto simp: from_json_def split_from_json_def seq_def lift_def modify_def ret_def
      built_action_from_string split: sum.splits)

lemma built_deserialize: "deserialize L sv (built m) = apsnd built (split_deserialize L sv m)"
  by (auto simp: deserialize_def split_deserialize_def catch_std_def seq_def lift_def raise_def
      built_from_json json_error_def split: sum.splits prod.splits)

lemma built_message_of_string:
  "message_of_string L \<lparr>junk_action = built_action a, junk_timestamp = n\<rparr> sv =
     map_sum id built (split_message_of_string L a n sv)"
  using built_deserialize [of L sv "\<lparr>s_sender = '''', s_action = a, s_contents = '''', s_timestamp = n\<rparr>"]
  by (auto simp: message_of_string_def split_message_of_string_def split: sum.splits prod.splits)

text \<open>So the split code keeps the contract of the codec, too.\<close>

lemma split_message_of_string_Inr:
  "split_message_of_string L a n sv = Inr m \<longleftrightarrow>
     message_of_string L \<lparr>junk_action = built_action a, junk_timestamp = n\<rparr> sv = Inr (built m)"
  by (cases "split_message_of_string L a n sv")
     (auto simp: built_message_of_string dest: arg_cong [where f = split_of])

lemma split_message_of_string_Inl:
  "split_message_of_string L a n sv = Inl e \<longleftrightarrow>
     message_of_string L \<lparr>junk_action = built_action a, junk_timestamp = n\<rparr> sv = Inl e"
  by (cases "split_message_of_string L a n sv") (auto simp: built_message_of_string)

interpretation split_codec: text_codec "json_laws L" "split_serialize L"
  "\<lambda>(a, n). split_message_of_string L a n" for L :: "'j json_lib"
proof
  fix m t e and k :: "split_action \<times> 64 word"
  obtain a n where k: "k = (a, n)" by (cases k)
  assume L: "json_laws L"
  show "split_serialize L m = Inr t \<Longrightarrow> (case k of (a, n) \<Rightarrow> split_message_of_string L a n) t = Inr m"
    using codec.decode_encode [OF L] by (simp add: k split_message_of_string_Inr flip: built_serialize)
  show "(case k of (a, n) \<Rightarrow> split_message_of_string L a n) t = Inr m \<Longrightarrow> \<exists>t'. split_serialize L m = Inr t'"
    using codec.encode_decoded [OF L] by (simp add: k split_message_of_string_Inr flip: built_serialize)
  show "split_serialize L m = Inl e \<Longrightarrow> std_exception e"
    using codec.encode_std [OF L] by (simp flip: built_serialize)
  show "(case k of (a, n) \<Rightarrow> split_message_of_string L a n) t = Inl e \<Longrightarrow> std_exception e"
    using codec.decode_std [OF L] by (simp add: k split_message_of_string_Inl)
qed

end
