(* ===== verification/Codec_Properties.thy ===== *)
theory Codec_Properties
  imports Demo Message_Split
begin

text \<open>
  The properties of the message format: what can be written, what can be read, and what a message
  looks like after a failure to read.
\<close>

text \<open>C32: Reading a written message gives the message back, whatever the object held before.\<close>

theorem codec_roundtrip:
  assumes "json_laws L" and "serialize L m = Inr t"
  shows "deserialize L t m0 = (Inr (), m)"
  by (rule deserialize_serialize [OF assms])

theorem codec_roundtrip_witness: "deserialize ref_json relayed message_default = (Inr (), said_message)"
  by (rule codec_roundtrip [OF ref_laws relayed])

text \<open>A message can be written exactly when its action is one of the four names and its sender and
  contents are texts the JSON library accepts; otherwise the failure is a JSONError, whatever the
  library threw.\<close>

lemma serialize_exactly:
  assumes "json_laws L"
  shows "case serialize L m of
      Inr t \<Rightarrow> named (action m) \<and> dumpable L (sender m) \<and> dumpable L (contents m)
    | Inl e \<Rightarrow> (\<exists>w. e = JSON_Error w) \<and>
        \<not> (named (action m) \<and> dumpable L (sender m) \<and> dumpable L (contents m))"
  using serialize_ok_iff [OF assms, of m] serialize_error [OF assms, of m]
  by (auto split: sum.splits)

lemma serialize_exactly_instance:
  "\<exists>w. serialize ref_json (said_message\<lparr>action := Unnamed 7\<rparr>) = Inl (JSON_Error w)"
  using serialize_exactly [OF ref_laws, of "said_message\<lparr>action := Unnamed 7\<rparr>"]
  by (auto split: sum.splits)

text \<open>C33: Whatever text a client sends, reading it either fails with a JSONError or gives a message with
  a named action that can be written, and whose written form any reader reads as the same message.\<close>

theorem read_is_total:
  assumes "json_laws L"
  shows "case message_of_string L junk sv of
      Inl e \<Rightarrow> \<exists>w. e = JSON_Error w
    | Inr m \<Rightarrow> named (action m) \<and>
        (\<exists>t. serialize L m = Inr t \<and> message_of_string L junk' t = Inr m)"
proof (cases "message_of_string L junk sv")
  case (Inl e)
  then show ?thesis using message_of_string_error [OF assms Inl] by simp
next
  case (Inr m)
  then obtain t where "serialize L m = Inr t" "message_of_string L junk' t = Inr m"
    using codec.relay_text [OF assms Inr] by blast
  then show ?thesis using Inr serialize_ok_iff [OF assms, of m] by auto
qed

theorem read_is_total_witness: "named (action said_message)"
  using read_is_total [OF ref_laws, where junk = junk0 and sv = said] said_message by simp

text \<open>Reading is not atomic: when the action of a text is not one of the four names, the sender
  has already been replaced and the rest of the message is as before.\<close>

lemma failed_read_keeps_sender:
  assumes "json_parse L sv = Inr j" and "at_string L j ''sender'' = Inr s"
    and "json_contains L j ''action''" and "at_string L j ''action'' = Inr a"
    and "\<And>x. action_str x \<noteq> Inr a"
  shows "deserialize L sv m = (Inl (JSON_Error (''invalid action: '' @ a)), m\<lparr>sender := s\<rparr>)"
proof -
  have "action_from_string a = Inl (Invalid_Action (''invalid action: '' @ a))"
  proof (cases "action_from_string a")
    case (Inl e)
    then show ?thesis by (simp add: action_from_string_def split: if_splits)
  next
    case (Inr x)
    then show ?thesis using assms(5) [of x] by (simp add: action_from_string_iff)
  qed
  then show ?thesis using assms(1-4) by (simp add: deserialize_run from_json_run)
qed

text \<open>A text without a sender is rejected and leaves the message as it was, whatever else it
  holds.\<close>

lemma sender_required:
  assumes "json_laws L" and "json_parse L sv = Inr j" and "at_string L j ''sender'' = Inl e"
  shows "deserialize L sv m = (Inl (JSON_Error (what e)), m) \<and>
    message_of_string L junk sv = Inl (JSON_Error (what e))"
  using assms(2,3) json_laws_std(3) [OF assms(1) assms(3)]
  by (simp add: message_of_string_def deserialize_run from_json_run)

definition anonymous :: jval where
  "anonymous = JObj [(''contents'', JStr ''hi'')]"

lemma anonymous_parse: "json_parse ref_json ''{\"contents\":\"hi\"}'' = Inr anonymous"
  by code_simp

lemma anonymous_sender: "isl (at_string ref_json anonymous ''sender'')"
  by code_simp

lemma sender_required_instance:
  "\<exists>w. message_of_string ref_json junk0 ''{\"contents\":\"hi\"}'' = Inl (JSON_Error w)"
proof -
  obtain e where "at_string ref_json anonymous ''sender'' = Inl e"
    using anonymous_sender by (auto simp: isl_def)
  from sender_required [OF ref_laws anonymous_parse this] show ?thesis by blast
qed

text \<open>The other members are optional: without an action the message is a chat, without contents it
  is empty, but without a timestamp it keeps whatever the storage of the new message held.\<close>

lemma optional_members:
  assumes "json_parse L sv = Inr j" and "at_string L j ''sender'' = Inr s"
    and "\<not> json_contains L j ''action''" and "\<not> json_contains L j ''contents''"
    and "\<not> json_contains L j ''timestamp''"
  shows "message_of_string L junk sv =
    Inr \<lparr>sender = s, action = Chat, contents = '''', timestamp = junk_timestamp junk\<rparr>"
  using assms by (simp add: message_of_string_def deserialize_run from_json_run)

definition terse :: jval where
  "terse = JObj [(''sender'', JStr ''bob'')]"

lemma terse_parts:
  "json_parse ref_json ''{\"sender\":\"bob\"}'' = Inr terse"
  "at_string ref_json terse ''sender'' = Inr ''bob''"
  "\<not> json_contains ref_json terse ''action''" "\<not> json_contains ref_json terse ''contents''"
  "\<not> json_contains ref_json terse ''timestamp''"
  by code_simp+

lemma optional_members_instance:
  "message_of_string ref_json junk0 ''{\"sender\":\"bob\"}'' =
     Inr \<lparr>sender = ''bob'', action = Chat, contents = '''', timestamp = 7\<rparr>"
  using optional_members [OF terse_parts, of junk0] by (simp add: junk0_def)

text \<open>C34: The message code split over message.cpp and its header is the same program as message.hpp: for
  every message, every text and every library it writes and reads the same, errors included, and its
  constructors make the same messages.\<close>

theorem copies_agree:
  "split_serialize L m = serialize L (built m) \<and>
   map_sum id built (split_message_of_string L a n sv) =
     message_of_string L \<lparr>junk_action = built_action a, junk_timestamp = n\<rparr> sv \<and>
   apsnd built (split_deserialize L sv m) = deserialize L sv (built m) \<and>
   built (split_message_system b c now) = message_system (built_action b) c now \<and>
   built (split_message_chat s c now) = message_chat s c now \<and>
   built split_message_default = message_default \<and>
   split_max_action_str_len = max_action_str_len"
  by (simp add: built_serialize built_message_of_string built_deserialize split_message_system_def
      message_system_def split_message_chat_def message_chat_def split_message_default_def
      message_default_def split_get_timestamp_def get_timestamp_def split_max_action_str_len_def
      max_action_str_len_def)

text \<open>A text one of the two implementations writes is read by the other as the same message, whatever
  its storage held before.\<close>

lemma copies_interoperate:
  assumes "json_laws L"
  shows "(split_serialize L m = Inr t \<longrightarrow> message_of_string L junk t = Inr (built m)) \<and>
    (serialize L m' = Inr t \<longrightarrow> split_message_of_string L a n t = Inr (split_of m'))"
  using codec.decode_encode [OF assms]
  by (simp add: split_message_of_string_Inr flip: built_serialize)

lemma copies_interoperate_instance:
  "split_message_of_string ref_json SError 7 relayed = Inr (split_of said_message)"
  using copies_interoperate [OF ref_laws, where m' = said_message and t = relayed] relayed by simp

text \<open>The names of the actions are a bijection between the four actions and the four texts the
  reader accepts, each no longer than the declared maximum.\<close>

lemma action_names:
  "action_from_string s = Inr a \<longleftrightarrow> action_str a = Inr s \<and> named a \<and> length s \<le> max_action_str_len"
  using action_from_string_iff action_str_named action_str_length by blast

end
