(* ===== verification/Http_Properties.thy ===== *)
theory Http_Properties
  imports Demo
begin

text \<open>
  The properties of the process around the chat: its HTTP sessions, its listener, and that no order
  of events of any of them breaks the chat.
\<close>

section \<open>A run for the witnesses\<close>

definition plain :: http_request where
  "plain = \<lparr>target = ''/'', version = 11, keep_alive = False, is_upgrade = False\<rparr>"

definition upgrade :: http_request where
  "upgrade = \<lparr>target = ''/'', version = 11, keep_alive = True, is_upgrade = True\<rparr>"

abbreviation "first \<equiv> Sess 0"

definition served :: system where
  "served = put_session first (fresh_session (Strand 0)) (booted Success Success Success Success)
     \<lparr>next_sess := 1, accept_exec := Strand 1, next_strand := 2\<rparr>"

lemma booted_simps [simp]:
  "sessions (booted Success Success Success Success) = (\<lambda>_. None)"
  "next_sess (booted Success Success Success Success) = 0"
  "listener_accepts (booted Success Success Success Success) = 1"
  "accept_exec (booted Success Success Success Success) = Strand 0"
  "next_strand (booted Success Success Success Success) = 1"
  "listening (booted Success Success Success Success)"
  "gone (booted Success Success Success Success) = []"
  "\<not> stopped (booted Success Success Success Success)"
  by (simp_all add: booted_def listener_defs listener_new_def)

lemma booted_reach: "sys_reachable demo (booted Success Success Success Success)"
  by (rule reach_init) (auto simp: boot_state_def)

lemma served_step:
  "sys_step demo (booted Success Success Success Success) (Listener_Accepted Success) served"
proof -
  let ?b = "booted Success Success Success Success"
  have "sys_exec demo (Listener_Accepted Success) ?b = served"
    by (rule system.equality) (simp_all add: sys_exec_accepted served_def world_simps put_session_def)
  moreover have "sys_step demo ?b (Listener_Accepted Success) (sys_exec demo (Listener_Accepted Success) ?b)"
    by (rule sys_stepI) (simp_all add: world_simps world0_def)
  ultimately show ?thesis by simp
qed

lemma served_reach: "sys_reachable demo served"
  by (rule reach_step [OF booted_reach served_step])

lemma served_simps [simp]:
  "sessions served = [first \<mapsto> fresh_session (Strand 0)]" "chat served = world0" "\<not> stopped served"
  "next_sess served = 1" "listener_accepts served = 1" "gone served = []"
  by (simp_all add: served_def put_session_def world_simps)

lemma crash0 [simp]: "crash world0 = None" "next_conn world0 = 0"
  by (simp_all add: world0_def)

lemma upgrade_step: "sys_step demo served (Http_Read first Success upgrade)
    (sys_exec demo (Http_Read first Success upgrade) served)"
  by (rule sys_stepI) simp_all

section \<open>Sessions\<close>

lemma sys_invs:
  assumes "platform_ok P" and "sys_reachable P s"
  shows "world_inv P [] (chat s)" and "http_inv s" and "linked s"
  using whole.reach_inv [OF assms(2)] assms(1) by auto

text \<open>The answer a session is writing is that to the last request it read.\<close>

fun session_event :: "sess \<Rightarrow> sys_event \<Rightarrow> bool" where
  "session_event h (Http_Read g ec req) \<longleftrightarrow> g = h"
| "session_event h (Http_Written g ec) \<longleftrightarrow> g = h"
| "session_event h _ \<longleftrightarrow> False"

definition answers_last :: "sess \<Rightarrow> sys_event list \<Rightarrow> (http_response \<times> bool) list \<Rightarrow> bool" where
  "answers_last h es rs \<longleftrightarrow> (\<exists>gs req. filter (session_event h) es = gs @ [Http_Read h Success req] \<and>
     \<not> is_upgrade req \<and> rs = [(handle_request req, keep_alive req)])"

lemma answers_step:
  assumes H: "http_inv s" and e: "sys_enabled e s"
    and I: "\<And>x. sessions s h = Some x \<Longrightarrow> http_writes x \<noteq> [] \<Longrightarrow> answers_last h es (http_writes x)"
    and y: "sessions (sys_exec P e s) h = Some y" "http_writes y \<noteq> []"
  shows "answers_last h (es @ [e]) (http_writes y)"
proof (cases e)
  case (Listener_Accepted ec)
  then show ?thesis using I y
    by (cases "ec = Success") (auto simp: sys_exec_accepted answers_last_def world_simps split: if_splits)
next
  case (Http_Read g ec req)
  then obtain k where f: "sessions s g = Some (fresh_session k)" using read_enabled [OF H] e by metis
  consider "ec = Success" | "ec = End_Of_Stream" | "ec \<noteq> Success" "ec \<noteq> End_Of_Stream" by blast
  then show ?thesis
    using I y sys_exec_read [OF f, where P = P]
    by cases (auto simp: Http_Read answers_last_def world_simps split: if_splits)
next
  case (Http_Written g ec)
  then obtain k req where f: "sessions s g = Some ((fresh_session k)\<lparr>parser := Some Moved_From, http_reads := 0,
    http_writes := [(handle_request req, keep_alive req)]\<rparr>)" using write_enabled [OF H] e by metis
  show ?thesis
    using I y sys_exec_written [OF f, where P = P]
    by (cases "ec = Success") (auto simp: Http_Written answers_last_def world_simps split: if_splits)
qed (use I y in \<open>auto simp: answers_last_def\<close>)

lemma answers_run:
  "sys_run P es (booted a b c d) = Some s \<Longrightarrow> sessions s h = Some x \<Longrightarrow> http_writes x \<noteq> [] \<Longrightarrow>
     answers_last h es (http_writes x)"
proof (induction es arbitrary: s x rule: rev_induct)
  case Nil
  then show ?case by (auto simp: booted_def listener_defs listener_new_def listener_fail_def log_fail_def split: if_splits)
next
  case (snoc e es)
  then obtain s0 where s0: "sys_run P es (booted a b c d) = Some s0" "sys_run P [e] s0 = Some s"
    by (cases "sys_run P es (booted a b c d)") (auto simp: sys_run_append)
  have "sys_reachable P (booted a b c d)" by (rule reach_init) (auto simp: boot_state_def)
  then have H: "http_inv s0" using web.reach_inv sys_run_reachable [OF s0(1)] by blast
  have "sys_enabled e s0" "s = sys_exec P e s0" using s0(2) by (auto split: if_splits)
  then show ?case using answers_step [OF H, of e h es P x] snoc.IH [OF s0(1)] snoc.prems(2,3) by blast
qed

text \<open>C36: In every run of the process a live session has exactly one operation outstanding: a read into
  a fresh parser, or a write; its socket is neither shut nor given away. While it writes, the request
  was moved out of its parser, and what it writes is the answer to it: the last thing that happened to
  the session was that this request, which asked for no upgrade, was read.\<close>

theorem sessions_sound:
  assumes "sys_run P es (booted a b c d) = Some s" and "sessions s h = Some x"
  shows "http_reads x + length (http_writes x) = 1 \<and> \<not> send_shut x \<and> \<not> released x \<and>
    (http_reads x = 1 \<longrightarrow> parser x = Some Fresh) \<and>
    (\<forall>(r, ka) \<in> set (http_writes x). parser x = Some Moved_From \<and>
       (\<exists>gs req. filter (session_event h) es = gs @ [Http_Read h Success req] \<and> \<not> is_upgrade req \<and>
          r = handle_request req \<and> ka = keep_alive req))"
proof -
  have "sys_reachable P (booted a b c d)" by (rule reach_init) (auto simp: boot_state_def)
  then have k: "session_ok x"
    using http_invD(1) [OF web.reach_inv assms(2)] sys_run_reachable [OF assms(1)] by blast
  show ?thesis
    using k answers_run [OF assms] by (auto simp: session_ok_def answers_last_def)
qed

lemma plain_run: "sys_run demo [Listener_Accepted Success, Http_Read first Success plain]
    (booted Success Success Success Success) = Some (sys_exec demo (Http_Read first Success plain) served)"
proof -
  have "sys_run demo [Listener_Accepted Success] (booted Success Success Success Success) = Some served"
    using served_step by (auto simp: sys_step_iff)
  moreover have "sys_run demo [Http_Read first Success plain] served =
      Some (sys_exec demo (Http_Read first Success plain) served)" by simp
  ultimately show ?thesis
    using sys_run_append [of demo "[Listener_Accepted Success]" "[Http_Read first Success plain]"]
    by (simp del: sys_run.simps)
qed

theorem sessions_sound_witness:
  "\<exists>x. sessions (sys_exec demo (Http_Read first Success plain) served) first = Some x \<and>
     http_writes x = [(handle_request plain, False)] \<and> parser x = Some Moved_From"
proof -
  have f: "sessions served first = Some (fresh_session (Strand 0))" by simp
  let ?x = "(fresh_session (Strand 0))\<lparr>parser := Some Moved_From, http_reads := 0,
    http_writes := [(handle_request plain, False)]\<rparr>"
  have x: "sessions (sys_exec demo (Http_Read first Success plain) served) first = Some ?x"
    using sys_exec_read(1) [OF f, of demo plain] by (simp add: plain_def world_simps)
  show ?thesis using sessions_sound [OF plain_run x] x by simp
qed

lemma handle_request_answers:
  "res_version (handle_request req) = version req" "res_keep_alive (handle_request req) = keep_alive req"
  "content_type (handle_request req) = Some ''text/html''" "prepared (handle_request req)"
  "target req = ''/'' \<Longrightarrow> result (handle_request req) = Bad_Request \<and>
     HttpSession.body (handle_request req) = ''not websocket protocol''"
  "target req \<noteq> [] \<and> hd (target req) \<noteq> CHR ''/'' \<Longrightarrow>
     result (handle_request req) = Not_Found \<and> HttpSession.body (handle_request req) = ''''"
  by (auto simp: handle_request_def split: list.splits)

text \<open>C37: A plain request is answered: the answer has the version of the request and says whether the
  connection is kept, as the client asked; the base path is answered with status 400 and a note that this
  is not the websocket protocol, and a target that is not a path with status 404. When the answer is
  written the session reads the next request if the client asked to keep the connection, and shuts its
  socket down and ends otherwise.\<close>

theorem plain_request_answered:
  assumes "platform_ok P" and "sys_reachable P s" and "\<not> stopped s"
    and "sessions s h = Some x" and "http_reads x > 0" and "\<not> is_upgrade req"
  shows "\<exists>s1 s2 y r. sys_run P [Http_Read h Success req] s = Some s1 \<and> sessions s1 h = Some y \<and>
    http_writes y = [(r, keep_alive req)] \<and> res_version r = version req \<and>
    res_keep_alive r = keep_alive req \<and> content_type r = Some ''text/html'' \<and> prepared r \<and>
    (target req = ''/'' \<longrightarrow> result r = Bad_Request \<and> HttpSession.body r = ''not websocket protocol'') \<and>
    (target req \<noteq> [] \<and> hd (target req) \<noteq> CHR ''/'' \<longrightarrow> result r = Not_Found \<and> HttpSession.body r = '''') \<and>
    sys_run P [Http_Written h Success] s1 = Some s2 \<and>
    (if keep_alive req then sessions s2 h = Some x \<and> gone s2 = gone s
     else sessions s2 h = None \<and> send_shut (snd (last (gone s2))))"
proof -
  note inv = sys_invs [OF assms(1,2)]
  obtain k where x: "x = fresh_session k" using reading [OF http_invD(1) [OF inv(2) assms(4)] assms(5)] by blast
  then have f: "sessions s h = Some (fresh_session k)" using assms(4) by simp
  let ?y = "(fresh_session k)\<lparr>parser := Some Moved_From, http_reads := 0,
              http_writes := [(handle_request req, keep_alive req)]\<rparr>"
  let ?s1 = "put_session h ?y s"
  have e1: "sys_exec P (Http_Read h Success req) s = ?s1"
    using sys_exec_read(1) [OF f, of P req] assms(6) by simp
  have c: "crash (chat s) = None" by (rule invD(1) [OF inv(1)])
  have r1: "sys_run P [Http_Read h Success req] s = Some ?s1"
    using assms(3-5) e1 c by simp
  have y: "sessions ?s1 h = Some ?y" by (simp add: world_simps)
  have r2: "sys_run P [Http_Written h Success] ?s1 = Some (sys_exec P (Http_Written h Success) ?s1)"
    using assms(3) c by (simp add: world_simps)
  obtain s2 where s2: "sys_run P [Http_Written h Success] ?s1 = Some s2"
    "if keep_alive req then sessions s2 h = Some x \<and> gone s2 = gone s
     else sessions s2 h = None \<and> send_shut (snd (last (gone s2)))"
    using r2 unfolding sys_exec_written(1) [OF y, of P] by (rule that) (simp add: x world_simps)
  show ?thesis
    by (rule exI [of _ ?s1], rule exI [of _ s2], rule exI [of _ ?y], rule exI [of _ "handle_request req"])
       (use r1 y s2 handle_request_answers [of req] in \<open>simp del: sys_run.simps\<close>)
qed

theorem plain_request_answered_witness:
  "\<exists>s1 y r. sys_run demo [Http_Read first Success plain] served = Some s1 \<and> sessions s1 first = Some y \<and>
     http_writes y = [(r, False)] \<and> result r = Bad_Request \<and> res_version r = 11"
proof -
  have r: "\<not> is_upgrade plain" "target plain = ''/''" "version plain = 11" "\<not> keep_alive plain"
    by (simp_all add: plain_def)
  have f: "sessions served first = Some (fresh_session (Strand 0))" by simp
  from plain_request_answered [OF demo_ok served_reach _ f _ r(1)] r(2-4) show ?thesis by fastforce
qed

text \<open>The comment in \<open>handle_request\<close> promises not found for anything that is not the base path; but no
  path is: whatever follows the slash, the answer is 400.\<close>

lemma paths_never_not_found: "target req = CHR ''/'' # p \<Longrightarrow> result (handle_request req) = Bad_Request"
  by (simp add: handle_request_def)

text \<open>An upgrade request ends its session and hands its socket to a new connection object, whose
  handshake is outstanding and which is not yet a member of the chat.\<close>

lemma upgrade_hands_over:
  assumes "platform_ok P" and "sys_reachable P s" and "sys_step P s (Http_Read h Success req) s'"
    and "is_upgrade req" and "c = Conn (next_conn (chat s))"
  shows "sessions s' h = None \<and> released (snd (last (gone s'))) \<and> heap (chat s) c = None \<and>
    heap (chat s') c \<noteq> None \<and> ops (chat s') c = no_ops\<lparr>accepts := 1\<rparr> \<and>
    c \<notin> set (clients (chat s')) \<and> next_conn (chat s') = Suc (next_conn (chat s))"
proof -
  note inv = sys_invs [OF assms(1,2)]
  have en: "sys_enabled (Http_Read h Success req) s" and s': "s' = sys_exec P (Http_Read h Success req) s"
    using assms(3) by (auto simp: sys_step_iff)
  obtain k where f: "sessions s h = Some (fresh_session k)" by (rule read_enabled [OF inv(2) en])
  have n: "heap (chat s) c = None" using invD(8) [OF inv(1), of "next_conn (chat s)"] assms(5) by simp
  then have "c \<notin> set (clients (chat s))" using invD(11) [OF inv(1)] by blast
  then show ?thesis
    using n assms(4,5) sys_exec_read(1) [OF f, of P req] exec_Open [OF inv(1)]
    by (simp add: s' world_simps)
qed

lemma upgrade_hands_over_instance:
  "sessions (sys_exec demo (Http_Read first Success upgrade) served) first = None"
  using upgrade_hands_over [OF demo_ok served_reach upgrade_step] by (simp add: upgrade_def)

text \<open>There is one websocket connection for each session that gave its socket away: none is made
  without an upgrade and no upgrade is lost.\<close>

lemma one_connection_per_upgrade:
  assumes "platform_ok P" and "sys_reachable P s"
  shows "next_conn (chat s) = length (filter (released \<circ> snd) (gone s)) \<and>
    (\<forall>(h, x) \<in> set (gone s). http_reads x = 0 \<and> http_writes x = [])"
  using sys_invs [OF assms] http_invD(3) [of s]
  by (fastforce simp: linked_def handed_over_def comp_def case_prod_unfold ended_ok_def)

lemma one_connection_per_upgrade_instance:
  "length (filter (released \<circ> snd) (gone (sys_exec demo (Http_Read first Success upgrade) served))) = 1"
proof -
  have r: "sys_reachable demo (sys_exec demo (Http_Read first Success upgrade) served)"
    by (rule reach_step [OF served_reach upgrade_step])
  have "next_conn (chat (sys_exec demo (Http_Read first Success upgrade) served)) = 1"
    using sys_exec_read(1) [of served first "Strand 0" demo upgrade] exec_Open [OF inv_world0 [of demo]]
    by (simp add: upgrade_def world_simps)
  then show ?thesis using one_connection_per_upgrade [OF demo_ok r] by simp
qed

section \<open>The listener\<close>

text \<open>One failed accept ends the listener for good: whatever happens later, no further session is
  made, although the process goes on.\<close>

lemma listener_gives_up:
  assumes "sys_reachable P s" and "sys_run P (Listener_Accepted ec # es) s = Some s'" and "ec \<noteq> Success"
  shows "listener_accepts s' = 0 \<and> next_sess s' = next_sess s"
proof -
  have a: "listener_accepts s = 1"
    using assms(2) http_invD(4) [OF web.reach_inv [OF assms(1)]] by (auto split: if_splits)
  have r: "sys_run P es (sys_exec P (Listener_Accepted ec) s) = Some s'"
    using assms(2) by (auto split: if_splits)
  have "listener_accepts (sys_exec P (Listener_Accepted ec) s) = 0"
    and "next_sess (sys_exec P (Listener_Accepted ec) s) = next_sess s"
    using sys_exec_accepted(2) [OF assms(3), of P s] a by (simp_all add: world_simps)
  with sys_run_deaf [OF r] show ?thesis by simp
qed

lemma listener_gives_up_instance:
  "next_sess (sys_exec demo (Listener_Accepted (Other_Error ''EMFILE'')) served) = 1"
  using listener_gives_up [OF served_reach, of "Other_Error ''EMFILE''" "[]"] by simp

text \<open>The constructor listens exactly when its four system calls succeed, and reports the first
  failure otherwise; it has no way to report it, so the first accept is started in either case.\<close>

lemma listener_setup:
  assumes "e1 \<noteq> Operation_Aborted" and "e2 \<noteq> Operation_Aborted" and "e3 \<noteq> Operation_Aborted"
    and "e4 \<noteq> Operation_Aborted"
  shows "listener_accepts (booted e1 e2 e3 e4) = 1 \<and>
    cerr (booted e1 e2 e3 e4) =
      take 1 (filter (\<lambda>(what, ec). ec \<noteq> Success)
        [(''open'', e1), (''set_option'', e2), (''bind'', e3), (''listen'', e4)]) \<and>
    (listening (booted e1 e2 e3 e4) \<longleftrightarrow> set [e1, e2, e3, e4] = {Success})"
  using assms
  by (auto simp: booted_def listener_defs listener_new_def listener_fail_def log_fail_def)

text \<open>A process whose listener could not listen never makes a session or a connection.\<close>

lemma deaf_process_is_empty:
  assumes "sys_reachable P s" and "\<not> listening s"
  shows "next_sess s = 0 \<and> sessions s (Sess n) = None"
  using http_invD(2,5) [OF web.reach_inv [OF assms(1)]] assms(2) by auto

end
