(* ===== verification/Startup.thy ===== *)
theory Startup
  imports Decimal
begin

text \<open>
  \<open>main\<close> of \<open>wschat-cpp/main.cpp\<close>: reading the address and the number of workers from the command
  line, and the number of threads that run the \<open>io_context\<close>. \<open>net::ip::make_address\<close> is not part of
  the repository and is a parameter. \<open>unsigned long\<close> has 64 bits and \<open>int\<close> has 32, as on the
  platform of the makefile.
\<close>

section \<open>Standard library functions\<close>

text \<open>\<open>string_view::rfind\<close> for one character, and \<open>substr\<close> through \<open>take\<close> and \<open>drop\<close>.\<close>

fun rfind :: "char \<Rightarrow> string \<Rightarrow> nat option" where
  "rfind c [] = None"
| "rfind c (x # xs) = (case rfind c xs of
       Some i \<Rightarrow> Some (Suc i)
     | None \<Rightarrow> if x = c then Some 0 else None)"

definition is_space :: "char \<Rightarrow> bool" where
  "is_space c \<longleftrightarrow> c = CHR '' '' \<or> (9 \<le> (of_char c :: nat) \<and> (of_char c :: nat) \<le> 13)"

text \<open>
  The subject sequence of \<open>strtoul\<close> and \<open>strtol\<close> in base 10: white space, a sign, digits. The result
  is the sign and the value of the digits, \<open>None\<close> when there are none; what follows is ignored.
\<close>

definition scan_integer :: "string \<Rightarrow> (bool \<times> nat) option" where
  "scan_integer s =
     (let r = dropWhile is_space s;
          neg = (case r of c # _ \<Rightarrow> c = CHR ''-'' | [] \<Rightarrow> False);
          r1 = (case r of c # q \<Rightarrow> if c = CHR ''-'' \<or> c = CHR ''+'' then q else r | [] \<Rightarrow> []);
          d = takeWhile is_digit r1
      in if d = [] then None else Some (neg, nat_value d))"

text \<open>\<open>std::stoul\<close> throws \<open>invalid_argument\<close> or \<open>out_of_range\<close>; a minus sign negates in the type.\<close>

definition stoul :: "string \<Rightarrow> exn + 64 word" where
  "stoul s = (case scan_integer s of
       None \<Rightarrow> Inl (Library_Error ''stoul'')
     | Some (neg, n) \<Rightarrow>
         if n \<ge> 2 ^ 64 then Inl (Library_Error ''stoul'')
         else Inr (if neg then - of_nat n else of_nat n))"

text \<open>\<open>std::atoi\<close> is 0 without digits and undefined when the value does not fit an \<open>int\<close>.\<close>

definition atoi :: "string \<Rightarrow> exn + int" where
  "atoi s = (case scan_integer s of
       None \<Rightarrow> Inr 0
     | Some (neg, n) \<Rightarrow>
         (let v = (if neg then - int n else int n)
          in if - (2 ^ 31) \<le> v \<and> v < 2 ^ 31 then Inr v
             else Inl (Undefined_Behaviour ''atoi out of range'')))"

section \<open>The program\<close>

text \<open>How \<open>main\<close> leaves its first part: \<open>die\<close>, an escaping exception, or the values it starts with.\<close>

datatype 'ip startup =
    Die string
  | Escape exn
  | Start 'ip "16 word" int

definition main_port :: "string \<Rightarrow> exn + 16 word" where
  "main_port s = (case stoul s of Inl e \<Rightarrow> Inl e | Inr n \<Rightarrow> Inr (ucast n))"

definition main_workers :: "string list \<Rightarrow> exn + int" where
  "main_workers argv =
     (if length argv > 2
      then (case atoi (argv ! 2) of Inl e \<Rightarrow> Inl e | Inr n \<Rightarrow> Inr (max 1 n))
      else Inr 1)"

text \<open>\<open>argv\<close> includes the name of the program.\<close>

definition main_start :: "(string \<Rightarrow> exn + 'ip) \<Rightarrow> string list \<Rightarrow> 'ip startup" where
  "main_start make_address argv =
     (case argv of
        [] \<Rightarrow> Escape (Undefined_Behaviour ''argv[1]'')
      | [_] \<Rightarrow> Die ''must provide address''
      | _ # addr # _ \<Rightarrow>
      (case rfind CHR '':'' addr of
         None \<Rightarrow> Die ''must provide valid address''
       | Some pos \<Rightarrow>
         (case make_address (take pos addr) of
            Inl e \<Rightarrow> Escape e
          | Inr ip \<Rightarrow>
            (case main_port (drop (pos + 1) addr) of
               Inl e \<Rightarrow> Die ''must provide valid address''
             | Inr port \<Rightarrow>
               (case main_workers argv of
                  Inl e \<Rightarrow> Escape e
                | Inr workers \<Rightarrow> Start ip port workers)))))"

text \<open>The loop that starts the extra threads, and all callers of \<open>ioc.run()\<close>.\<close>

function spawn_threads :: "int \<Rightarrow> nat \<Rightarrow> nat" where
  "spawn_threads i n = (if i > 0 then spawn_threads (i - 1) (Suc n) else n)"
  by pat_completeness auto
termination
  by (relation "measure (\<lambda>(i, n). nat i)") auto

declare spawn_threads.simps [simp del]

definition running_threads :: "int \<Rightarrow> nat" where
  "running_threads workers = Suc (spawn_threads (workers - 1) 0)"

section \<open>Lemmas\<close>

lemma rfind_None: "rfind c s = None \<longleftrightarrow> c \<notin> set s"
  by (induction s) (auto split: option.splits)

lemma rfind_Some:
  "rfind c s = Some i \<Longrightarrow> i < length s \<and> s ! i = c \<and> c \<notin> set (drop (Suc i) s)"
proof (induction s arbitrary: i)
  case Nil
  then show ?case by simp
next
  case (Cons x xs)
  then show ?case
    using rfind_None [of c xs] by (cases i) (auto split: option.splits if_splits)
qed

lemma rfind_append: "c \<notin> set t \<Longrightarrow> rfind c (s @ c # t) = Some (length s)"
proof (induction s)
  case Nil
  then show ?case using rfind_None [of c t] by simp
next
  case (Cons x xs)
  then show ?case by simp
qed

lemma spawn_threads_eq: "spawn_threads i n = n + nat i"
proof (induction i n rule: spawn_threads.induct)
  case (1 i n)
  show ?case
  proof (cases "i > 0")
    case True
    then have "spawn_threads (i - 1) (Suc n) = Suc n + nat (i - 1)" by (rule "1.IH")
    then show ?thesis using True by (simp add: spawn_threads.simps [of i])
  next
    case False
    then show ?thesis by (simp add: spawn_threads.simps [of i])
  qed
qed

lemma digit_not_space: "is_digit c \<Longrightarrow> \<not> is_space c \<and> c \<noteq> CHR ''-'' \<and> c \<noteq> CHR ''+''"
  by (auto simp: is_digit_def is_space_def)

lemma scan_nat_text:
  assumes "\<forall>c r'. r = c # r' \<longrightarrow> \<not> is_digit c"
  shows "scan_integer (nat_text n @ r) = Some (False, n)"
proof -
  obtain d ds where d: "nat_text n = d # ds" "is_digit d" by (rule nat_text_Cons)
  then show ?thesis
    using digit_not_space [OF d(2)] takeWhile_digits(1) [OF assms, of n] nat_value_text [of n]
    by (simp add: scan_integer_def)
qed

lemma nat_text_no_colon: "CHR '':'' \<notin> set (nat_text n)"
  using nat_text_digits [of "CHR '':''" n] by (auto simp: is_digit_def)

end
