(* ===== verification/Startup_Properties.thy ===== *)
theory Startup_Properties
  imports Startup
begin

text \<open>The properties of \<open>main\<close>: what the command line leads to.\<close>

lemma rfind_last:
  assumes "CHR '':'' \<notin> set p"
  shows "rfind CHR '':'' (host @ CHR '':'' # p) = Some (length host)"
  by (rule rfind_append [OF assms])

lemma main_port_text:
  assumes "n < 2 ^ 64" and "\<forall>c q. r = c # q \<longrightarrow> \<not> is_digit c"
  shows "main_port (nat_text n @ r) = Inr (of_nat n)"
proof -
  have "stoul (nat_text n @ r) = Inr (of_nat n)"
    using scan_nat_text [OF assms(2), of n] assms(1) by (simp add: stoul_def)
  moreover have "ucast (of_nat n :: 64 word) = (of_nat n :: 16 word)"
    by (rule word_unat_eq_iff [THEN iffD2])
       (simp add: unsigned_ucast_eq unat_of_nat take_bit_eq_mod mod_mod_cancel)
  ultimately show ?thesis by (simp add: main_port_def)
qed

lemma main_start_text:
  assumes "make_address host = Inr ip" and "n < 2 ^ 64"
    and "\<forall>c q. r = c # q \<longrightarrow> \<not> is_digit c" and "CHR '':'' \<notin> set r"
  shows "main_start make_address [prog, host @ CHR '':'' # nat_text n @ r] = Start ip (of_nat n) 1"
proof -
  have "CHR '':'' \<notin> set (nat_text n @ r)" using nat_text_no_colon assms(4) by simp
  from rfind_last [OF this, of host] show ?thesis
    using assms(1) main_port_text [OF assms(2,3)] by (simp add: main_start_def main_workers_def)
qed

text \<open>C40: For an address of the form host, colon, number below \<open>2 ^ 64\<close>, main starts with the host and
  the number reduced modulo \<open>2 ^ 16\<close>; the host may contain colons, as an IPv6 address does, and
  whatever follows the digits of the port is ignored.\<close>

theorem starts_with_wrapped_port:
  assumes "make_address host = Inr ip" and "n < 2 ^ 64"
    and "\<forall>c q. r = c # q \<longrightarrow> \<not> is_digit c" and "CHR '':'' \<notin> set r"
  shows "main_start make_address [prog, host @ CHR '':'' # nat_text n @ r] = Start ip (of_nat n) 1 \<and>
    unat (of_nat n :: 16 word) = n mod 2 ^ 16"
  using main_start_text [of make_address, OF assms] by (simp add: unat_of_nat)

lemma digit_chars:
  "char_of (54 :: nat) = CHR ''6''" "char_of (53 :: nat) = CHR ''5''"
  "char_of (51 :: nat) = CHR ''3''" "char_of (55 :: nat) = CHR ''7''"
  by code_simp+

theorem starts_with_wrapped_port_witness:
  "main_start (\<lambda>h. if h = ''::1'' then Inr () else Inl (Library_Error h)) [''wschat'', ''::1:65537/x'']
     = Start () 1 1"
proof -
  let ?mk = "\<lambda>h. if h = ''::1'' then Inr () else Inl (Library_Error h)"
  have t: "''::1'' @ CHR '':'' # nat_text 65537 @ ''/x'' = ''::1:65537/x''"
    by (simp add: nat_text.simps [of 65537] nat_text.simps [of 6553] nat_text.simps [of 655]
        nat_text.simps [of 65] nat_text.simps [of 6] digit_char_def digit_chars)
  have "\<forall>c q. ''/x'' = c # q \<longrightarrow> \<not> is_digit c" by (simp add: is_digit_def)
  then have "main_start ?mk [''wschat'', ''::1'' @ CHR '':'' # nat_text 65537 @ ''/x''] =
      Start () (of_nat 65537) 1"
    using starts_with_wrapped_port [of ?mk "''::1''" "()" 65537 "''/x''" "''wschat''"] by simp
  moreover have "(of_nat 65537 :: 16 word) = 1" by simp
  ultimately show ?thesis unfolding t by (simp only:)
qed

text \<open>Only some bad command lines are reported: a missing address, an address without a colon and a
  port that is no number end in a message, but a host that is no IP address lets the exception of the
  library out of main, whatever the port is.\<close>

lemma bad_command_lines:
  assumes "CHR '':'' \<notin> set port" and "CHR '':'' \<notin> set bare"
  shows "main_start make_address [prog] = Die ''must provide address'' \<and>
    main_start make_address (prog # bare # more) = Die ''must provide valid address'' \<and>
    (make_address host = Inl e \<longrightarrow>
       main_start make_address (prog # (host @ CHR '':'' # port) # more) = Escape e) \<and>
    (make_address host = Inr ip \<longrightarrow> isl (stoul port) \<longrightarrow>
       main_start make_address (prog # (host @ CHR '':'' # port) # more) =
         Die ''must provide valid address'')"
proof -
  have "rfind CHR '':'' bare = None" using assms(2) by (simp add: rfind_None)
  then show ?thesis
    using rfind_last [OF assms(1), of host]
    by (auto simp: main_start_def main_port_def isl_def)
qed

text \<open>The number of threads that run the event loop is the number of workers, which is at least one:
  the main thread runs it too, and anything but a positive number on the command line means one.\<close>

lemma workers_run:
  assumes "main_workers argv = Inr w"
  shows "1 \<le> w \<and> running_threads w = nat w \<and>
    (\<forall>n. length argv > 2 \<longrightarrow> argv ! 2 = nat_text n \<longrightarrow> running_threads w = max 1 n)"
proof -
  have w: "1 \<le> w" using assms by (auto simp: main_workers_def split: if_splits sum.splits)
  then have r: "running_threads w = nat w"
    by (simp add: running_threads_def spawn_threads_eq nat_diff_distrib)
  have "w = max 1 (int n)" if "length argv > 2" "argv ! 2 = nat_text n" for n
    using that assms scan_nat_text [of "[]" n]
    by (auto simp: main_workers_def atoi_def Let_def split: if_splits sum.splits)
  then show ?thesis using w r by (auto simp: max_def)
qed

end
