(* ===== verification/Shutdown.thy ===== *)
theory Shutdown
  imports Sessions
begin

text \<open>
  The end of the process. After a signal \<open>main_on_signal\<close> stops the event loop, \<open>main\<close> joins its
  threads and returns, and the destructor of \<open>ioc\<close> destroys the handlers that were never invoked, in an
  order the documentation of Boost.Asio leaves open, those included that are posted meanwhile. A
  destroyed handler gives up its shared pointer, so the destructor \<open>~WsConn\<close> of each connection runs
  here, and broadcasts to the connections that are still there. The repository's part of this is the
  destructor and everything it calls; the environment chooses the handler to destroy next.
\<close>

section \<open>Steps\<close>

text \<open>The handler of an operation of \<open>c\<close> is destroyed without being called.\<close>

definition discard :: "'j platform \<Rightarrow> conn \<Rightarrow> (conn_ops \<Rightarrow> conn_ops) \<Rightarrow> world \<Rightarrow> world" where
  "discard P c f w = release P c (push_stack c (set_ops c f w))"

datatype drop_event =
    Drop_Accept conn
  | Drop_Read conn
  | Drop_Write conn
  | Drop_Post conn nat
  | Drop_Http_Read sess
  | Drop_Http_Write sess
  | Drop_Listener

fun drop_enabled :: "drop_event \<Rightarrow> system \<Rightarrow> bool" where
  "drop_enabled (Drop_Accept c) s \<longleftrightarrow> accepts (ops (chat s) c) > 0"
| "drop_enabled (Drop_Read c) s \<longleftrightarrow> reads (ops (chat s) c) > 0"
| "drop_enabled (Drop_Write c) s \<longleftrightarrow> writes (ops (chat s) c) \<noteq> []"
| "drop_enabled (Drop_Post c i) s \<longleftrightarrow> i < length (posts (ops (chat s) c))"
| "drop_enabled (Drop_Http_Read h) s \<longleftrightarrow>
     (case sessions s h of None \<Rightarrow> False | Some x \<Rightarrow> http_reads x > 0)"
| "drop_enabled (Drop_Http_Write h) s \<longleftrightarrow>
     (case sessions s h of None \<Rightarrow> False | Some x \<Rightarrow> http_writes x \<noteq> [])"
| "drop_enabled Drop_Listener s \<longleftrightarrow> listener_accepts s > 0"

fun drop_exec :: "'j platform \<Rightarrow> drop_event \<Rightarrow> system \<Rightarrow> system" where
  "drop_exec P (Drop_Accept c) s =
     s\<lparr>chat := discard P c (\<lambda>q. q\<lparr>accepts := accepts q - 1\<rparr>) (chat s)\<rparr>"
| "drop_exec P (Drop_Read c) s =
     s\<lparr>chat := discard P c (\<lambda>q. q\<lparr>reads := reads q - 1\<rparr>) (chat s)\<rparr>"
| "drop_exec P (Drop_Write c) s =
     s\<lparr>chat := discard P c (\<lambda>q. q\<lparr>writes := tl (writes q)\<rparr>) (chat s)\<rparr>"
| "drop_exec P (Drop_Post c i) s =
     s\<lparr>chat := discard P c (\<lambda>q. q\<lparr>posts := take i (posts q) @ drop (Suc i) (posts q)\<rparr>) (chat s)\<rparr>"
| "drop_exec P (Drop_Http_Read h) s =
     http_release h (set_session h (\<lambda>x. x\<lparr>http_reads := http_reads x - 1\<rparr>) s)"
| "drop_exec P (Drop_Http_Write h) s = http_release h (http_write_done h s)"
| "drop_exec P Drop_Listener s = s\<lparr>listener_accepts := listener_accepts s - 1\<rparr>"

text \<open>A run of the destructor of \<open>ioc\<close>; an exception out of a destructor would end the program.\<close>

fun drop_run :: "'j platform \<Rightarrow> drop_event list \<Rightarrow> system \<Rightarrow> system option" where
  "drop_run P [] s = Some s"
| "drop_run P (d # ds) s =
     (if stopped s \<and> crash (chat s) = None \<and> drop_enabled d s
      then drop_run P ds (drop_exec P d s) else None)"

lemma drop_run_append: "drop_run P (ds @ es) s = Option.bind (drop_run P ds s) (drop_run P es)"
  by (induction ds arbitrary: s) auto

section \<open>The memory of the chat\<close>

text \<open>
  What remains of the invariant when texts are thrown away: objects live exactly while an operation
  owns them, the set points to live objects, and nothing went wrong.
\<close>

definition memory_inv :: "'j platform \<Rightarrow> world \<Rightarrow> bool" where
  "memory_inv P w \<longleftrightarrow> crash w = None \<and> stack w = [] \<and> no_dangling w \<and>
     (\<forall>c x. heap w c = Some x \<longrightarrow> uuid x = random_uuid P (conn_index c) \<and> ops w c \<noteq> no_ops \<and>
        conn_index c < next_conn w) \<and>
     (\<forall>c. heap w c = None \<longrightarrow> ops w c = no_ops)"

lemma memory_invI:
  assumes "crash w = None" and "stack w = []" and "no_dangling w"
    and "\<And>c x. heap w c = Some x \<Longrightarrow> uuid x = random_uuid P (conn_index c)"
    and "\<And>c x. heap w c = Some x \<Longrightarrow> ops w c \<noteq> no_ops"
    and "\<And>c x. heap w c = Some x \<Longrightarrow> conn_index c < next_conn w"
    and "\<And>c. heap w c = None \<Longrightarrow> ops w c = no_ops"
  shows "memory_inv P w"
  using assms by (simp add: memory_inv_def)

lemma memory_invD:
  assumes "memory_inv P w"
  shows "crash w = None" and "stack w = []" and "no_dangling w"
    and "heap w c = Some x \<Longrightarrow> uuid x = random_uuid P (conn_index c)"
    and "heap w c = Some x \<Longrightarrow> ops w c \<noteq> no_ops"
    and "heap w c = Some x \<Longrightarrow> conn_index c < next_conn w"
    and "heap w c = None \<Longrightarrow> ops w c = no_ops"
    and "c \<in> set (clients w) \<Longrightarrow> heap w c \<noteq> None" and "distinct (clients w)"
  using assms unfolding memory_inv_def no_dangling_def by blast+

lemma world_memory_inv:
  assumes "world_inv P [] w"
  shows "memory_inv P w"
proof -
  have "uuid x = random_uuid P (conn_index c) \<and> ops w c \<noteq> no_ops \<and> conn_index c < next_conn w"
    if x: "heap w c = Some x" for c x
  proof (intro conjI)
    show "uuid x = random_uuid P (conn_index c)" using invD(4) [OF assms x] by (simp add: obj_inv_def)
    show "ops w c \<noteq> no_ops"
      using invD(5) [OF assms x] invD(2) [OF assms] use_count_0_iff [of w c] by auto
    show "conn_index c < next_conn w"
      using invD(8) [OF assms, of "conn_index c"] x by (cases c) (auto simp: not_less [symmetric])
  qed
  then show ?thesis using invD(1,2,3,6) [OF assms] by (simp add: memory_inv_def)
qed

text \<open>The world after the last handler of \<open>c\<close> was destroyed and its destructor has told \<open>t\<close>.\<close>

definition dropped :: "conn \<Rightarrow> string \<Rightarrow> world \<Rightarrow> world" where
  "dropped c t w = drop_conn c (post_all (set (clients w) - {c}) t (tick (set_ops c (\<lambda>_. no_ops) w)))"

lemma dropped_simps [world_simps]:
  "heap (dropped c t w) = (heap w)(c := None)" "clients (dropped c t w) = remove1 c (clients w)"
  "stack (dropped c t w) = stack w" "crash (dropped c t w) = crash w"
  "next_conn (dropped c t w) = next_conn w" "wire (dropped c t w) = wire w"
  "sent (dropped c t w) d = (if d \<in> set (clients w) - {c} then sent w d @ [t] else sent w d)"
  "ops (dropped c t w) d = (if d = c then no_ops
     else if d \<in> set (clients w) then (ops w d)\<lparr>posts := posts (ops w d) @ [t]\<rparr> else ops w d)"
  by (auto simp: dropped_def world_simps)

lemma discard_cases:
  assumes P: "platform_ok P" and I: "memory_inv P w" and n: "op_count (ops w c) > 0"
    and f: "op_count (f (ops w c)) = op_count (ops w c) - 1"
  obtains (alive) x where "discard P c f w = set_ops c f w" and "op_count (ops w c) > 1"
    and "heap w c = Some x"
  | (gone) x t where "discard P c f w = dropped c t w" and "op_count (ops w c) = 1"
    and "heap w c = Some x"
    and "system_text P Disconnect (random_uuid P (conn_index c)) (ticks w) = Inr t"
proof -
  let ?v = "push_stack c (set_ops c f w)"
  from n have "ops w c \<noteq> no_ops" by auto
  then obtain x where x: "heap w c = Some x" using memory_invD(7) [OF I, of c] by fastforce
  show thesis
  proof (cases "op_count (ops w c) = 1")
    case False
    have pop: "pop_stack c ?v = set_ops c f w"
      by (rule world.equality) (simp_all add: world_simps)
    have "use_count (set_ops c f w) c > 0"
      using False n f by (simp add: use_count_def world_simps)
    then show thesis using alive x n False pop by (simp add: discard_def release_def)
  next
    case True
    then have q: "f (ops w c) = no_ops" using f by (simp add: op_count_0_iff)
    have u: "ascii (uuid x)" using memory_invD(4) [OF I x] P by (simp add: platform_ok_def)
    have "use_count ?v d \<noteq> 0" if "d \<in> set (clients ?v)" "d \<noteq> c" for d
      using that memory_invD(5,8) [OF I, of d] by (auto simp: use_count_0_iff world_simps)
    then have own: "use_count ?v d > 0" if "d \<in> set (clients ?v)" "d \<noteq> c" for d
      using that by simp
    obtain t where t: "system_text P Disconnect (uuid x) (ticks w) = Inr t"
      and r: "release P c ?v = left c t ?v"
      by (rule release_left [OF P, of ?v c x])
         (use memory_invD(2,3) [OF I] q x u own in \<open>simp_all add: world_simps no_dangling_def\<close>)
    have "left c t ?v = dropped c t w"
      by (rule world.equality)
         (auto simp: left_def dropped_def drop_conn_def clients_erase_def pop_stack_def post_all_def
           tick_def push_stack_def set_ops_def q fun_eq_iff)
    then show thesis using gone True x t r memory_invD(4) [OF I x] by (simp add: discard_def)
  qed
qed

lemma memory_inv_dropped:
  assumes I: "memory_inv P w" and c: "heap w c \<noteq> None"
  shows "memory_inv P (dropped c t w)"
proof (rule memory_invI)
  show "crash (dropped c t w) = None" "stack (dropped c t w) = []"
    using memory_invD(1,2) [OF I] by (simp_all add: world_simps)
  show "no_dangling (dropped c t w)"
    using memory_invD(3) [OF I] by (auto simp: no_dangling_def world_simps)
  fix d
  {
    fix y assume "heap (dropped c t w) d = Some y"
    then have y: "heap w d = Some y" "d \<noteq> c" by (auto simp: world_simps split: if_splits)
    then show "uuid y = random_uuid P (conn_index d)" "conn_index d < next_conn (dropped c t w)"
      "ops (dropped c t w) d \<noteq> no_ops"
      using memory_invD(4-6) [OF I y(1)] by (auto simp: world_simps no_ops_iff)
  }
  assume "heap (dropped c t w) d = None"
  then show "ops (dropped c t w) d = no_ops"
    using memory_invD(7,8) [OF I, of d] by (auto simp: world_simps split: if_splits)
qed

lemma discard_memory:
  assumes "platform_ok P" and I: "memory_inv P w" and "op_count (ops w c) > 0"
    and f: "op_count (f (ops w c)) = op_count (ops w c) - 1"
  shows "memory_inv P (discard P c f w)" and "wire (discard P c f w) = wire w"
    and "next_conn (discard P c f w) = next_conn w"
proof -
  have "memory_inv P (discard P c f w) \<and> wire (discard P c f w) = wire w \<and>
    next_conn (discard P c f w) = next_conn w"
    using assms
  proof (cases rule: discard_cases)
    case (alive x)
    then have "f (ops w c) \<noteq> no_ops" using f by auto
    then show ?thesis
      using alive memory_invD [OF I] by (auto simp: memory_inv_def no_dangling_def world_simps)
  next
    case (gone x t)
    then show ?thesis using memory_inv_dropped [OF I] by (simp add: world_simps)
  qed
  then show "memory_inv P (discard P c f w)" "wire (discard P c f w) = wire w"
    "next_conn (discard P c f w) = next_conn w" by simp_all
qed

section \<open>How long it takes\<close>

text \<open>
  The number of handlers to destroy, and what their destruction can add: the destructor of a
  connection posts at most one text to each of the others.
\<close>

definition live :: "world \<Rightarrow> conn list" where
  "live w = filter (\<lambda>c. heap w c \<noteq> None) (map Conn [0..<next_conn w])"

definition load :: "world \<Rightarrow> nat" where
  "load w = sum_list (map (\<lambda>c. op_count (ops w c)) (live w))"

fun triangle :: "nat \<Rightarrow> nat" where
  "triangle 0 = 0"
| "triangle (Suc k) = triangle k + k"

definition chat_bound :: "world \<Rightarrow> nat" where
  "chat_bound w = load w + triangle (length (live w))"

definition live_sessions :: "system \<Rightarrow> sess list" where
  "live_sessions s = filter (\<lambda>h. sessions s h \<noteq> None) (map Sess [0..<next_sess s])"

definition drop_bound :: "system \<Rightarrow> nat" where
  "drop_bound s = chat_bound (chat s) + length (live_sessions s) + listener_accepts s"

lemma filter_absent: "c \<notin> set xs \<Longrightarrow> filter (\<lambda>d. d \<noteq> c) xs = xs"
  by (rule filter_True) auto

lemma sum_list_pick:
  fixes f :: "'a \<Rightarrow> nat"
  assumes "distinct xs" and "c \<in> set xs"
  shows "sum_list (map f xs) = f c + sum_list (map f (filter (\<lambda>d. d \<noteq> c) xs))"
    and "length xs = Suc (length (filter (\<lambda>d. d \<noteq> c) xs))"
  using assms by (induction xs) (auto simp: filter_absent)

lemma sum_list_plus_one:
  fixes f g :: "'a \<Rightarrow> nat"
  shows "(\<And>x. x \<in> set xs \<Longrightarrow> f x \<le> Suc (g x)) \<Longrightarrow>
     sum_list (map f xs) \<le> sum_list (map g xs) + length xs"
  by (induction xs) force+

lemma live_distinct: "distinct (live w)"
  by (simp add: live_def distinct_map inj_on_def)

lemma live_iff: "memory_inv P w \<Longrightarrow> c \<in> set (live w) \<longleftrightarrow> heap w c \<noteq> None"
  using memory_invD(6) by (cases c) (fastforce simp: live_def)

lemma live_dropped: "live (dropped c t w) = filter (\<lambda>d. d \<noteq> c) (live w)"
  by (auto simp: live_def world_simps intro: filter_cong)

text \<open>Every destroyed handler brings the end closer.\<close>

lemma discard_bound:
  assumes "platform_ok P" and I: "memory_inv P w" and "op_count (ops w c) > 0"
    and f: "op_count (f (ops w c)) = op_count (ops w c) - 1"
  shows "Suc (chat_bound (discard P c f w)) \<le> chat_bound w"
  using assms
proof (cases rule: discard_cases)
  case (alive x)
  have c: "c \<in> set (live w)" using alive(3) live_iff [OF I] by simp
  have l: "live (set_ops c f w) = live w" by (simp add: live_def world_simps)
  have "load w = op_count (ops w c) +
      sum_list (map (\<lambda>d. op_count (ops w d)) (filter (\<lambda>d. d \<noteq> c) (live w)))"
    unfolding load_def by (rule sum_list_pick(1) [OF live_distinct c])
  moreover have "load (set_ops c f w) = op_count (f (ops w c)) +
      sum_list (map (\<lambda>d. op_count (ops w d)) (filter (\<lambda>d. d \<noteq> c) (live w)))"
    unfolding load_def l sum_list_pick(1) [OF live_distinct c]
    by (auto simp: world_simps intro!: arg_cong [where f = sum_list])
  ultimately show ?thesis using alive f l by (simp add: chat_bound_def)
next
  case (gone x t)
  have c: "c \<in> set (live w)" using gone(3) live_iff [OF I] by simp
  let ?l = "filter (\<lambda>d. d \<noteq> c) (live w)"
  have "load w = op_count (ops w c) + sum_list (map (\<lambda>d. op_count (ops w d)) ?l)"
    unfolding load_def by (rule sum_list_pick(1) [OF live_distinct c])
  moreover have "load (dropped c t w) \<le> sum_list (map (\<lambda>d. op_count (ops w d)) ?l) + length ?l"
    unfolding load_def live_dropped
    by (rule sum_list_plus_one) (auto simp: world_simps op_count_def)
  moreover have "length (live w) = Suc (length ?l)" by (rule sum_list_pick(2) [OF live_distinct c])
  ultimately show ?thesis using gone(1,2) by (simp add: chat_bound_def live_dropped)
qed

section \<open>The whole process\<close>

text \<open>The operation whose handler is destroyed, for the handlers of connections.\<close>

lemma drop_chat:
  assumes "drop_enabled d s"
  obtains (conn) c f where "drop_exec P d s = s\<lparr>chat := discard P c f (chat s)\<rparr>"
    and "op_count (ops (chat s) c) > 0"
    and "op_count (f (ops (chat s) c)) = op_count (ops (chat s) c) - 1"
  | (http_read) h where "d = Drop_Http_Read h"
  | (http_written) h where "d = Drop_Http_Write h"
  | (listener) "d = Drop_Listener"
proof (cases d)
  case (Drop_Write c)
  then show thesis using assms conn [of c "\<lambda>q. q\<lparr>writes := tl (writes q)\<rparr>"]
    by (cases "writes (ops (chat s) c)") (auto simp: op_count_def)
next
  case (Drop_Post c i)
  then show thesis
    using assms conn [of c "\<lambda>q. q\<lparr>posts := take i (posts q) @ drop (Suc i) (posts q)\<rparr>"]
    by (cases "posts (ops (chat s) c)") (auto simp: op_count_def)
qed (use assms conn http_read http_written listener in \<open>auto simp: op_count_def\<close>)

text \<open>The only operation of a session is the last one it has, so the session goes with it.\<close>

lemma drop_session:
  assumes I: "http_inv s" and e: "drop_enabled d s" and d: "d = Drop_Http_Read h \<or> d = Drop_Http_Write h"
  obtains x where "drop_exec P d s = gone_as h x s" and "ended_ok x" and "sessions s h \<noteq> None"
proof -
  obtain x where x: "sessions s h = Some x" using e d by (auto split: option.splits)
  from http_invD(1) [OF I this] consider k where "x = fresh_session k"
    | k req where "x = (fresh_session k)\<lparr>parser := Some Moved_From, http_reads := 0,
        http_writes := [(handle_request req, keep_alive req)]\<rparr>"
    using reading writing by (cases "http_reads x > 0") (fastforce simp: session_ok_def)+
  then show thesis
  proof cases
    case (1 k)
    then have "drop_exec P d s = gone_as h ((fresh_session k)\<lparr>http_reads := 0\<rparr>) s"
      using d e x by (auto simp: http_release_def set_session_def gone_as_def)
    then show thesis using that x by (simp add: ended_ok_def)
  next
    case (2 k req)
    then have "drop_exec P d s = gone_as h (x\<lparr>http_writes := []\<rparr>) s"
      using d e x by (auto simp: http_release_def set_session_def gone_as_def http_write_done_def)
    then show thesis using that x 2 by (simp add: ended_ok_def)
  qed
qed

lemma live_sessions_gone:
  assumes "http_inv s" and "sessions s h \<noteq> None"
  shows "length (live_sessions s) = Suc (length (live_sessions (gone_as h x s)))"
proof -
  have "h \<in> set (live_sessions s)"
    using assms http_invD(2) [OF assms(1)] by (cases h) (force simp: live_sessions_def not_less [symmetric])
  moreover have "live_sessions (gone_as h x s) = filter (\<lambda>k. k \<noteq> h) (live_sessions s)"
    by (auto simp: live_sessions_def world_simps intro: filter_cong)
  moreover have "distinct (live_sessions s)" by (simp add: live_sessions_def distinct_map inj_on_def)
  ultimately show ?thesis using sum_list_pick(2) by metis
qed

definition drop_inv :: "'j platform \<Rightarrow> system \<Rightarrow> bool" where
  "drop_inv P s \<longleftrightarrow> memory_inv P (chat s) \<and> http_inv s"

lemma drop_exec_inv:
  assumes P: "platform_ok P" and I: "drop_inv P s" and e: "drop_enabled d s"
  shows "drop_inv P (drop_exec P d s)" and "wire (chat (drop_exec P d s)) = wire (chat s)"
    and "Suc (drop_bound (drop_exec P d s)) \<le> drop_bound s" and "stopped (drop_exec P d s) = stopped s"
proof -
  have M: "memory_inv P (chat s)" and H: "http_inv s" using I by (auto simp: drop_inv_def)
  have "drop_inv P (drop_exec P d s) \<and> wire (chat (drop_exec P d s)) = wire (chat s) \<and>
    Suc (drop_bound (drop_exec P d s)) \<le> drop_bound s \<and> stopped (drop_exec P d s) = stopped s"
    using e
  proof (cases rule: drop_chat [where P = P])
    case (conn c f)
    have "http_inv (s\<lparr>chat := w\<rparr>)" for w using H by (simp add: http_inv_def)
    then show ?thesis
      using conn(1) discard_memory [where f = f, OF P M conn(2,3)]
        discard_bound [where f = f, OF P M conn(2,3)]
      by (simp add: drop_inv_def drop_bound_def live_sessions_def)
  next
    case listener
    then show ?thesis using e M H by (simp add: drop_inv_def drop_bound_def live_sessions_def http_inv_def)
  next
    case (http_read h)
    then obtain x where g: "drop_exec P d s = gone_as h x s" "ended_ok x" "sessions s h \<noteq> None"
      using drop_session [OF H e] by blast
    then show ?thesis using M http_inv_gone [OF H] live_sessions_gone [OF H]
      by (simp add: drop_inv_def drop_bound_def world_simps)
  next
    case (http_written h)
    then obtain x where g: "drop_exec P d s = gone_as h x s" "ended_ok x" "sessions s h \<noteq> None"
      using drop_session [OF H e] by blast
    then show ?thesis using M http_inv_gone [OF H] live_sessions_gone [OF H]
      by (simp add: drop_inv_def drop_bound_def world_simps)
  qed
  then show "drop_inv P (drop_exec P d s)" "wire (chat (drop_exec P d s)) = wire (chat s)"
    "Suc (drop_bound (drop_exec P d s)) \<le> drop_bound s" "stopped (drop_exec P d s) = stopped s"
    by simp_all
qed

lemma drop_run_inv:
  assumes P: "platform_ok P"
  shows "drop_run P ds s = Some s' \<Longrightarrow> drop_inv P s \<Longrightarrow> drop_inv P s' \<and>
     wire (chat s') = wire (chat s) \<and> stopped s' = stopped s \<and>
     length ds + drop_bound s' \<le> drop_bound s"
proof (induction ds arbitrary: s)
  case Nil
  then show ?case by simp
next
  case (Cons d ds)
  then have e: "drop_enabled d s" and r: "drop_run P ds (drop_exec P d s) = Some s'"
    by (auto split: if_splits)
  note x = drop_exec_inv [OF P Cons.prems(2) e]
  show ?case using Cons.IH [OF r x(1)] x(2-4) by simp
qed

text \<open>Nothing is left when no handler is.\<close>

definition nothing_left :: "system \<Rightarrow> bool" where
  "nothing_left s \<longleftrightarrow> (\<forall>c. heap (chat s) c = None) \<and> clients (chat s) = [] \<and>
     (\<forall>h. sessions s h = None) \<and> listener_accepts s = 0"

lemma drop_idle:
  assumes I: "drop_inv P s" and e: "\<And>d. \<not> drop_enabled d s"
  shows "nothing_left s"
proof -
  have M: "memory_inv P (chat s)" and H: "http_inv s" using I by (auto simp: drop_inv_def)
  have "ops (chat s) c = no_ops" for c
    using e [of "Drop_Accept c"] e [of "Drop_Read c"] e [of "Drop_Write c"] e [of "Drop_Post c 0"]
    by (simp add: no_ops_iff)
  then have h: "heap (chat s) c = None" for c using memory_invD(5) [OF M] by fastforce
  moreover from this have "clients (chat s) = []" using memory_invD(8) [OF M] by fastforce
  moreover have "sessions s h = None" for h
  proof (cases "sessions s h")
    case (Some x)
    then show ?thesis
      using http_invD(1) [OF H Some] e [of "Drop_Http_Read h"] e [of "Drop_Http_Write h"]
      by (auto simp: session_ok_def)
  qed
  moreover have "listener_accepts s = 0" using e [of Drop_Listener] by simp
  ultimately show ?thesis by (simp add: nothing_left_def)
qed

lemma drop_completes:
  assumes P: "platform_ok P"
  shows "drop_inv P s \<Longrightarrow> stopped s \<Longrightarrow> \<exists>ds s'. drop_run P ds s = Some s' \<and> nothing_left s'"
proof (induction "drop_bound s" arbitrary: s rule: less_induct)
  case less
  show ?case
  proof (cases "\<exists>d. drop_enabled d s")
    case True
    then obtain d where d: "drop_enabled d s" by blast
    note x = drop_exec_inv [OF P less.prems(1) d]
    have "drop_bound (drop_exec P d s) < drop_bound s" using x(3) by simp
    then obtain ds s' where r: "drop_run P ds (drop_exec P d s) = Some s'" "nothing_left s'"
      using less.hyps x(1,4) less.prems(2) by blast
    have "crash (chat s) = None" using less.prems(1) memory_invD(1) by (auto simp: drop_inv_def)
    then have "drop_run P (d # ds) s = Some s'" using r d less.prems(2) by simp
    then show ?thesis using r(2) by blast
  next
    case False
    then have "nothing_left s" using drop_idle [OF less.prems(1)] by blast
    moreover have "drop_run P [] s = Some s" by simp
    ultimately show ?thesis by blast
  qed
qed

text \<open>To the room, the end of the process is nothing but departures.\<close>

definition departure :: "'j platform \<Rightarrow> world \<Rightarrow> world \<Rightarrow> bool" where
  "departure P w w' \<longleftrightarrow> (\<exists>c t. heap w c \<noteq> None \<and> heap w' c = None \<and>
     system_text P Disconnect (random_uuid P (conn_index c)) (ticks w) = Inr t \<and>
     room_of w' = room_apply (Leave c t) (room_of w))"

lemma discard_room:
  assumes P: "platform_ok P" and I: "memory_inv P w" and "op_count (ops w c) > 0"
    and "op_count (f (ops w c)) = op_count (ops w c) - 1"
  shows "room_of (discard P c f w) = room_of w \<or> departure P w (discard P c f w)"
  using assms
proof (cases rule: discard_cases)
  case (alive x)
  then show ?thesis by (simp add: room_of_def world_simps)
next
  case (gone x t)
  have "room_of (dropped c t w) = room_apply (Leave c t) (room_of w)"
    using memory_invD(9) [OF I] by (auto intro!: room_eqI simp: world_simps)
  then show ?thesis using gone by (auto simp: departure_def world_simps)
qed

lemma drop_exec_room:
  assumes P: "platform_ok P" and I: "drop_inv P s" and e: "drop_enabled d s"
  shows "room_of (chat (drop_exec P d s)) = room_of (chat s) \<or>
    departure P (chat s) (chat (drop_exec P d s))"
proof -
  have M: "memory_inv P (chat s)" and H: "http_inv s" using I by (auto simp: drop_inv_def)
  show ?thesis
    using e
  proof (cases rule: drop_chat [where P = P])
    case (conn c f)
    then show ?thesis using discard_room [where f = f, OF P M conn(2,3)] by simp
  qed (use drop_session [OF H e] in \<open>auto simp: world_simps\<close>)
qed

end
