(* ===== verification/Boot.thy ===== *)
theory Boot
  imports Shutdown Startup
begin

text \<open>
  \<open>main\<close> of \<open>wschat-cpp/main.cpp\<close> from its arguments to its exit status, with one worker: the command
  line (\<open>Startup\<close>), the listener, the event loop (\<open>Program\<close>) until a signal stops it, and the destruction
  of what is left (\<open>Shutdown\<close>). The environment gives the outcomes of the listener's system calls, the
  events of the loop and the order of destruction.
\<close>

text \<open>
  How the program ends: \<open>std::exit\<close> with what was printed to \<open>cerr\<close>; \<open>std::terminate\<close> after an exception
  nobody catches; or the return of \<open>main\<close> with its status, the address it served, the number of threads
  that ran the loop, what was printed to \<open>cout\<close>, and the state left behind.
\<close>

datatype 'ip ending =
    Exited int "string list"
  | Terminated exn
  | Returned int 'ip "16 word" nat "string list" system

record system_calls =
  open_ec :: error_code
  option_ec :: error_code
  bind_ec :: error_code
  listen_ec :: error_code

definition die :: "string \<Rightarrow> 'ip ending" where
  "die msg = Exited 1 [msg]"

text \<open>\<open>main.hpp\<close> and \<open>old/main.hpp\<close>, which nothing includes, define \<open>die\<close> once more.\<close>

definition main_hpp_die :: "string \<Rightarrow> 'ip ending" where
  "main_hpp_die msg = Exited 1 [msg]"

definition old_main_hpp_die :: "string \<Rightarrow> 'ip ending" where
  "old_main_hpp_die msg = Exited 1 [msg]"

lemma die_copies: "main_hpp_die = die" "old_main_hpp_die = die"
  by (simp_all add: fun_eq_iff die_def main_hpp_die_def old_main_hpp_die_def)

definition listening_on :: "string \<Rightarrow> string" where
  "listening_on addr = ''Listening on '' @ addr"

definition main_listener :: "system_calls \<Rightarrow> system" where
  "main_listener E = booted (open_ec E) (option_ec E) (bind_ec E) (listen_ec E)"

text \<open>
  What is left of \<open>main\<close> when the loop was stopped and the threads were joined: it returns, which destroys
  what is left. \<open>None\<close> when handlers are still to be destroyed.
\<close>

definition main_end :: "'j platform \<Rightarrow> drop_event list \<Rightarrow> 'ip \<Rightarrow> 16 word \<Rightarrow> nat \<Rightarrow> string list \<Rightarrow> system \<Rightarrow>
    'ip ending option" where
  "main_end P ds ip port n cout s =
     (case drop_run P ds s of
        None \<Rightarrow> None
      | Some s' \<Rightarrow>
        (case crash (chat s') of
           Some e \<Rightarrow> Some (Terminated e)
         | None \<Rightarrow> if drop_bound s' > 0 then None else Some (Returned 0 ip port n cout s')))"

text \<open>
  \<open>main_program P mk E es ds argv\<close> is \<open>None\<close> when the given events are not a complete execution: an event
  that cannot happen, a loop that was not stopped, or handlers that are still to be destroyed. The
  handlers of the loop run one after the other here, which is what one worker does; \<open>Main_Workers\<close> has
  \<open>main\<close> with the threads.
\<close>

definition main_program :: "'j platform \<Rightarrow> (string \<Rightarrow> exn + 'ip) \<Rightarrow> system_calls \<Rightarrow>
    sys_event list \<Rightarrow> drop_event list \<Rightarrow> string list \<Rightarrow> 'ip ending option" where
  "main_program P mk E es ds argv =
     (case main_start mk argv of
        Die msg \<Rightarrow> Some (die msg)
      | Escape e \<Rightarrow> Some (Terminated e)
      | Start ip port workers \<Rightarrow>
          (case sys_run P es (main_listener E) of
             None \<Rightarrow> None
           | Some s \<Rightarrow>
             (case crash (chat s) of
                Some e \<Rightarrow> Some (Terminated e)
              | None \<Rightarrow>
                if \<not> stopped s then None
                else main_end P ds ip port (running_threads workers) [listening_on (argv ! 1)] s)))"

section \<open>Lemmas\<close>

lemma main_listener_reach: "sys_reachable P (main_listener E)"
  by (rule reach_init) (auto simp: boot_state_def main_listener_def)

lemma main_run_invs:
  assumes "platform_ok P" and "sys_run P es (main_listener E) = Some s"
  shows "sys_reachable P s" and "world_inv P [] (chat s)" and "http_inv s" and "drop_inv P s"
proof -
  show r: "sys_reachable P s" by (rule sys_run_reachable [OF assms(2) main_listener_reach])
  show "world_inv P [] (chat s)" "http_inv s" using whole.reach_inv [OF r] assms(1) by auto
  then show "drop_inv P s" by (simp add: drop_inv_def world_memory_inv)
qed

text \<open>When the bound is used up there is nothing left to destroy.\<close>

lemma drop_bound_0:
  assumes "platform_ok P" and "drop_inv P s"
  shows "drop_bound s = 0 \<longleftrightarrow> nothing_left s"
proof
  assume z: "drop_bound s = 0"
  have "\<not> drop_enabled d s" for d using drop_exec_inv(3) [OF assms, of d] z by fastforce
  then show "nothing_left s" by (rule drop_idle [OF assms(2)])
qed (simp add: nothing_left_def drop_bound_def chat_bound_def load_def live_def live_sessions_def)

text \<open>Nothing that was served was ever an exception: the two branches of \<open>Terminated\<close> do not happen.\<close>

lemma main_end_Some:
  assumes P: "platform_ok P" and I: "drop_inv P s"
  shows "main_end P ds ip port n cout s = Some r \<longleftrightarrow>
    (\<exists>s'. drop_run P ds s = Some s' \<and> nothing_left s' \<and> r = Returned 0 ip port n cout s')"
proof (cases "drop_run P ds s")
  case (Some s')
  then have d: "drop_inv P s'" using drop_run_inv [OF P _ I] by simp
  then have "crash (chat s') = None" using memory_invD(1) by (auto simp: drop_inv_def)
  then show ?thesis using Some drop_bound_0 [OF P d] by (auto simp: main_end_def)
qed (simp add: main_end_def)

lemma main_program_start:
  assumes P: "platform_ok P" and st: "main_start mk argv = Start ip port workers"
    and r: "main_program P mk E es ds argv = Some r"
  obtains s s' where "sys_run P es (main_listener E) = Some s" and "stopped s"
    and "drop_run P ds s = Some s'" and "nothing_left s'" and "wire (chat s') = wire (chat s)"
    and "r = Returned 0 ip port (running_threads workers) [listening_on (argv ! 1)] s'"
proof -
  obtain s where s: "sys_run P es (main_listener E) = Some s"
    using r st by (auto simp: main_program_def split: option.splits)
  note inv = main_run_invs [OF P s]
  have c: "crash (chat s) = None" by (rule invD(1) [OF inv(2)])
  then have "stopped s"
    and e: "main_end P ds ip port (running_threads workers) [listening_on (argv ! 1)] s = Some r"
    using r st s by (auto simp: main_program_def split: if_splits)
  then obtain s' where s': "drop_run P ds s = Some s'" "nothing_left s'"
    "r = Returned 0 ip port (running_threads workers) [listening_on (argv ! 1)] s'"
    using main_end_Some [OF P inv(4)] by metis
  then show thesis using that s \<open>stopped s\<close> drop_run_inv [OF P s'(1) inv(4)] by blast
qed

lemma main_program_returns:
  assumes P: "platform_ok P" and st: "main_start mk argv = Start ip port workers"
    and s: "sys_run P es (main_listener E) = Some s" "stopped s"
    and d: "drop_run P ds s = Some s'" "nothing_left s'"
  shows "main_program P mk E es ds argv =
    Some (Returned 0 ip port (running_threads workers) [listening_on (argv ! 1)] s')"
proof -
  note inv = main_run_invs [OF P s(1)]
  have "main_end P ds ip port (running_threads workers) [listening_on (argv ! 1)] s =
      Some (Returned 0 ip port (running_threads workers) [listening_on (argv ! 1)] s')"
    unfolding main_end_Some [OF P inv(4)] using d by blast
  moreover have "crash (chat s) = None" by (rule invD(1) [OF inv(2)])
  ultimately show ?thesis using st s by (simp add: main_program_def)
qed

end
