(* ===== verification/Shutdown_Properties.thy ===== *)
theory Shutdown_Properties
  imports Http_Properties Boot Startup_Properties
begin

text \<open>
  The properties of \<open>main\<close> from its arguments to its exit status: which command lines it refuses, what
  it does when it cannot listen, and that after a signal it always returns with nothing left behind.
\<close>

section \<open>A run for the witnesses\<close>

text \<open>Alice asked for an upgrade; before her handshake is done the process is told to stop.\<close>

definition calls_ok :: system_calls where
  "calls_ok = \<lparr>open_ec = Success, option_ec = Success, bind_ec = Success, listen_ec = Success\<rparr>"

definition short_run :: "sys_event list" where
  "short_run = [Listener_Accepted Success, Http_Read first Success upgrade, Signal]"

definition halted :: system where
  "halted = main_on_signal (sys_exec demo (Http_Read first Success upgrade) served)"

lemma main_listener_ok: "main_listener calls_ok = booted Success Success Success Success"
  by (simp add: main_listener_def calls_ok_def)

lemma halted_chat: "chat halted = opened demo world0"
  using sys_exec_read(1) [of served first "Strand 0" demo upgrade] exec_Open [OF inv_world0 [of demo]]
  by (simp add: halted_def upgrade_def world_simps)

lemma short_run: "sys_run demo short_run (main_listener calls_ok) = Some halted" "stopped halted"
proof -
  let ?b = "booted Success Success Success Success" and ?u = "sys_exec demo (Http_Read first Success upgrade) served"
  have "sys_exec demo (Listener_Accepted Success) ?b = served"
    using served_step by (simp add: sys_step_iff)
  moreover have "chat ?u = opened demo world0" using halted_chat by (simp add: halted_def)
  moreover have "\<not> stopped ?u"
    using sys_exec_read(1) [of served first "Strand 0" demo upgrade] by (simp add: upgrade_def world_simps)
  ultimately show "sys_run demo short_run (main_listener calls_ok) = Some halted"
    by (simp add: main_listener_ok short_run_def halted_def world_simps world0_def)
  show "stopped halted" by (simp add: halted_def)
qed

lemma halted_reach: "sys_reachable demo halted"
  by (rule main_run_invs(1) [OF demo_ok short_run(1)])

lemma halted_drop: "drop_enabled (Drop_Accept alice) halted"
  by (simp add: halted_chat world_simps world0_def)

section \<open>After the signal\<close>

text \<open>The destruction of the event loop ends: in whatever order the handlers that were never called are
  destroyed, those posted meanwhile by destructors included, it takes at most as many steps as there
  are handlers, plus one for each pair of connections; and when no handler is left there is no
  connection, no session and no accept left either, and the server's set is empty.\<close>

lemma teardown_bounded:
  assumes "platform_ok P" and "sys_reachable P s" and "drop_run P ds s = Some s'"
  shows "length ds \<le> drop_bound s \<and> ((\<forall>d. \<not> drop_enabled d s') \<longrightarrow> nothing_left s')"
proof -
  have "drop_inv P s"
    using sys_invs(1,2) [OF assms(1,2)] by (simp add: drop_inv_def world_memory_inv)
  from drop_run_inv [OF assms(1,3) this] show ?thesis using drop_idle by auto
qed

lemma teardown_bounded_instance: "length [Drop_Accept alice] \<le> drop_bound halted"
proof -
  have "drop_run demo [Drop_Accept alice] halted = Some (drop_exec demo (Drop_Accept alice) halted)"
    using halted_drop short_run(2) by (simp add: halted_chat world_simps world0_def)
  from teardown_bounded [OF demo_ok halted_reach this] show ?thesis by blast
qed

text \<open>C29: The destructors that run then are safe and in vain: none lets an exception out or touches a
  destroyed connection, although they broadcast to connections that are being destroyed themselves;
  each that runs announces a departure to the rest of the room, and not one text more reaches a
  socket.\<close>

theorem teardown_safe:
  assumes "platform_ok P" and "sys_reachable P s" and "drop_run P ds s = Some s'"
    and "drop_enabled d s'"
  shows "crash (chat (drop_exec P d s')) = None \<and> no_dangling (chat (drop_exec P d s')) \<and>
    wire (chat (drop_exec P d s')) = wire (chat s) \<and>
    (room_of (chat (drop_exec P d s')) = room_of (chat s') \<or>
     departure P (chat s') (chat (drop_exec P d s')))"
proof -
  have "drop_inv P s"
    using sys_invs(1,2) [OF assms(1,2)] by (simp add: drop_inv_def world_memory_inv)
  then have I: "drop_inv P s'" and w: "wire (chat s') = wire (chat s)"
    using drop_run_inv [OF assms(1,3)] by auto
  note x = drop_exec_inv(1,2) [OF assms(1) I assms(4)]
  from x(1) have "memory_inv P (chat (drop_exec P d s'))" by (simp add: drop_inv_def)
  from memory_invD(1,3) [OF this] show ?thesis
    using x(2) w drop_exec_room [OF assms(1) I assms(4)] by simp
qed

theorem teardown_safe_witness: "wire (chat (drop_exec demo (Drop_Accept alice) halted)) alice = []"
  using teardown_safe [OF demo_ok halted_reach, of "[]" halted, OF _ halted_drop]
  by (simp add: halted_chat world_simps world0_def)

text \<open>After a signal the program returns: with one worker, from any state in which the event loop was
  stopped, the handlers can be destroyed in a bounded number of steps, and then main has returned 0
  with nothing left and nothing more written to any socket.\<close>

lemma main_returns:
  assumes "platform_ok P" and "main_start mk argv = Start ip port 1"
    and "sys_run P es (main_listener E) = Some s" and "stopped s"
  shows "\<exists>ds s'. length ds \<le> drop_bound s \<and> nothing_left s' \<and> wire (chat s') = wire (chat s) \<and>
    main_program P mk E es ds argv = Some (Returned 0 ip port 1 [listening_on (argv ! 1)] s')"
proof -
  note inv = main_run_invs(4) [OF assms(1,3)]
  obtain ds s' where d: "drop_run P ds s = Some s'" "nothing_left s'"
    using drop_completes [OF assms(1) inv assms(4)] by blast
  have "length ds \<le> drop_bound s" "wire (chat s') = wire (chat s)"
    using drop_run_inv [OF assms(1) d(1) inv] by simp_all
  moreover have "running_threads 1 = 1" by (simp add: running_threads_def spawn_threads_eq)
  ultimately show ?thesis using d(2) main_program_returns [OF assms d] by auto
qed

abbreviation "any_host \<equiv> (\<lambda>h. Inr h :: exn + string)"

lemma demo_start: "main_start any_host [''wschat'', ''::1:80''] = Start ''::1'' 80 1"
proof -
  have "char_of (56 :: nat) = CHR ''8''" "char_of (48 :: nat) = CHR ''0''" by code_simp+
  then have "''::1'' @ CHR '':'' # nat_text 80 @ [] = ''::1:80''"
    by (simp add: nat_text.simps [of 80] nat_text.simps [of 8] digit_char_def)
  then show ?thesis
    using main_start_text [of any_host "''::1''" "''::1''" 80 "[]" "''wschat''"] by simp
qed

lemma demo_argv: "[''wschat'', ''::1:80''] ! 1 = ''::1:80''"
  by simp

lemma main_returns_instance:
  "\<exists>ds s'. main_program demo any_host calls_ok short_run ds [''wschat'', ''::1:80''] =
     Some (Returned 0 ''::1'' 80 1 [listening_on ''::1:80''] s') \<and> nothing_left s'"
  using main_returns [OF demo_ok demo_start short_run] unfolding demo_argv by blast

section \<open>Bad starts\<close>

text \<open>C39: Only some bad command lines are reported: without an address, with one that has no colon or
  with a port that is no number the program prints a message and exits with status 1 before it does
  anything; but a host that is no IP address ends it by an exception that nothing catches, whatever
  the port is.\<close>

theorem main_errors:
  assumes "CHR '':'' \<notin> set port" and "CHR '':'' \<notin> set bare"
  shows "main_program P mk E es ds [prog] = Some (Exited 1 [''must provide address'']) \<and>
    main_program P mk E es ds (prog # bare # rest) = Some (Exited 1 [''must provide valid address'']) \<and>
    (mk host = Inl e \<longrightarrow>
       main_program P mk E es ds (prog # (host @ CHR '':'' # port) # rest) = Some (Terminated e)) \<and>
    (mk host = Inr ip \<longrightarrow> isl (stoul port) \<longrightarrow>
       main_program P mk E es ds (prog # (host @ CHR '':'' # port) # rest) =
         Some (Exited 1 [''must provide valid address'']))"
  using bad_command_lines [OF assms, of mk prog rest host e ip] by (simp add: main_program_def die_def)

theorem main_errors_witness:
  "main_program demo (\<lambda>h. Inl (Library_Error h) :: exn + unit) calls_ok [] []
     [''wschat'', ''localhost:80''] = Some (Terminated (Library_Error ''localhost''))"
  using main_errors [of "''80''" "''x''" demo "\<lambda>h. Inl (Library_Error h) :: exn + unit" calls_ok "[]"
      "[]" "''wschat''" "[]" "''localhost''" "Library_Error ''localhost''"]
  by simp

text \<open>A process that does not listen stays as it was started.\<close>

definition deaf :: "system \<Rightarrow> bool" where
  "deaf s \<longleftrightarrow> \<not> listening s \<and> sessions s = (\<lambda>_. None) \<and> next_sess s = 0 \<and> chat s = world0"

lemma deaf_step: "deaf s \<Longrightarrow> sys_enabled e s \<Longrightarrow> deaf (sys_exec P e s)"
  by (cases e; cases "case e of Ws f \<Rightarrow> f | _ \<Rightarrow> Open")
     (auto simp: deaf_def sys_exec_accepted world_simps world0_def)

lemma deaf_run: "sys_run P es s = Some s' \<Longrightarrow> deaf s \<Longrightarrow> deaf s'"
  by (induction es arbitrary: s) (auto simp: deaf_step split: if_splits)

lemma deaf_drop: "deaf s \<Longrightarrow> drop_enabled d s \<Longrightarrow> deaf (drop_exec P d s)"
  by (cases d) (auto simp: deaf_def world0_def)

lemma deaf_drops: "drop_run P ds s = Some s' \<Longrightarrow> deaf s \<Longrightarrow> deaf s'"
  by (induction ds arbitrary: s) (auto simp: deaf_drop split: if_splits)

text \<open>C38: A server that cannot listen does not say so where it matters: when one of the four calls of
  the listener fails, its name and error are printed, but main goes on, prints that it is listening,
  serves nobody whatever happens, and returns 0 after the signal.\<close>

theorem deaf_server:
  assumes "platform_ok P" and "main_start mk argv = Start ip port workers"
    and "Operation_Aborted \<notin> {open_ec E, option_ec E, bind_ec E, listen_ec E}"
    and "{open_ec E, option_ec E, bind_ec E, listen_ec E} \<noteq> {Success}"
    and "main_program P mk E es ds argv = Some r"
  shows "length (cerr (main_listener E)) = 1 \<and>
    set (cerr (main_listener E)) \<subseteq> {(''open'', open_ec E), (''set_option'', option_ec E),
      (''bind'', bind_ec E), (''listen'', listen_ec E)} \<and>
    (\<exists>s'. r = Returned 0 ip port (running_threads workers) [listening_on (argv ! 1)] s' \<and>
       next_sess s' = 0 \<and> chat s' = world0)"
proof -
  have d: "deaf (main_listener E)" and c: "length (cerr (main_listener E)) = 1"
    "set (cerr (main_listener E)) \<subseteq> {(''open'', open_ec E), (''set_option'', option_ec E),
      (''bind'', bind_ec E), (''listen'', listen_ec E)}"
    using assms(3,4)
    by (auto simp: main_listener_def booted_def listener_defs listener_new_def listener_fail_def
        log_fail_def deaf_def)
  obtain s s' where s: "sys_run P es (main_listener E) = Some s" "drop_run P ds s = Some s'"
    and r: "r = Returned 0 ip port (running_threads workers) [listening_on (argv ! 1)] s'"
    by (rule main_program_start [OF assms(1,2,5)])
  have "deaf s'" by (rule deaf_drops [OF s(2) deaf_run [OF s(1) d]])
  then show ?thesis using c r by (simp add: deaf_def)
qed

definition port_taken :: system_calls where
  "port_taken = calls_ok\<lparr>bind_ec := Other_Error ''in use''\<rparr>"

lemma taken_run:
  "main_program demo any_host port_taken [Signal] [Drop_Listener] [''wschat'', ''::1:80''] =
     Some (Returned 0 ''::1'' 80 (running_threads 1) [listening_on ''::1:80'']
       (drop_exec demo Drop_Listener (main_on_signal (main_listener port_taken))))"
proof -
  let ?s = "main_on_signal (main_listener port_taken)"
  have c: "chat (main_listener port_taken) = world0" by (simp add: main_listener_def world_simps)
  have "\<not> stopped (main_listener port_taken)" "listener_accepts (main_listener port_taken) = 1"
    "sessions (main_listener port_taken) = (\<lambda>_. None)"
    by (simp_all add: main_listener_def port_taken_def calls_ok_def booted_def listener_defs
        listener_new_def listener_fail_def log_fail_def)
  then have "sys_run demo [Signal] (main_listener port_taken) = Some ?s"
    and "drop_run demo [Drop_Listener] ?s = Some (drop_exec demo Drop_Listener ?s)"
    and "nothing_left (drop_exec demo Drop_Listener ?s)"
    using c by (simp_all add: nothing_left_def world0_def)
  from main_program_returns [OF demo_ok demo_start this(1) _ this(2,3)] show ?thesis by simp
qed

theorem deaf_server_witness:
  "cerr (main_listener port_taken) = [(''bind'', Other_Error ''in use'')] \<and>
   next_sess (drop_exec demo Drop_Listener (main_on_signal (main_listener port_taken))) = 0"
proof -
  have "{open_ec port_taken, option_ec port_taken, bind_ec port_taken, listen_ec port_taken} =
      {Success, Other_Error ''in use''}"
    by (simp add: port_taken_def calls_ok_def insert_commute)
  then have "next_sess (drop_exec demo Drop_Listener (main_on_signal (main_listener port_taken))) = 0"
    using deaf_server [OF demo_ok demo_start _ _ taken_run] by auto
  then show ?thesis
    by (simp add: main_listener_def port_taken_def calls_ok_def booted_def listener_defs
        listener_new_def listener_fail_def log_fail_def)
qed

end
