(* ===== verification/Workers.thy ===== *)
theory Workers
  imports Prelude
begin

text \<open>
  Several worker threads. The rest of the development runs each handler from start to end; here the
  operations of \<open>Server\<close> are cut into the steps between which another thread may run, with the shared
  mutex, the reference counts and the memory of the connections explicit. A connection is an address
  here: it may be used again once it was freed. What a handler does besides calling the server is
  reduced to the operations it starts on its own connection.
\<close>

section \<open>Code\<close>

datatype instr =
    Send conn string
  | Lock_Shared
  | Unlock_Shared
  | Lock_Exclusive
  | Unlock_Exclusive
  | Loop string
  | Visit string conn
  | Release conn
  | Insert conn
  | Erase conn
  | Free conn
  | Start conn
  | Leave_Strand conn

text \<open>
  \<open>Server\<close>: the guards lock where they are declared and unlock at the end of the function. \<open>Visit\<close> is
  one iteration of the loop in \<open>broadcast_msg_text\<close>; \<open>Release\<close> ends the life of one shared pointer.
\<close>

definition broadcast_code :: "string \<Rightarrow> instr list" where
  "broadcast_code ss = [Lock_Shared, Loop ss, Unlock_Shared]"

definition connect_code :: "conn \<Rightarrow> string \<Rightarrow> instr list" where
  "connect_code ws ss =
     Send ws ss # broadcast_code ss @ [Lock_Exclusive, Insert ws, Unlock_Exclusive]"

definition disconnect_code :: "conn \<Rightarrow> string \<Rightarrow> instr list" where
  "disconnect_code ws ss = broadcast_code ss @ [Lock_Exclusive, Erase ws, Unlock_Exclusive]"

definition destructor_code :: "conn \<Rightarrow> string \<Rightarrow> instr list" where
  "destructor_code ws ss = disconnect_code ws ss @ [Free ws]"

text \<open>
  The handlers of a connection, by what they do: join (\<open>accept\<close>), broadcast a message (\<open>handle\<close>), answer
  an error (\<open>handle\<close>), start another operation (\<open>on_send\<close>, \<open>on_write\<close>) or none (failures; \<open>on_send\<close>
  behind a queue, \<open>on_write\<close> of the last text). Each runs on the strand of its connection and holds a
  shared pointer to it, which goes at the end.
\<close>

datatype work =
    Joining conn string
  | Saying conn string
  | Answering conn string
  | Going_On conn
  | Finishing conn

fun work_conn :: "work \<Rightarrow> conn" where
  "work_conn (Joining c s) = c"
| "work_conn (Saying c s) = c"
| "work_conn (Answering c s) = c"
| "work_conn (Going_On c) = c"
| "work_conn (Finishing c) = c"

fun work_code :: "work \<Rightarrow> instr list" where
  "work_code (Joining c s) = connect_code c s @ [Start c, Release c, Leave_Strand c]"
| "work_code (Saying c s) = broadcast_code s @ [Start c, Release c, Leave_Strand c]"
| "work_code (Answering c s) = [Send c s, Start c, Release c, Leave_Strand c]"
| "work_code (Going_On c) = [Start c, Release c, Leave_Strand c]"
| "work_code (Finishing c) = [Release c, Leave_Strand c]"

section \<open>State and steps\<close>

text \<open>
  \<open>Dangling\<close>: use of a freed object or of one nobody owns. \<open>Race\<close>: the set is changed without the
  exclusive lock or under a reader. \<open>Relock\<close>: a thread locks a mutex it already holds, which is
  undefined for \<open>std::shared_mutex\<close> and deadlocks in practice.
\<close>

datatype fault = Dangling | Race | Relock

text \<open>
  The object \<open>Server\<close>: its mutex, by the threads that hold it shared and the one that holds it exclusively,
  and the pointers in \<open>clients_\<close>.
\<close>

record server =
  readers :: "nat set"
  owner :: "nat option"
  client_set :: "conn set"

text \<open>
  The pool adds to it the threads and the connections: \<open>code\<close> is what each thread has still to do, \<open>busy\<close>
  the strands in use, \<open>refs\<close> and \<open>pending\<close> count the shared pointers to a connection and those of them that
  outstanding operations hold, \<open>store\<close> is the connections in memory and \<open>outbox\<close> all that was sent to each.
\<close>

record pool = server +
  code :: "nat \<Rightarrow> instr list"
  busy :: "conn set"
  refs :: "conn \<Rightarrow> nat"
  pending :: "conn \<Rightarrow> nat"
  store :: "conn set"
  outbox :: "conn \<Rightarrow> string list"
  fault :: "fault option"

definition pool0 :: pool where
  "pool0 = \<lparr>readers = {}, owner = None, client_set = {}, code = (\<lambda>_. []), busy = {},
     refs = (\<lambda>_. 0), pending = (\<lambda>_. 0), store = {}, outbox = (\<lambda>_. []), fault = None\<rparr>"

text \<open>
  \<open>instr_step bye i cs x k p\<close>: thread \<open>i\<close> executes \<open>x\<close> and goes on with \<open>k\<close>. \<open>cs\<close> is the order in which a
  loop visits the set, \<open>bye c\<close> the text of the disconnect message of \<open>c\<close>.
\<close>

fun instr_step :: "(conn \<Rightarrow> string) \<Rightarrow> nat \<Rightarrow> conn list \<Rightarrow> instr \<Rightarrow> instr list \<Rightarrow> pool \<Rightarrow> pool" where
  "instr_step bye i cs (Send c s) k p =
     (if refs p c = 0 then p\<lparr>fault := Some Dangling\<rparr>
      else p\<lparr>code := (code p)(i := k), refs := (refs p)(c := Suc (refs p c)),
             pending := (pending p)(c := Suc (pending p c)),
             outbox := (outbox p)(c := outbox p c @ [s])\<rparr>)"
| "instr_step bye i cs Lock_Shared k p =
     (if i \<in> readers p \<or> owner p = Some i then p\<lparr>fault := Some Relock\<rparr>
      else p\<lparr>code := (code p)(i := k), readers := insert i (readers p)\<rparr>)"
| "instr_step bye i cs Unlock_Shared k p =
     p\<lparr>code := (code p)(i := k), readers := readers p - {i}\<rparr>"
| "instr_step bye i cs Lock_Exclusive k p =
     (if i \<in> readers p \<or> owner p = Some i then p\<lparr>fault := Some Relock\<rparr>
      else p\<lparr>code := (code p)(i := k), owner := Some i\<rparr>)"
| "instr_step bye i cs Unlock_Exclusive k p = p\<lparr>code := (code p)(i := k), owner := None\<rparr>"
| "instr_step bye i cs (Loop s) k p = p\<lparr>code := (code p)(i := map (Visit s) cs @ k)\<rparr>"
| "instr_step bye i cs (Visit s c) k p =
     (if c \<notin> store p then p\<lparr>fault := Some Dangling\<rparr>
      else if refs p c = 0 then p\<lparr>code := (code p)(i := k)\<rparr>
      else p\<lparr>code := (code p)(i := Send c s # Release c # k), refs := (refs p)(c := Suc (refs p c))\<rparr>)"
| "instr_step bye i cs (Release c) k p =
     (if refs p c = 0 then p\<lparr>fault := Some Dangling\<rparr>
      else p\<lparr>code := (code p)(i := if refs p c = 1 then destructor_code c (bye c) @ k else k),
             refs := (refs p)(c := refs p c - 1)\<rparr>)"
| "instr_step bye i cs (Insert c) k p =
     (if readers p \<noteq> {} \<or> owner p \<noteq> Some i then p\<lparr>fault := Some Race\<rparr>
      else p\<lparr>code := (code p)(i := k), client_set := insert c (client_set p)\<rparr>)"
| "instr_step bye i cs (Erase c) k p =
     (if readers p \<noteq> {} \<or> owner p \<noteq> Some i then p\<lparr>fault := Some Race\<rparr>
      else p\<lparr>code := (code p)(i := k), client_set := client_set p - {c}\<rparr>)"
| "instr_step bye i cs (Free c) k p = p\<lparr>code := (code p)(i := k), store := store p - {c}\<rparr>"
| "instr_step bye i cs (Start c) k p =
     (if refs p c = 0 then p\<lparr>fault := Some Dangling\<rparr>
      else p\<lparr>code := (code p)(i := k), refs := (refs p)(c := Suc (refs p c)),
             pending := (pending p)(c := Suc (pending p c))\<rparr>)"
| "instr_step bye i cs (Leave_Strand c) k p = p\<lparr>code := (code p)(i := k), busy := busy p - {c}\<rparr>"

text \<open>A lock waits while another thread excludes it.\<close>

fun blocked :: "nat \<Rightarrow> instr \<Rightarrow> pool \<Rightarrow> bool" where
  "blocked i Lock_Shared p \<longleftrightarrow> owner p \<noteq> None \<and> owner p \<noteq> Some i \<and> i \<notin> readers p"
| "blocked i Lock_Exclusive p \<longleftrightarrow>
     (owner p \<noteq> None \<or> readers p \<noteq> {}) \<and> owner p \<noteq> Some i \<and> i \<notin> readers p"
| "blocked i _ p \<longleftrightarrow> False"

text \<open>
  A connection is made with its handshake outstanding; an idle thread takes a completed operation of a
  connection whose strand is free; a busy thread makes one step.
\<close>

datatype pool_event =
    New conn
  | Begin nat work
  | Step nat "conn list"

definition loop_order :: "instr \<Rightarrow> conn list \<Rightarrow> pool \<Rightarrow> bool" where
  "loop_order x cs p \<longleftrightarrow> (case x of Loop s \<Rightarrow> distinct cs \<and> set cs = client_set p | _ \<Rightarrow> True)"

fun pool_enabled :: "nat \<Rightarrow> pool_event \<Rightarrow> pool \<Rightarrow> bool" where
  "pool_enabled N (New c) p \<longleftrightarrow> c \<notin> store p"
| "pool_enabled N (Begin i w) p \<longleftrightarrow>
     i < N \<and> code p i = [] \<and> pending p (work_conn w) > 0 \<and> work_conn w \<notin> busy p"
| "pool_enabled N (Step i cs) p \<longleftrightarrow>
     i < N \<and> (case code p i of [] \<Rightarrow> False | x # k \<Rightarrow> \<not> blocked i x p \<and> loop_order x cs p)"

fun pool_exec :: "(conn \<Rightarrow> string) \<Rightarrow> pool_event \<Rightarrow> pool \<Rightarrow> pool" where
  "pool_exec bye (New c) p =
     p\<lparr>store := insert c (store p), refs := (refs p)(c := 1), pending := (pending p)(c := 1),
       outbox := (outbox p)(c := [])\<rparr>"
| "pool_exec bye (Begin i w) p =
     p\<lparr>code := (code p)(i := work_code w), busy := insert (work_conn w) (busy p),
       pending := (pending p)(work_conn w := pending p (work_conn w) - 1)\<rparr>"
| "pool_exec bye (Step i cs) p =
     (case code p i of [] \<Rightarrow> p | x # k \<Rightarrow> instr_step bye i cs x k p)"

inductive pool_step :: "nat \<Rightarrow> (conn \<Rightarrow> string) \<Rightarrow> pool \<Rightarrow> pool_event \<Rightarrow> pool \<Rightarrow> bool" for N bye where
  pool_stepI: "fault p = None \<Longrightarrow> pool_enabled N e p \<Longrightarrow> pool_step N bye p e (pool_exec bye e p)"

inductive_simps pool_step_iff: "pool_step N bye p e p'"

abbreviation pool_reachable :: "nat \<Rightarrow> (conn \<Rightarrow> string) \<Rightarrow> pool \<Rightarrow> bool" where
  "pool_reachable N bye p \<equiv> reach (\<lambda>p. p = pool0) (pool_step N bye) p"

fun pool_run :: "nat \<Rightarrow> (conn \<Rightarrow> string) \<Rightarrow> pool_event list \<Rightarrow> pool \<Rightarrow> pool option" where
  "pool_run N bye [] p = Some p"
| "pool_run N bye (e # es) p =
     (if fault p = None \<and> pool_enabled N e p then pool_run N bye es (pool_exec bye e p) else None)"

lemma pool_run_reachable:
  "pool_run N bye es p = Some p' \<Longrightarrow> pool_reachable N bye p \<Longrightarrow> pool_reachable N bye p'"
proof (induction es arbitrary: p)
  case Nil
  then show ?case by simp
next
  case (Cons e es)
  then have "pool_step N bye p e (pool_exec bye e p)" by (simp add: pool_step_iff split: if_splits)
  then have "pool_reachable N bye (pool_exec bye e p)" using Cons.prems(2) reach_step by fastforce
  then show ?case using Cons by (simp split: if_splits)
qed

end
