(* ===== verification/Worker_Safety.thy ===== *)
theory Worker_Safety
  imports Workers
begin

text \<open>
  The invariant of the worker pool: the mutex is held as the code says, the reference counts are
  exact, one destructor at most runs for an object, and whatever a thread is about to visit is in the
  set and in memory. From it follow the safety of the interleaved server and its freedom from
  deadlock as long as no destructor runs inside a broadcast.
\<close>

section \<open>The shape of the code\<close>

text \<open>
  \<open>flat\<close>: what a thread that holds no lock may still have to do. \<open>rest_loop\<close>: the same for one at the
  start of an iteration of the loop.
\<close>

inductive flat :: "instr list \<Rightarrow> bool" where
  "flat []"
| "flat k \<Longrightarrow> flat (Lock_Shared # Loop s # Unlock_Shared # k)"
| "flat k \<Longrightarrow> flat (Lock_Exclusive # Insert c # Unlock_Exclusive # k)"
| "flat k \<Longrightarrow> flat (Lock_Exclusive # Erase c # Unlock_Exclusive # k)"
| "flat k \<Longrightarrow> flat (Send c s # k)"
| "flat k \<Longrightarrow> flat (Release c # k)"
| "flat k \<Longrightarrow> flat (Start c # k)"
| "flat k \<Longrightarrow> flat (Free c # k)"
| "flat k \<Longrightarrow> flat (Leave_Strand c # k)"

inductive_simps flat_simps [simp]:
  "flat []" "flat (Lock_Shared # k)" "flat (Unlock_Shared # k)" "flat (Lock_Exclusive # k)"
  "flat (Unlock_Exclusive # k)" "flat (Send c s # k)" "flat (Release c # k)" "flat (Start c # k)"
  "flat (Free c # k)" "flat (Leave_Strand c # k)" "flat (Loop s # k)" "flat (Visit s c # k)"
  "flat (Insert c # k)" "flat (Erase c # k)"

fun rest_loop :: "instr list \<Rightarrow> bool" where
  "rest_loop (Visit s c # k) = rest_loop k"
| "rest_loop (Unlock_Shared # k) = flat k"
| "rest_loop _ = False"

text \<open>
  What a reader and the owner have before them. The last case of a reader is a destructor that runs
  inside the loop.
\<close>

definition reading :: "instr list \<Rightarrow> bool" where
  "reading k \<longleftrightarrow> rest_loop k \<or> (\<exists>s k'. k = Loop s # Unlock_Shared # k' \<and> flat k') \<or>
     (\<exists>c k'. k = Release c # k' \<and> rest_loop k') \<or>
     (\<exists>c s k'. k = Send c s # Release c # k' \<and> rest_loop k') \<or>
     (\<exists>c s k'. k = destructor_code c s @ k' \<and> rest_loop k')"

definition owning :: "instr list \<Rightarrow> bool" where
  "owning k \<longleftrightarrow> (\<exists>k'. k = Unlock_Exclusive # k' \<and> flat k') \<or>
     (\<exists>x k'. k = x # Unlock_Exclusive # k' \<and> flat k' \<and> (\<exists>c. x = Insert c \<or> x = Erase c))"

definition shaped :: "pool \<Rightarrow> nat \<Rightarrow> bool" where
  "shaped p i \<longleftrightarrow> (if owner p = Some i then owning (code p i)
     else if i \<in> readers p then reading (code p i) else flat (code p i))"

text \<open>
  What a thread touches it holds: a shared pointer to what it sends to, starts on or inserts, the
  duty to free what it erases.
\<close>

fun owned :: "instr list \<Rightarrow> bool" where
  "owned [] = True"
| "owned (Send c s # k) = (Release c \<in> set k \<and> owned k)"
| "owned (Start c # k) = (Release c \<in> set k \<and> owned k)"
| "owned (Insert c # k) = (Release c \<in> set k \<and> owned k)"
| "owned (Erase c # k) = (Free c \<in> set k \<and> owned k)"
| "owned (x # k) = owned k"

lemma owned_in:
  "owned k \<Longrightarrow> Insert c \<in> set k \<Longrightarrow> Release c \<in> set k"
  "owned k \<Longrightarrow> Erase c \<in> set k \<Longrightarrow> Free c \<in> set k"
  by (induction k rule: owned.induct) auto

lemma owned_tl: "owned (x # k) \<Longrightarrow> owned k"
  by (cases x) auto

lemma owned_visits: "owned (map (Visit s) cs @ k) = owned k"
  by (induction cs) auto

lemma owned_destructor: "owned (destructor_code c s @ k) = owned k"
  by (simp add: destructor_code_def disconnect_code_def broadcast_code_def)

lemma owned_work: "owned (work_code w)"
  by (cases w) (auto simp: connect_code_def broadcast_code_def)

lemma flat_work: "flat (work_code w)"
  by (cases w) (auto simp: connect_code_def broadcast_code_def)

lemma flat_destructor: "flat (destructor_code c s @ k) = flat k"
  by (auto simp: destructor_code_def disconnect_code_def broadcast_code_def)

lemma rest_loop_visits: "rest_loop (map (Visit s) cs @ k) = rest_loop k"
  by (induction cs) auto

lemma flat_no_visit: "flat k \<Longrightarrow> Visit s c \<notin> set k"
  by (induction rule: flat.induct) auto

section \<open>Counting\<close>

text \<open>\<open>total N p x\<close> counts an instruction in the code of all threads.\<close>

definition total :: "nat \<Rightarrow> pool \<Rightarrow> instr \<Rightarrow> nat" where
  "total N p x = (\<Sum>i<N. count_list (code p i) x)"

lemma total_update:
  assumes "i < N" and "code q = (code p)(i := k)"
  shows "total N q x + count_list (code p i) x = total N p x + count_list k x"
  unfolding total_def assms(2) by (rule sum_update [OF assms(1)])

lemma total_in: "i < N \<Longrightarrow> x \<in> set (code p i) \<Longrightarrow> 0 < total N p x"
proof -
  assume "i < N" and "x \<in> set (code p i)"
  then have "count_list (code p i) x \<noteq> 0" by (simp add: count_list_0_iff)
  moreover have "count_list (code p i) x \<le> total N p x"
    unfolding total_def by (rule member_le_sum) (use \<open>i < N\<close> in auto)
  ultimately show ?thesis by simp
qed

lemma total_0: "total N p x = 0 \<Longrightarrow> i < N \<Longrightarrow> x \<notin> set (code p i)"
  using total_in by fastforce

section \<open>The invariant\<close>

definition counted :: "nat \<Rightarrow> pool \<Rightarrow> bool" where
  "counted N p \<longleftrightarrow> (\<forall>c. refs p c = pending p c + total N p (Release c)) \<and>
     (\<forall>c. refs p c > 0 \<longrightarrow> c \<in> store p) \<and> (\<forall>c. total N p (Free c) \<le> 1)"

definition freeing :: "pool \<Rightarrow> bool" where
  "freeing p \<longleftrightarrow> (\<forall>i c. Free c \<in> set (code p i) \<longrightarrow>
     refs p c = 0 \<and> c \<in> store p \<and> (Erase c \<notin> set (code p i) \<longrightarrow> c \<notin> client_set p))"

definition visiting :: "pool \<Rightarrow> bool" where
  "visiting p \<longleftrightarrow> client_set p \<subseteq> store p \<and>
     (\<forall>i s c. Visit s c \<in> set (code p i) \<longrightarrow> i \<in> readers p \<and> c \<in> client_set p)"

definition locked :: "nat \<Rightarrow> pool \<Rightarrow> bool" where
  "locked N p \<longleftrightarrow> (\<forall>i. shaped p i \<and> owned (code p i)) \<and> (owner p \<noteq> None \<longrightarrow> readers p = {}) \<and>
     (\<forall>i. i \<ge> N \<longrightarrow> code p i = [])"

definition pool_inv :: "nat \<Rightarrow> pool \<Rightarrow> bool" where
  "pool_inv N p \<longleftrightarrow> locked N p \<and> counted N p \<and> freeing p \<and> visiting p"

lemma pool_invD:
  assumes "pool_inv N p"
  shows "shaped p i" and "owned (code p i)" and "owner p \<noteq> None \<Longrightarrow> readers p = {}"
    and "i \<ge> N \<Longrightarrow> code p i = []"
    and "refs p c = pending p c + total N p (Release c)" and "refs p c > 0 \<Longrightarrow> c \<in> store p"
    and "total N p (Free c) \<le> 1" and "Free c \<in> set (code p i) \<Longrightarrow> refs p c = 0"
    and "Free c \<in> set (code p i) \<Longrightarrow> c \<in> store p"
    and "Free c \<in> set (code p i) \<Longrightarrow> Erase c \<notin> set (code p i) \<Longrightarrow> c \<notin> client_set p"
    and "client_set p \<subseteq> store p"
    and "Visit s c \<in> set (code p i) \<Longrightarrow> i \<in> readers p"
    and "Visit s c \<in> set (code p i) \<Longrightarrow> c \<in> client_set p"
  using assms unfolding pool_inv_def locked_def counted_def freeing_def visiting_def by blast+

lemma reading_simps [simp]:
  "reading (Visit s c # k) = rest_loop k" "reading (Unlock_Shared # k) = flat k"
  "reading (Loop s # k) = (\<exists>k'. k = Unlock_Shared # k' \<and> flat k')"
  "reading (Release c # k) = rest_loop k"
  "reading (Send c s # k) = (\<exists>k'. k = Release c # k' \<and> rest_loop k')"
  "\<not> reading (Lock_Exclusive # k)" "\<not> reading (Unlock_Exclusive # k)" "\<not> reading (Insert c # k)"
  "\<not> reading (Erase c # k)" "\<not> reading (Free c # k)" "\<not> reading (Start c # k)"
  "\<not> reading (Leave_Strand c # k)" "\<not> reading []"
  by (auto simp: reading_def destructor_code_def disconnect_code_def broadcast_code_def)

lemma owning_simps [simp]:
  "owning (Unlock_Exclusive # k) = flat k"
  "owning (Insert c # k) = (\<exists>k'. k = Unlock_Exclusive # k' \<and> flat k')"
  "owning (Erase c # k) = (\<exists>k'. k = Unlock_Exclusive # k' \<and> flat k')"
  "\<not> owning []" "\<not> owning (Send c s # k)" "\<not> owning (Lock_Shared # k)" "\<not> owning (Unlock_Shared # k)"
  "\<not> owning (Lock_Exclusive # k)" "\<not> owning (Loop s # k)" "\<not> owning (Visit s c # k)"
  "\<not> owning (Release c # k)" "\<not> owning (Free c # k)" "\<not> owning (Start c # k)"
  "\<not> owning (Leave_Strand c # k)"
  by (auto simp: owning_def)

section \<open>Changes of one thread\<close>

lemma locked_update:
  assumes I: "pool_inv N p" and i: "i < N" and q: "code q = (code p)(i := k)"
    and m: "\<And>j. j \<noteq> i \<Longrightarrow> (j \<in> readers q \<longleftrightarrow> j \<in> readers p) \<and> (owner q = Some j \<longleftrightarrow> owner p = Some j)"
    and "shaped q i" and "owned k" and "owner q \<noteq> None \<Longrightarrow> readers q = {}"
  shows "locked N q"
proof -
  have "shaped q j" for j
    using assms(5) m [of j] q pool_invD(1) [OF I, of j] by (cases "j = i") (auto simp: shaped_def)
  moreover have "owned (code q j)" for j
    using assms(6) q pool_invD(2) [OF I, of j] by (cases "j = i") auto
  ultimately show ?thesis using assms(7) i q pool_invD(4) [OF I] by (auto simp: locked_def)
qed

lemma counted_update:
  assumes I: "pool_inv N p" and i: "i < N" and q: "code q = (code p)(i := k)"
    and r: "\<And>c. refs q c + pending p c + count_list (code p i) (Release c) =
      refs p c + pending q c + count_list k (Release c)"
    and f: "\<And>c. total N p (Free c) + count_list k (Free c) \<le> Suc (count_list (code p i) (Free c))"
    and "\<And>c. refs q c > 0 \<Longrightarrow> c \<in> store q"
  shows "counted N q"
proof -
  have "refs q c = pending q c + total N q (Release c)" for c
    using r [of c] total_update [OF i q, of "Release c"] pool_invD(5) [OF I, of c] by linarith
  moreover have "total N q (Free c) \<le> 1" for c
    using f [of c] total_update [OF i q, of "Free c"] by linarith
  ultimately show ?thesis using assms(6) by (simp add: counted_def)
qed

text \<open>The common case: no destructor begins, and no thread loses what it visits or frees.\<close>

lemma pool_inv_update:
  assumes I: "pool_inv N p" and i: "i < N" and q: "code q = (code p)(i := k)"
    and m: "\<And>j. j \<noteq> i \<Longrightarrow> (j \<in> readers q \<longleftrightarrow> j \<in> readers p) \<and> (owner q = Some j \<longleftrightarrow> owner p = Some j)"
    and s: "shaped q i" and o: "owned k" and l: "owner q \<noteq> None \<Longrightarrow> readers q = {}"
    and r: "\<And>c. refs q c + pending p c + count_list (code p i) (Release c) =
      refs p c + pending q c + count_list k (Release c)"
    and f: "\<And>c. count_list k (Free c) \<le> count_list (code p i) (Free c)"
    and e: "\<And>c. Free c \<in> set k \<Longrightarrow> Erase c \<in> set (code p i) \<Longrightarrow> Erase c \<notin> set k \<Longrightarrow> c \<notin> client_set q"
    and st: "store q = store p" and z: "\<And>c. refs p c = 0 \<Longrightarrow> refs q c = 0"
    and cs: "\<And>c. c \<in> client_set q \<Longrightarrow> c \<in> client_set p \<or> refs p c > 0"
    and v: "\<And>s c. Visit s c \<in> set k \<Longrightarrow> i \<in> readers q \<and> c \<in> client_set q"
    and w: "\<And>j s c. j \<noteq> i \<Longrightarrow> Visit s c \<in> set (code p j) \<Longrightarrow> c \<in> client_set q"
  shows "pool_inv N q"
proof -
  have pos: "refs q c > 0 \<Longrightarrow> refs p c > 0" for c using z [of c] by (cases "refs p c") auto
  have fk: "Free c \<in> set k \<Longrightarrow> Free c \<in> set (code p i)" for c
    using f [of c] by (metis count_list_0_iff le_zero_eq)
  have "counted N q"
  proof (rule counted_update [OF I i q r])
    show "total N p (Free c) + count_list k (Free c) \<le> Suc (count_list (code p i) (Free c))" for c
      using f [of c] pool_invD(7) [OF I, of c] by linarith
    show "refs q c > 0 \<Longrightarrow> c \<in> store q" for c using pos pool_invD(6) [OF I] st by simp
  qed
  moreover have "refs q c = 0 \<and> c \<in> store q \<and> (Erase c \<notin> set (code q j) \<longrightarrow> c \<notin> client_set q)"
    if F: "Free c \<in> set (code q j)" for j c
  proof -
    have F': "Free c \<in> set (code p j)" using F q fk by (auto split: if_splits)
    then have r0: "refs p c = 0" by (rule pool_invD(8) [OF I])
    have "c \<notin> client_set q" if "Erase c \<notin> set (code q j)"
    proof (cases "Erase c \<in> set (code p j)")
      case True
      then have "j = i" using that q by (auto split: if_splits)
      then show ?thesis using True e F that q by auto
    next
      case False
      then show ?thesis using pool_invD(10) [OF I F'] cs [of c] r0 by auto
    qed
    then show ?thesis using r0 z st pool_invD(9) [OF I F'] by auto
  qed
  moreover have "visiting q"
  proof -
    have "client_set q \<subseteq> store q"
      using cs st pool_invD(11) [OF I] pool_invD(6) [OF I] by blast
    moreover have "j \<in> readers q \<and> c \<in> client_set q" if V: "Visit u c \<in> set (code q j)" for j u c
    proof (cases "j = i")
      case True
      then show ?thesis using v V q by auto
    next
      case False
      then have "Visit u c \<in> set (code p j)" using V q by simp
      then show ?thesis using pool_invD(12) [OF I] w [OF False] m [OF False] by blast
    qed
    ultimately show ?thesis by (auto simp: visiting_def)
  qed
  ultimately show ?thesis
    using locked_update [OF I i q m s o l] by (simp add: pool_inv_def freeing_def)
qed

lemma held:
  assumes "pool_inv N p" and "i < N" and "Release c \<in> set (code p i)"
  shows "refs p c > 0"
  using total_in [OF assms(2,3)] pool_invD(5) [OF assms(1), of c] by simp

lemma total_pos:
  assumes "0 < total N p x"
  shows "\<exists>i<N. x \<in> set (code p i)"
proof (rule ccontr)
  assume "\<not> (\<exists>i<N. x \<in> set (code p i))"
  then have "total N p x = 0" by (simp add: total_def count_list_0_iff)
  then show False using assms by simp
qed

lemma no_free:
  assumes "pool_inv N p" and "refs p c > 0"
  shows "total N p (Free c) = 0"
  using total_pos [of N p "Free c"] pool_invD(8) [OF assms(1), of c] assms(2) by force

section \<open>Every step keeps the invariant\<close>

lemma start_or_send_inv:
  assumes I: "pool_inv N p" and i: "i < N" and x: "code p i = x # k" and c: "Release c \<in> set k"
    and sh: "x = Send c s \<or> x = Start c"
    and q: "code q = (code p)(i := k)" "refs q = (refs p)(c := Suc (refs p c))"
      "pending q = (pending p)(c := Suc (pending p c))" "readers q = readers p" "owner q = owner p"
      "client_set q = client_set p" "store q = store p"
  shows "pool_inv N q"
proof (rule pool_inv_update [OF I i q(1)])
  have pos: "refs p c > 0" by (rule held [OF I i]) (simp add: x c)
  show "shaped q i" "owned k" using pool_invD(1,2) [OF I, of i] x sh q by (auto simp: shaped_def)
  show "refs q d = 0" if "refs p d = 0" for d using that pos q by auto
  show "refs q d + pending p d + count_list (code p i) (Release d) =
      refs p d + pending q d + count_list k (Release d)" for d
    using q x sh by auto
  show "count_list k (Free d) \<le> count_list (code p i) (Free d)" for d using x by simp
  show "Free d \<in> set k \<Longrightarrow> Erase d \<in> set (code p i) \<Longrightarrow> Erase d \<notin> set k \<Longrightarrow> d \<notin> client_set q" for d
    using x sh by auto
  show "Visit u d \<in> set k \<Longrightarrow> i \<in> readers q \<and> d \<in> client_set q" for u d
    using pool_invD(12,13) [OF I, of u d i] x q by simp
qed (use q pool_invD(3,13) [OF I] in auto)

lemma lock_inv:
  assumes I: "pool_inv N p" and i: "i < N" and x: "code p i = x # k"
    and sh: "x \<in> {Lock_Shared, Unlock_Shared, Lock_Exclusive, Unlock_Exclusive}"
    and q: "code q = (code p)(i := k)" "refs q = refs p" "pending q = pending p"
      "client_set q = client_set p" "store q = store p"
    and m: "\<And>j. j \<noteq> i \<Longrightarrow> (j \<in> readers q \<longleftrightarrow> j \<in> readers p) \<and> (owner q = Some j \<longleftrightarrow> owner p = Some j)"
    and s: "shaped q i" and l: "owner q \<noteq> None \<Longrightarrow> readers q = {}"
    and v: "\<And>u d. Visit u d \<in> set k \<Longrightarrow> i \<in> readers q"
  shows "pool_inv N q"
proof (rule pool_inv_update [OF I i q(1) m s])
  show "owned k" using pool_invD(2) [OF I, of i] x owned_tl by metis
  show "Visit u d \<in> set k \<Longrightarrow> i \<in> readers q \<and> d \<in> client_set q" for u d
    using v pool_invD(13) [OF I, of u d i] x q by simp
  show "Free d \<in> set k \<Longrightarrow> Erase d \<in> set (code p i) \<Longrightarrow> Erase d \<notin> set k \<Longrightarrow> d \<notin> client_set q" for d
    using x sh by auto
qed (use q x sh l pool_invD(13) [OF I] in auto)

lemma reading_rest: "rest_loop k \<Longrightarrow> reading k"
  by (simp add: reading_def)

lemma reading_destructor: "rest_loop k \<Longrightarrow> reading (destructor_code c s @ k)"
  by (auto simp: reading_def)

lemma release_last_inv:
  assumes I: "pool_inv N p" and i: "i < N" and x: "code p i = Release c # k" and r: "refs p c = 1"
  shows "pool_inv N (p\<lparr>code := (code p)(i := destructor_code c s @ k), refs := (refs p)(c := 0)\<rparr>)"
    (is "pool_inv N ?q")
proof -
  have q: "code ?q = (code p)(i := destructor_code c s @ k)" by simp
  have d: "set (destructor_code c s) =
      {Lock_Shared, Loop s, Unlock_Shared, Lock_Exclusive, Erase c, Unlock_Exclusive, Free c}"
    "count_list (destructor_code c s) (Release e) = 0"
    "count_list (destructor_code c s) (Free e) = (if e = c then 1 else 0)" for e
    by (auto simp: destructor_code_def disconnect_code_def broadcast_code_def)
  have "locked N ?q"
  proof (rule locked_update [OF I i q])
    show "shaped ?q i"
      using pool_invD(1) [OF I, of i] x by (auto simp: shaped_def flat_destructor reading_destructor split: if_splits)
    show "owned (destructor_code c s @ k)"
      using pool_invD(2) [OF I, of i] x by (simp add: owned_destructor)
  qed (use pool_invD(3) [OF I] in auto)
  moreover have "counted N ?q"
  proof (rule counted_update [OF I i q])
    show "total N p (Free e) + count_list (destructor_code c s @ k) (Free e)
        \<le> Suc (count_list (code p i) (Free e))" for e
      using d(3) [of e] x pool_invD(7) [OF I, of e] no_free [OF I, of c] r by auto
    show "refs ?q e + pending p e + count_list (code p i) (Release e) =
        refs p e + pending ?q e + count_list (destructor_code c s @ k) (Release e)" for e
      using d(2) [of e] x r by auto
    show "refs ?q e > 0 \<Longrightarrow> e \<in> store ?q" for e using pool_invD(6) [OF I, of e] by (auto split: if_splits)
  qed
  moreover have "refs ?q e = 0 \<and> e \<in> store ?q \<and> (Erase e \<notin> set (code ?q j) \<longrightarrow> e \<notin> client_set ?q)"
    if F: "Free e \<in> set (code ?q j)" for j e
  proof (cases "j = i \<and> e = c")
    case True
    then show ?thesis using d(1) r pool_invD(6) [OF I, of c] by auto
  next
    case False
    then have F': "Free e \<in> set (code p j)" using F x d(1) by (auto split: if_splits)
    then have "e \<noteq> c" using pool_invD(8) [OF I] r by force
    moreover from this have "Erase e \<in> set (code ?q j) \<longleftrightarrow> Erase e \<in> set (code p j)" using x d(1) by auto
    ultimately show ?thesis using pool_invD(8-10) [OF I F'] by simp
  qed
  moreover have "visiting ?q"
    using pool_invD(11-13) [OF I] x d(1) by (auto simp: visiting_def) (metis list.set_intros(2))+
  ultimately show ?thesis by (simp add: pool_inv_def freeing_def)
qed

lemma free_inv:
  assumes I: "pool_inv N p" and i: "i < N" and x: "code p i = Free c # k"
  shows "pool_inv N (p\<lparr>code := (code p)(i := k), store := store p - {c}\<rparr>)" (is "pool_inv N ?q")
proof -
  have q: "code ?q = (code p)(i := k)" by simp
  have z: "refs p c = 0" by (rule pool_invD(8) [OF I, of c i]) (simp add: x)
  have "total N ?q (Free c) = 0"
    using total_update [OF i q, of "Free c"] pool_invD(7) [OF I, of c] x by simp
  then have none: "Free c \<notin> set (code ?q j)" for j
    using total_0 [of N ?q "Free c" j] pool_invD(4) [OF I, of j] i by (cases "j < N") auto
  have o: "owned k" using pool_invD(2) [OF I, of i] x by simp
  then have "Erase c \<notin> set k" using owned_in(2) none [of i] by auto
  then have out: "c \<notin> client_set p" using pool_invD(10) [OF I, of c i] x by simp
  have "locked N ?q"
    by (rule locked_update [OF I i q _ _ o])
       (use pool_invD(1) [OF I, of i] pool_invD(3) [OF I] x in \<open>auto simp: shaped_def\<close>)
  moreover have "counted N ?q"
  proof (rule counted_update [OF I i q])
    show "total N p (Free e) + count_list k (Free e) \<le> Suc (count_list (code p i) (Free e))" for e
      using pool_invD(7) [OF I, of e] x by auto
    show "refs ?q e > 0 \<Longrightarrow> e \<in> store ?q" for e using pool_invD(6) [OF I, of e] z by auto
  qed (use x in auto)
  moreover have "freeing ?q"
    unfolding freeing_def
  proof (intro allI impI)
    fix j e assume F: "Free e \<in> set (code ?q j)"
    then have "e \<noteq> c" using none by auto
    moreover have F': "Free e \<in> set (code p j)" using F x by (auto split: if_splits)
    moreover from \<open>e \<noteq> c\<close> have "Erase e \<in> set (code ?q j) \<longleftrightarrow> Erase e \<in> set (code p j)" using x by auto
    ultimately show "refs ?q e = 0 \<and> e \<in> store ?q \<and> (Erase e \<notin> set (code ?q j) \<longrightarrow> e \<notin> client_set ?q)"
      using pool_invD(8-10) [OF I F'] by simp
  qed
  moreover have "visiting ?q"
    using pool_invD(11-13) [OF I] x out by (auto simp: visiting_def split: if_splits)
      (metis list.set_intros(2))+
  ultimately show ?thesis by (simp add: pool_inv_def)
qed

text \<open>
  \<open>step_ok\<close>: after one instruction either the invariant holds, or a destructor that runs inside the loop
  of a broadcast has locked the mutex its thread holds.
\<close>

definition step_ok :: "nat \<Rightarrow> pool \<Rightarrow> nat \<Rightarrow> instr list \<Rightarrow> pool \<Rightarrow> bool" where
  "step_ok N p i k q \<longleftrightarrow> fault q = None \<and> pool_inv N q \<or>
     fault q = Some Relock \<and> i \<in> readers p \<and> (\<exists>c s k'. k = destructor_code c s @ k')"

lemma step_okI: "fault q = None \<Longrightarrow> pool_inv N q \<Longrightarrow> step_ok N p i k q"
  by (simp add: step_ok_def)

lemma send_step:
  assumes I: "pool_inv N p" and f: "fault p = None" and i: "i < N" and x: "code p i = Send c s # k"
  shows "step_ok N p i (Send c s # k) (instr_step bye i cs (Send c s) k p)"
proof -
  note sh = pool_invD(1) [OF I, of i] and ow = pool_invD(2) [OF I, of i]
  have R: "Release c \<in> set k" using ow x by simp
  have "refs p c > 0" by (rule held [OF I i]) (simp add: x R)
  moreover have "pool_inv N (p\<lparr>code := (code p)(i := k), refs := (refs p)(c := Suc (refs p c)),
      pending := (pending p)(c := Suc (pending p c)), outbox := (outbox p)(c := outbox p c @ [s])\<rparr>)"
    by (rule start_or_send_inv [OF I i x R]) simp_all
  ultimately show ?thesis using f by (simp add: step_ok_def)
qed

lemma start_step:
  assumes I: "pool_inv N p" and f: "fault p = None" and i: "i < N" and x: "code p i = Start c # k"
  shows "step_ok N p i (Start c # k) (instr_step bye i cs (Start c) k p)"
proof -
  note sh = pool_invD(1) [OF I, of i] and ow = pool_invD(2) [OF I, of i]
  have R: "Release c \<in> set k" using ow x by simp
  have "refs p c > 0" by (rule held [OF I i]) (simp add: x R)
  moreover have "pool_inv N (p\<lparr>code := (code p)(i := k), refs := (refs p)(c := Suc (refs p c)),
      pending := (pending p)(c := Suc (pending p c))\<rparr>)"
    by (rule start_or_send_inv [OF I i x R]) simp_all
  ultimately show ?thesis using f by (simp add: step_ok_def)
qed

lemma lock_shared_step:
  assumes I: "pool_inv N p" and f: "fault p = None" and i: "i < N" and x: "code p i = Lock_Shared # k"
    and nb: "\<not> blocked i Lock_Shared p"
  shows "step_ok N p i (Lock_Shared # k) (instr_step bye i cs Lock_Shared k p)"
proof -
  note sh = pool_invD(1) [OF I, of i] and ow = pool_invD(2) [OF I, of i]
  show ?thesis
  proof (cases "i \<in> readers p \<or> owner p = Some i")
    case True
    then have "i \<in> readers p \<and> reading (Lock_Shared # k)"
      using sh x by (auto simp: shaped_def split: if_splits)
    moreover from this have "\<exists>c s k'. Lock_Shared # k = destructor_code c s @ k'"
      by (auto simp: reading_def)
    ultimately show ?thesis using True by (simp add: step_ok_def)
  next
    case False
    have "pool_inv N (p\<lparr>code := (code p)(i := k), readers := insert i (readers p)\<rparr>)"
      by (rule lock_inv [OF I i x])
         (use False nb sh x in \<open>auto simp: shaped_def reading_def split: if_splits\<close>)
    then show ?thesis using False f by (simp add: step_ok_def)
  qed
qed

lemma unlock_shared_step:
  assumes I: "pool_inv N p" and f: "fault p = None" and i: "i < N" and x: "code p i = Unlock_Shared # k"
  shows "step_ok N p i (Unlock_Shared # k) (instr_step bye i cs Unlock_Shared k p)"
proof -
  note sh = pool_invD(1) [OF I, of i] and ow = pool_invD(2) [OF I, of i]
  have s: "owner p \<noteq> Some i" "i \<in> readers p" "flat k"
    using sh x by (auto simp: shaped_def split: if_splits)
  have "pool_inv N (p\<lparr>code := (code p)(i := k), readers := readers p - {i}\<rparr>)"
    by (rule lock_inv [OF I i x])
       (use s flat_no_visit pool_invD(3) [OF I] in \<open>auto simp: shaped_def\<close>)
  then show ?thesis using f by (simp add: step_ok_def)
qed

lemma lock_exclusive_step:
  assumes I: "pool_inv N p" and f: "fault p = None" and i: "i < N" and x: "code p i = Lock_Exclusive # k"
    and nb: "\<not> blocked i Lock_Exclusive p"
  shows "step_ok N p i (Lock_Exclusive # k) (instr_step bye i cs Lock_Exclusive k p)"
proof -
  note sh = pool_invD(1) [OF I, of i] and ow = pool_invD(2) [OF I, of i]
  have s: "owner p = None" "readers p = {}" "owner p \<noteq> Some i" "i \<notin> readers p"
    using sh x nb by (auto simp: shaped_def split: if_splits)
  have v: "Visit u d \<notin> set k" for u d using pool_invD(12) [OF I, of u d i] x s by auto
  have "pool_inv N (p\<lparr>code := (code p)(i := k), owner := Some i\<rparr>)"
    by (rule lock_inv [OF I i x]) (use s sh x v in \<open>auto simp: shaped_def owning_def\<close>)
  then show ?thesis using f s by (simp add: step_ok_def)
qed

lemma unlock_exclusive_step:
  assumes I: "pool_inv N p" and f: "fault p = None" and i: "i < N" and x: "code p i = Unlock_Exclusive # k"
  shows "step_ok N p i (Unlock_Exclusive # k) (instr_step bye i cs Unlock_Exclusive k p)"
proof -
  note sh = pool_invD(1) [OF I, of i] and ow = pool_invD(2) [OF I, of i]
  have s: "owner p = Some i" "flat k"
    using sh x by (auto simp: shaped_def split: if_splits)
  have "pool_inv N (p\<lparr>code := (code p)(i := k), owner := None\<rparr>)"
    by (rule lock_inv [OF I i x])
       (use s flat_no_visit pool_invD(3) [OF I] in \<open>auto simp: shaped_def\<close>)
  then show ?thesis using f by (simp add: step_ok_def)
qed

lemma loop_step:
  assumes I: "pool_inv N p" and f: "fault p = None" and i: "i < N" and x: "code p i = Loop s # k"
    and lo: "loop_order (Loop s) cs p"
  shows "step_ok N p i (Loop s # k) (instr_step bye i cs (Loop s) k p)"
proof -
  note sh = pool_invD(1) [OF I, of i] and ow = pool_invD(2) [OF I, of i]
  have s: "owner p \<noteq> Some i" "i \<in> readers p" "rest_loop k"
    using sh x by (auto simp: shaped_def split: if_splits)
  have c: "set cs = client_set p" using lo by (simp add: loop_order_def)
  have n: "count_list (map (Visit s) cs) (Release d) = 0" "count_list (map (Visit s) cs) (Free d) = 0" for d
    by (induction cs) auto
  have v: "Visit u d \<in> set k \<Longrightarrow> d \<in> client_set p" for u d
    using pool_invD(13) [OF I, of u d i] x by simp
  have "pool_inv N (p\<lparr>code := (code p)(i := map (Visit s) cs @ k)\<rparr>)"
    by (rule pool_inv_update [OF I i, where k = "map (Visit s) cs @ k"])
       (use s c v ow x n pool_invD(3,13) [OF I] in
         \<open>auto simp: shaped_def reading_def rest_loop_visits owned_visits\<close>)
  then show ?thesis using f by (simp add: step_ok_def)
qed

lemma visit_step:
  assumes I: "pool_inv N p" and f: "fault p = None" and i: "i < N" and x: "code p i = Visit s c # k"
  shows "step_ok N p i (Visit s c # k) (instr_step bye i cs (Visit s c) k p)"
proof -
  note sh = pool_invD(1) [OF I, of i] and ow = pool_invD(2) [OF I, of i]
  have s: "owner p \<noteq> Some i" "i \<in> readers p" "rest_loop k"
    using sh x by (auto simp: shaped_def split: if_splits)
  have c: "c \<in> store p" using pool_invD(13) [OF I, of s c i] pool_invD(11) [OF I] x by auto
  have v: "Visit u d \<in> set k \<Longrightarrow> d \<in> client_set p" for u d
    using pool_invD(13) [OF I, of u d i] x by simp
  show ?thesis
  proof (cases "refs p c = 0")
    case True
    have "pool_inv N (p\<lparr>code := (code p)(i := k)\<rparr>)"
      by (rule pool_inv_update [OF I i])
         (use s ow x v pool_invD(3,13) [OF I] in \<open>auto simp: shaped_def reading_def\<close>)
    then show ?thesis using c True f by (simp add: step_ok_def)
  next
    case False
    have "pool_inv N (p\<lparr>code := (code p)(i := Send c s # Release c # k),
        refs := (refs p)(c := Suc (refs p c))\<rparr>)"
      by (rule pool_inv_update [OF I i, where k = "Send c s # Release c # k"])
         (use s ow x v pool_invD(3,13) [OF I] False in \<open>auto simp: shaped_def\<close>)
    then show ?thesis using c False f by (simp add: step_ok_def)
  qed
qed

lemma release_step:
  assumes I: "pool_inv N p" and f: "fault p = None" and i: "i < N" and x: "code p i = Release c # k"
  shows "step_ok N p i (Release c # k) (instr_step bye i cs (Release c) k p)"
proof -
  note sh = pool_invD(1) [OF I, of i] and ow = pool_invD(2) [OF I, of i]
  have r: "refs p c > 0" by (rule held [OF I i]) (simp add: x)
  show ?thesis
  proof (cases "refs p c = 1")
    case True
    then show ?thesis
      using release_last_inv [OF I i, of c k "bye c"] x f by (simp add: step_ok_def)
  next
    case False
    have v: "Visit u d \<in> set k \<Longrightarrow> i \<in> readers p \<and> d \<in> client_set p" for u d
      using pool_invD(12,13) [OF I, of u d i] x by simp
    have "pool_inv N (p\<lparr>code := (code p)(i := k), refs := (refs p)(c := refs p c - 1)\<rparr>)"
      by (rule pool_inv_update [OF I i])
         (use sh ow x v pool_invD(3,13) [OF I] False r in
           \<open>auto simp: shaped_def reading_rest split: if_splits\<close>)
    then show ?thesis using False r f by (simp add: step_ok_def)
  qed
qed

lemma insert_step:
  assumes I: "pool_inv N p" and f: "fault p = None" and i: "i < N" and x: "code p i = Insert c # k"
  shows "step_ok N p i (Insert c # k) (instr_step bye i cs (Insert c) k p)"
proof -
  note sh = pool_invD(1) [OF I, of i] and ow = pool_invD(2) [OF I, of i]
  have s: "owner p = Some i" "\<exists>k'. k = Unlock_Exclusive # k' \<and> flat k'"
    using sh x by (auto simp: shaped_def split: if_splits)
  then have e: "readers p = {}" using pool_invD(3) [OF I] by simp
  have v: "Visit u d \<notin> set (code p j)" for u d j using pool_invD(12) [OF I, of u d j] e by auto
  have r: "refs p c > 0" by (rule held [OF I i]) (use ow x in auto)
  have "pool_inv N (p\<lparr>code := (code p)(i := k), client_set := insert c (client_set p)\<rparr>)"
    by (rule pool_inv_update [OF I i])
       (use s ow x e v [of _ _ i] v r in \<open>auto simp: shaped_def\<close>)
  then show ?thesis using s e f by (simp add: step_ok_def)
qed

lemma erase_step:
  assumes I: "pool_inv N p" and f: "fault p = None" and i: "i < N" and x: "code p i = Erase c # k"
  shows "step_ok N p i (Erase c # k) (instr_step bye i cs (Erase c) k p)"
proof -
  note sh = pool_invD(1) [OF I, of i] and ow = pool_invD(2) [OF I, of i]
  have s: "owner p = Some i" "\<exists>k'. k = Unlock_Exclusive # k' \<and> flat k'"
    using sh x by (auto simp: shaped_def split: if_splits)
  then have e: "readers p = {}" using pool_invD(3) [OF I] by simp
  have v: "Visit u d \<notin> set (code p j)" for u d j using pool_invD(12) [OF I, of u d j] e by auto
  have "pool_inv N (p\<lparr>code := (code p)(i := k), client_set := client_set p - {c}\<rparr>)"
    by (rule pool_inv_update [OF I i])
       (use s ow x e v [of _ _ i] v in \<open>auto simp: shaped_def\<close>)
  then show ?thesis using s e f by (simp add: step_ok_def)
qed

lemma free_step:
  assumes I: "pool_inv N p" and f: "fault p = None" and i: "i < N" and x: "code p i = Free c # k"
  shows "step_ok N p i (Free c # k) (instr_step bye i cs (Free c) k p)"
proof -
  note sh = pool_invD(1) [OF I, of i] and ow = pool_invD(2) [OF I, of i]
  show ?thesis using free_inv [OF I i, of c k] x f by (simp add: step_ok_def)
qed

lemma leave_strand_step:
  assumes I: "pool_inv N p" and f: "fault p = None" and i: "i < N" and x: "code p i = Leave_Strand c # k"
  shows "step_ok N p i (Leave_Strand c # k) (instr_step bye i cs (Leave_Strand c) k p)"
proof -
  note sh = pool_invD(1) [OF I, of i] and ow = pool_invD(2) [OF I, of i]
  have v: "Visit u d \<in> set k \<Longrightarrow> i \<in> readers p \<and> d \<in> client_set p" for u d
    using pool_invD(12,13) [OF I, of u d i] x by simp
  have "pool_inv N (p\<lparr>code := (code p)(i := k), busy := busy p - {c}\<rparr>)"
    by (rule pool_inv_update [OF I i])
       (use sh ow x v pool_invD(3,13) [OF I] in \<open>auto simp: shaped_def split: if_splits\<close>)
  then show ?thesis using f by (simp add: step_ok_def)
qed

lemmas instr_steps = send_step start_step lock_shared_step unlock_shared_step lock_exclusive_step
  unlock_exclusive_step loop_step visit_step release_step insert_step erase_step free_step
  leave_strand_step

lemma instr_inv:
  assumes "pool_inv N p" and "fault p = None" and "i < N" and "code p i = x # k"
    and "\<not> blocked i x p" and "loop_order x cs p"
  shows "step_ok N p i (x # k) (instr_step bye i cs x k p)"
  using assms by (cases x) (simp_all add: instr_steps del: instr_step.simps blocked.simps)


lemma new_inv:
  assumes I: "pool_inv N p" and c: "c \<notin> store p"
  shows "pool_inv N (pool_exec bye (New c) p)" (is "pool_inv N ?q")
proof -
  have z: "refs p c = 0" using pool_invD(6) [OF I, of c] c by blast
  then have t: "total N p (Release c) = 0" using pool_invD(5) [OF I, of c] by simp
  have tq: "total N ?q x = total N p x" for x by (simp add: total_def)
  have "locked N ?q" using I by (simp add: pool_inv_def locked_def shaped_def)
  moreover have "counted N ?q"
    using pool_invD(5-7) [OF I] t by (simp add: counted_def tq [simplified])
  moreover have "freeing ?q" using pool_invD(8-10) [OF I] c by (auto simp: freeing_def)
  moreover have "visiting ?q" using pool_invD(11-13) [OF I] by (auto simp: visiting_def)
  ultimately show ?thesis by (simp add: pool_inv_def)
qed

lemma begin_inv:
  assumes I: "pool_inv N p" and i: "i < N" and x: "code p i = []" and w: "pending p (work_conn w) > 0"
  shows "pool_inv N (pool_exec bye (Begin i w) p)"
proof (rule pool_inv_update [OF I i, where k = "work_code w"])
  have m: "owner p \<noteq> Some i" "i \<notin> readers p"
    using pool_invD(1) [OF I, of i] x by (auto simp: shaped_def split: if_splits)
  have v: "Visit u d \<notin> set (work_code w)" for u d by (rule flat_no_visit [OF flat_work])
  have n: "count_list (work_code w) (Release d) = (if d = work_conn w then 1 else 0)"
    "count_list (work_code w) (Free d) = 0" "Erase d \<notin> set (work_code w)" for d
    by (cases w; simp add: connect_code_def broadcast_code_def)+
  show "shaped (pool_exec bye (Begin i w) p) i" using m flat_work by (simp add: shaped_def)
  show "refs (pool_exec bye (Begin i w) p) d + pending p d + count_list (code p i) (Release d) =
      refs p d + pending (pool_exec bye (Begin i w) p) d + count_list (work_code w) (Release d)" for d
    using n(1) [of d] w x by auto
  show "Visit u d \<in> set (work_code w) \<Longrightarrow> i \<in> readers (pool_exec bye (Begin i w) p) \<and>
      d \<in> client_set (pool_exec bye (Begin i w) p)" for u d using v by simp
  show "Free d \<in> set (work_code w) \<Longrightarrow> Erase d \<in> set (code p i) \<Longrightarrow> Erase d \<notin> set (work_code w) \<Longrightarrow>
      d \<notin> client_set (pool_exec bye (Begin i w) p)" for d using x by simp
  show "count_list (work_code w) (Free d) \<le> count_list (code p i) (Free d)" for d using n(2) by simp
qed (use owned_work pool_invD(3,13) [OF I] in auto)

section \<open>The interleaved server is safe\<close>

definition workers_inv :: "nat \<Rightarrow> pool \<Rightarrow> bool" where
  "workers_inv N p \<longleftrightarrow> finite (client_set p) \<and>
     (fault p = None \<and> pool_inv N p \<or> fault p = Some Relock)"

lemma pool_inv0: "pool_inv N pool0"
  by (simp add: pool0_def pool_inv_def locked_def counted_def freeing_def visiting_def total_def
      shaped_def)

lemma instr_step_finite: "finite (client_set p) \<Longrightarrow> finite (client_set (instr_step bye i cs x k p))"
  by (cases x) auto

text \<open>A step, and where a fault can come from.\<close>

lemma pool_step_outcome:
  assumes I: "pool_inv N p" and st: "pool_step N bye p e p'"
  shows "fault p' = None \<and> pool_inv N p' \<or>
    fault p' = Some Relock \<and> (\<exists>i cs c s k. e = Step i cs \<and> i \<in> readers p \<and>
      code p i = destructor_code c s @ k)"
proof -
  from st have f: "fault p = None" and e: "pool_enabled N e p" and p': "p' = pool_exec bye e p"
    by (auto simp: pool_step_iff)
  show ?thesis
  proof (cases e)
    case (New c)
    then show ?thesis using new_inv [OF I, of c bye] e f p' by simp
  next
    case (Begin i w)
    then show ?thesis using begin_inv [OF I, of i w bye] e f p' by simp
  next
    case (Step i cs)
    then obtain x k where x: "code p i = x # k" and i: "i < N" and b: "\<not> blocked i x p"
      and l: "loop_order x cs p" using e by (auto split: list.splits)
    have "step_ok N p i (x # k) p'" using instr_inv [OF I f i x b l, of bye] p' Step x by simp
    then show ?thesis using Step x by (auto simp: step_ok_def)
  qed
qed

interpretation pool: invariant_system "\<lambda>p. p = pool0" "pool_step N bye" "workers_inv N"
  for N :: nat and bye :: "conn \<Rightarrow> string"
proof
  fix p e p'
  show "p = pool0 \<Longrightarrow> workers_inv N p"
    using pool_inv0 by (simp add: workers_inv_def) (simp add: pool0_def)
  assume W: "workers_inv N p" and st: "pool_step N bye p e p'"
  have f: "fault p = None" using st by (auto simp: pool_step_iff)
  have "finite (client_set p')"
    using W st instr_step_finite
    by (cases e) (auto simp: workers_inv_def pool_step_iff split: list.splits)
  then show "workers_inv N p'"
    using pool_step_outcome [OF _ st] W f by (auto simp: workers_inv_def)
qed

section \<open>No deadlock\<close>

text \<open>A thread that holds the mutex can always go on.\<close>

lemma holder_runs:
  assumes I: "pool_inv N p" and j: "owner p = Some j \<or> j \<in> readers p"
  obtains x k where "j < N" and "code p j = x # k" and "\<not> blocked j x p"
proof -
  have s: "owning (code p j) \<or> j \<in> readers p \<and> reading (code p j)"
    using pool_invD(1) [OF I, of j] j by (auto simp: shaped_def split: if_splits)
  then obtain x k where x: "code p j = x # k" by (cases "code p j") auto
  have "j < N" using pool_invD(4) [OF I, of j] x by (cases "j < N") auto
  moreover have "\<not> blocked j x p" using s x by (cases x) auto
  ultimately show thesis using that x by blast
qed

lemma some_thread_runs:
  assumes I: "pool_inv N p" and fin: "finite (client_set p)" and busy: "code p i \<noteq> []"
  shows "\<exists>j cs. pool_enabled N (Step j cs) p"
proof -
  obtain cs where cs: "distinct cs" "set cs = client_set p" using finite_distinct_list [OF fin] by blast
  then have l: "loop_order x cs p" for x by (simp add: loop_order_def split: instr.split)
  obtain x k where x: "code p i = x # k" using busy by (cases "code p i") auto
  have "i < N" using pool_invD(4) [OF I, of i] x by (cases "i < N") auto
  show ?thesis
  proof (cases "blocked i x p")
    case False
    then have "pool_enabled N (Step i cs) p" using \<open>i < N\<close> x l by simp
    then show ?thesis by blast
  next
    case True
    then obtain j where "owner p = Some j \<or> j \<in> readers p" by (cases x) auto
    then obtain y q where "j < N" "code p j = y # q" "\<not> blocked j y p" by (rule holder_runs [OF I])
    then have "pool_enabled N (Step j cs) p" using l by simp
    then show ?thesis by blast
  qed
qed

section \<open>One worker\<close>

text \<open>
  With one thread no destructor runs inside a loop, because the call just posted to the visited
  connection keeps it alive.
\<close>

fun kept_code :: "(conn \<Rightarrow> nat) \<Rightarrow> instr list \<Rightarrow> bool" where
  "kept_code n (Release c # k) = (n c > 0)"
| "kept_code n (Lock_Shared # k) = False"
| "kept_code n _ = True"

definition kept_alive :: "pool \<Rightarrow> bool" where
  "kept_alive p \<longleftrightarrow> (0 \<in> readers p \<longrightarrow> kept_code (pending p) (code p 0))"

definition alone_inv :: "pool \<Rightarrow> bool" where
  "alone_inv p \<longleftrightarrow> fault p = None \<and> pool_inv 1 p \<and> kept_alive p"

lemma rest_loop_kept: "rest_loop k \<Longrightarrow> kept_code n k"
  by (cases k rule: rest_loop.cases) auto

lemma kept_code_mono: "kept_code n k \<Longrightarrow> (\<And>c. n c > 0 \<Longrightarrow> n' c > 0) \<Longrightarrow> kept_code n' k"
  by (cases "(n, k)" rule: kept_code.cases) auto

lemma alone_step:
  assumes A: "alone_inv p" and st: "pool_step 1 bye p e p'"
  shows "alone_inv p'"
proof -
  have f: "fault p = None" and I: "pool_inv 1 p" and K: "kept_alive p"
    using A by (auto simp: alone_inv_def)
  have "\<not> (0 \<in> readers p \<and> code p 0 = destructor_code c s @ k)" for c s k
    using K by (auto simp: kept_alive_def destructor_code_def disconnect_code_def broadcast_code_def)
  moreover have "i = 0" if "i \<in> readers p" for i
    using that pool_invD(1,4) [OF I, of i] pool_invD(3) [OF I]
    by (cases "i < 1") (auto simp: shaped_def split: if_splits)
  ultimately have N: "fault p' = None" "pool_inv 1 p'" using pool_step_outcome [OF I st] by blast+
  from st have e: "pool_enabled 1 e p" and p': "p' = pool_exec bye e p" by (auto simp: pool_step_iff)
  have "kept_alive p'"
  proof (cases e)
    case (New c)
    then show ?thesis
      using K p' kept_code_mono [of "pending p" "code p 0" "(pending p)(c := 1)"]
      by (simp add: kept_alive_def)
  next
    case (Begin i w)
    then have "0 \<notin> readers p" using pool_invD(1) [OF I, of 0] pool_invD(3) [OF I] e
      by (auto simp: shaped_def split: if_splits)
    then show ?thesis using p' Begin by (simp add: kept_alive_def)
  next
    case (Step i cs)
    then obtain x k where x: "code p 0 = x # k" and i: "i = 0" using e by (auto split: list.splits)
    have p'': "p' = instr_step bye 0 cs x k p" using p' Step i x by simp
    show ?thesis
    proof (cases "0 \<in> readers p")
      case False
      have "shaped p 0" by (rule pool_invD(1) [OF I])
      then show ?thesis
        using False p'' x N(1) by (cases x) (auto simp: kept_alive_def shaped_def owning_def split: if_splits)
    next
      case True
      then have r: "reading (x # k)"
        using pool_invD(1) [OF I, of 0] pool_invD(3) [OF I] x by (auto simp: shaped_def split: if_splits)
      have "refs p c > 1" if "x = Release c" for c
      proof -
        have "pending p c > 0" using K True x that by (simp add: kept_alive_def)
        moreover have "total 1 p (Release c) > 0" by (rule total_in [of 0]) (simp_all add: x that)
        ultimately show ?thesis using pool_invD(5) [OF I, of c] by simp
      qed
      then show ?thesis
        using r True p'' N(1)
        by (cases x) (auto simp: kept_alive_def rest_loop_visits rest_loop_kept split: if_splits)
    qed
  qed
  then show ?thesis using N by (simp add: alone_inv_def)
qed

interpretation alone: invariant_system "\<lambda>p. p = pool0" "pool_step 1 bye" alone_inv
  for bye :: "conn \<Rightarrow> string"
proof
  fix p e p'
  show "p = pool0 \<Longrightarrow> alone_inv p"
    using pool_inv0 by (simp add: alone_inv_def kept_alive_def) (simp add: pool0_def)
  show "alone_inv p \<Longrightarrow> pool_step 1 bye p e p' \<Longrightarrow> alone_inv p'" by (rule alone_step)
qed

section \<open>Uninterrupted operations\<close>

text \<open>
  Without interruption the steps of a broadcast have the effect of the whole operation in the theory
  \<open>Server\<close>: every member that somebody owns gets the text once. \<open>told A s p\<close> is the pool after that.
\<close>

definition told :: "conn set \<Rightarrow> string \<Rightarrow> pool \<Rightarrow> pool" where
  "told A s p = p\<lparr>
     refs := (\<lambda>c. if c \<in> A then Suc (refs p c) else refs p c),
     pending := (\<lambda>c. if c \<in> A then Suc (pending p c) else pending p c),
     outbox := (\<lambda>c. if c \<in> A then outbox p c @ [s] else outbox p c)\<rparr>"

abbreviation at_code :: "nat \<Rightarrow> instr list \<Rightarrow> pool \<Rightarrow> pool" where
  "at_code i k p \<equiv> p\<lparr>code := (code p)(i := k)\<rparr>"

lemma pool_run_append: "pool_run N bye (es @ fs) p = Option.bind (pool_run N bye es p) (pool_run N bye fs)"
  by (induction es arbitrary: p) auto

lemma alone_visits:
  assumes "i < N" and "distinct cs" and "set cs \<subseteq> store p" and "fault p = None"
  shows "\<exists>n. pool_run N bye (replicate n (Step i [])) (at_code i (map (Visit s) cs @ k) p) =
    Some (at_code i k (told {c \<in> set cs. refs p c > 0} s p))"
  using assms(2-)
proof (induction cs arbitrary: p)
  case Nil
  have "told {} s p = p" by (simp add: told_def)
  then show ?case by (intro exI [of _ 0]) simp
next
  case (Cons d cs)
  show ?case
  proof (cases "refs p d = 0")
    case True
    then have eq: "{c \<in> set (d # cs). refs p c > 0} = {c \<in> set cs. refs p c > 0}" by auto
    obtain n where "pool_run N bye (replicate n (Step i [])) (at_code i (map (Visit s) cs @ k) p) =
        Some (at_code i k (told {c \<in> set cs. refs p c > 0} s p))"
      using Cons.IH [of p] Cons.prems by (metis distinct.simps(2) insert_subset list.simps(15))
    moreover have "pool_run N bye [Step i []] (at_code i (map (Visit s) (d # cs) @ k) p) =
        Some (at_code i (map (Visit s) cs @ k) p)"
      using True Cons.prems assms(1) by (auto simp: loop_order_def fun_eq_iff intro!: pool.equality)
    ultimately have "pool_run N bye ([Step i []] @ replicate n (Step i []))
        (at_code i (map (Visit s) (d # cs) @ k) p) =
        Some (at_code i k (told {c \<in> set (d # cs). refs p c > 0} s p))"
      unfolding eq by (simp only: pool_run_append bind.simps)
    then show ?thesis by (intro exI [of _ "Suc n"]) (simp only: replicate_Suc append_Cons append_Nil)
  next
    case False
    let ?p = "told {d} s p"
    have same: "{c \<in> set cs. refs ?p c > 0} = {c \<in> set cs. refs p c > 0}"
      using Cons.prems(1) by (auto simp: told_def)
    have both: "told {c \<in> set cs. refs p c > 0} s ?p = told {c \<in> set (d # cs). refs p c > 0} s p"
      using False Cons.prems(1) by (auto simp: told_def fun_eq_iff)
    obtain n where n: "pool_run N bye (replicate n (Step i [])) (at_code i (map (Visit s) cs @ k) ?p) =
        Some (at_code i k (told {c \<in> set (d # cs). refs p c > 0} s p))"
      using Cons.IH [of ?p, unfolded same both] Cons.prems by (auto simp: told_def simp del: fun_upd_apply)
    have "pool_run N bye (replicate 3 (Step i [])) (at_code i (map (Visit s) (d # cs) @ k) p) =
        Some (at_code i (map (Visit s) cs @ k) ?p)"
      using False Cons.prems assms(1)
      by (auto simp: numeral_3_eq_3 loop_order_def told_def fun_eq_iff intro!: pool.equality)
    then have "pool_run N bye (replicate (3 + n) (Step i [])) (at_code i (map (Visit s) (d # cs) @ k) p) =
        Some (at_code i k (told {c \<in> set (d # cs). refs p c > 0} s p))"
      using n by (simp only: replicate_add pool_run_append bind.simps)
    then show ?thesis by blast
  qed
qed

lemma alone_broadcast:
  assumes I: "pool_inv N p" and f: "fault p = None" and fin: "finite (client_set p)" and i: "i < N"
    and x: "code p i = broadcast_code s @ k" and l: "owner p = None" "i \<notin> readers p"
  shows "\<exists>es. (\<forall>e \<in> set es. \<exists>cs. e = Step i cs) \<and> pool_run N bye es p =
    Some (at_code i k (told {c \<in> client_set p. refs p c > 0} s p))"
proof -
  obtain cs where cs: "distinct cs" "set cs = client_set p" using finite_distinct_list [OF fin] by blast
  let ?p = "p\<lparr>readers := insert i (readers p)\<rparr>"
  have "set cs \<subseteq> store ?p" using cs pool_invD(11) [OF I] by simp
  then obtain n where n: "pool_run N bye (replicate n (Step i []))
      (at_code i (map (Visit s) cs @ Unlock_Shared # k) ?p) =
      Some (at_code i (Unlock_Shared # k) (told {c \<in> client_set p. refs p c > 0} s ?p))"
    using alone_visits [OF i cs(1), of ?p bye s "Unlock_Shared # k"] f cs(2) by auto
  have start: "pool_run N bye [Step i [], Step i cs] p =
      Some (at_code i (map (Visit s) cs @ Unlock_Shared # k) ?p)"
    using i x l f cs by (simp add: broadcast_code_def loop_order_def)
  have stop: "pool_run N bye [Step i []] (at_code i (Unlock_Shared # k)
      (told {c \<in> client_set p. refs p c > 0} s ?p)) =
      Some (at_code i k (told {c \<in> client_set p. refs p c > 0} s p))"
    using i f l by (auto simp: loop_order_def told_def intro!: pool.equality)
  have "pool_run N bye ([Step i [], Step i cs] @ replicate n (Step i []) @ [Step i []]) p =
      Some (at_code i k (told {c \<in> client_set p. refs p c > 0} s p))"
    by (simp only: pool_run_append start n stop bind.simps)
  moreover have "\<forall>e \<in> set ([Step i [], Step i cs] @ replicate n (Step i []) @ [Step i []]).
      \<exists>cs. e = Step i cs" by auto
  ultimately show ?thesis by blast
qed

end
