(* ===== verification/Worker_Properties.thy ===== *)
theory Worker_Properties
  imports Worker_Safety
begin

text \<open>
  The properties of the server under several workers: what the locks and the reference counts
  guarantee in every interleaving, and three interleavings in which they are not enough.
\<close>

section \<open>Runs\<close>

definition goodbye :: "conn \<Rightarrow> string" where
  "goodbye c = ''bye''"

text \<open>\<open>steps i n\<close>: \<open>n\<close> steps of thread \<open>i\<close>, for loops over the empty set.\<close>

definition steps :: "nat \<Rightarrow> nat \<Rightarrow> pool_event list" where
  "steps i n = replicate n (Step i [])"

abbreviation "ann \<equiv> Conn 0"
abbreviation "ben \<equiv> Conn 1"

text \<open>Ann joins and her greeting is being written; the write and the next read are outstanding.\<close>

definition ann_joins :: "pool_event list" where
  "ann_joins = [New ann, Begin 0 (Joining ann ''ann'')] @ steps 0 10 @
     [Begin 0 (Going_On ann)] @ steps 0 3"

text \<open>
  Ben joins on thread 0, whose loop holds the only pointer to Ann after thread 1 has run the failures
  of her write and of her read and the \<open>on_send\<close> of Ben's greeting, which finds her queue not empty.
\<close>

definition relock_run :: "pool_event list" where
  "relock_run = ann_joins @ [New ben, Begin 0 (Joining ben ''ben'')] @ steps 0 2 @ [Step 0 [ann]] @
     steps 0 2 @ concat (replicate 3 ([Begin 1 (Finishing ann)] @ steps 1 2)) @ steps 0 2"

text \<open>Both join at the same time.\<close>

definition blind_run :: "pool_event list" where
  "blind_run = [New ann, New ben, Begin 0 (Joining ann ''ann''), Begin 1 (Joining ben ''ben'')] @
     steps 0 4 @ steps 1 4 @ steps 0 6 @ steps 1 6"

text \<open>Both are members and speak at the same time; both loops visit Ann first.\<close>

definition both_join :: "pool_event list" where
  "both_join = [New ann, Begin 0 (Joining ann ''ann'')] @ steps 0 10 @
     [New ben, Begin 0 (Joining ben ''ben'')] @ steps 0 2 @ [Step 0 [ann]] @ steps 0 10"

definition crossed_run :: "pool_event list" where
  "crossed_run = both_join @ [Begin 0 (Saying ann ''hi''), Begin 1 (Saying ben ''ho'')] @
     steps 0 1 @ [Step 0 [ann, ben]] @ steps 0 3 @ steps 1 1 @ [Step 1 [ann, ben]] @ steps 1 10 @ steps 0 7"

lemma relock_result: "map_option fault (pool_run 2 goodbye relock_run pool0) = Some (Some Relock)"
  by code_simp

lemma blind_result:
  "map_option (\<lambda>p. (fault p, code p 0, code p 1, client_set p, outbox p ann, outbox p ben))
     (pool_run 2 goodbye blind_run pool0) = Some (None, [], [], {ann, ben}, [''ann''], [''ben''])"
  by code_simp

lemma crossed_result:
  "map_option (\<lambda>p. (fault p, code p 0, code p 1, client_set p, outbox p ann, outbox p ben))
     (pool_run 2 goodbye crossed_run pool0) =
     Some (None, [], [], {ann, ben}, [''ann'', ''ben'', ''hi'', ''ho''], [''ben'', ''ho'', ''hi''])"
  by code_simp

lemma ann_result:
  "map_option (\<lambda>p. (fault p, code p 0, store p, outbox p ann, client_set p, busy p, readers p, owner p,
       refs p ann, pending p ann)) (pool_run 1 goodbye ann_joins pool0) =
    Some (None, [], {ann}, [''ann''], {ann}, {}, {}, None, 2, 2)"
  by code_simp

lemma ann_state:
  obtains p where "pool_reachable 1 goodbye p" and "fault p = None" and "code p 0 = []"
    and "store p = {ann}" and "outbox p ann = [''ann'']" and "client_set p = {ann}" and "busy p = {}"
    and "readers p = {}" and "owner p = None" and "refs p ann = 2" and "pending p ann = 2"
  using ann_result pool_run_reachable [of 1 goodbye ann_joins pool0] reach_init [of "\<lambda>p. p = pool0" pool0]
  by (cases "pool_run 1 goodbye ann_joins pool0") auto

section \<open>Guarantees\<close>

text \<open>Under any number of workers and any interleaving no thread touches a freed connection, calls
  one nobody owns, or changes the set of clients under a reader; the set only holds objects in memory
  and the mutex is never held exclusively and shared at once. The only thing that can go wrong is that
  the last pointer to a connection goes inside the loop of a broadcast: its destructor then locks the
  mutex its thread already holds.\<close>

lemma workers_safe:
  assumes "pool_reachable N bye p" and "pool_step N bye p e p'"
  shows "fault p' = None \<and> client_set p' \<subseteq> store p' \<and> (owner p' \<noteq> None \<longrightarrow> readers p' = {}) \<or>
    fault p' = Some Relock \<and> (\<exists>i cs c s k. e = Step i cs \<and> i \<in> readers p \<and>
      code p i = destructor_code c s @ k \<and> refs p c = 0)"
proof -
  have "fault p = None" using assms(2) by (simp add: pool_step_iff)
  then have I: "pool_inv N p" using pool.reach_inv [OF assms(1)] by (simp add: workers_inv_def)
  have z: "refs p c = 0" if "code p i = destructor_code c s @ k" for i c s k
    by (rule pool_invD(8) [OF I, of c i]) (simp add: that destructor_code_def)
  from pool_step_outcome [OF I assms(2)] show ?thesis
  proof
    assume "fault p' = None \<and> pool_inv N p'"
    then show ?thesis using pool_invD(3,11) by blast
  next
    assume "fault p' = Some Relock \<and> (\<exists>i cs c s k. e = Step i cs \<and> i \<in> readers p \<and>
      code p i = destructor_code c s @ k)"
    then show ?thesis using z by blast
  qed
qed

lemma workers_safe_instance:
  "\<exists>p. outbox p ann = [''ann''] \<and>
     client_set (pool_exec goodbye (New ben) p) \<subseteq> store (pool_exec goodbye (New ben) p)"
proof -
  obtain p where p: "pool_reachable 1 goodbye p" "fault p = None" "store p = {ann}"
    "outbox p ann = [''ann'']" by (rule ann_state)
  then have "pool_step 1 goodbye p (New ben) (pool_exec goodbye (New ben) p)"
    by (simp add: pool_step_iff)
  from workers_safe [OF p(1) this] show ?thesis using p(4) by auto
qed

text \<open>The locks never make all threads wait: in a reachable state without a fault, when some thread is
  not idle, some thread can make a step.\<close>

lemma workers_progress:
  assumes "pool_reachable N bye p" and "fault p = None" and "code p i \<noteq> []"
  shows "\<exists>j cs p'. pool_step N bye p (Step j cs) p'"
proof -
  have "pool_inv N p" "finite (client_set p)"
    using pool.reach_inv [OF assms(1)] assms(2) by (simp_all add: workers_inv_def)
  then obtain j cs where "pool_enabled N (Step j cs) p" using some_thread_runs assms(3) by blast
  then show ?thesis using pool_stepI [OF assms(2)] by blast
qed

lemma workers_progress_instance: "\<exists>p j cs p'. code p 0 = work_code (Finishing ann) \<and>
    pool_step 1 goodbye p (Step j cs) p'"
proof -
  let ?p = "pool_exec goodbye (Begin 0 (Finishing ann)) (pool_exec goodbye (New ann) pool0)"
  have r: "pool_run 1 goodbye [New ann, Begin 0 (Finishing ann)] pool0 = Some ?p" by (simp add: pool0_def)
  have "pool_reachable 1 goodbye ?p" by (rule pool_run_reachable [OF r reach_init]) simp
  from workers_progress [OF this, of 0] have "\<exists>j cs p'. pool_step 1 goodbye ?p (Step j cs) p'"
    by (simp add: pool0_def)
  then show ?thesis by (intro exI [of _ ?p]) (simp del: pool_exec.simps add: pool_exec.simps(2))
qed

text \<open>C30: With one worker, the default, even that cannot happen: the call a broadcast has just posted
  keeps the visited connection alive, and nothing else runs before the end of the loop.\<close>

theorem one_worker_safe:
  assumes "pool_reachable 1 bye p"
  shows "fault p = None \<and> client_set p \<subseteq> store p"
  using alone.reach_inv [OF assms] pool_invD(11) by (auto simp: alone_inv_def)

theorem one_worker_safe_witness: "\<exists>p :: pool. outbox p ann = [''ann''] \<and> client_set p \<subseteq> store p"
proof -
  obtain p where "pool_reachable 1 goodbye p" "outbox p ann = [''ann'']" by (rule ann_state)
  then show ?thesis using one_worker_safe [of goodbye p] by auto
qed

text \<open>A broadcast that is not interrupted does what the operation as a whole does: there is a run of its
  thread alone to the end of it, in which every member that is still owned gets the text once, nobody
  else gets anything, and the set and the locks are as before.\<close>

lemma broadcast_uninterrupted:
  assumes "pool_reachable N bye p" and "fault p = None" and "i < N"
    and "code p i = broadcast_code s @ k" and "owner p = None" and "i \<notin> readers p"
  shows "\<exists>es p'. (\<forall>e \<in> set es. \<exists>cs. e = Step i cs) \<and> pool_run N bye es p = Some p' \<and> code p' i = k \<and>
    client_set p' = client_set p \<and> readers p' = readers p \<and> owner p' = None \<and>
    (\<forall>c. outbox p' c = outbox p c @ (if c \<in> client_set p \<and> refs p c > 0 then [s] else []))"
proof -
  have "pool_inv N p" "finite (client_set p)"
    using pool.reach_inv [OF assms(1)] assms(2) by (simp_all add: workers_inv_def)
  from alone_broadcast [OF this(1) assms(2) this(2) assms(3-6), of bye] obtain es
    where "\<forall>e \<in> set es. \<exists>cs. e = Step i cs" and "pool_run N bye es p =
      Some (at_code i k (told {c \<in> client_set p. refs p c > 0} s p))" by blast
  then show ?thesis
    using assms(5)
    by (intro exI [of _ es] exI [of _ "at_code i k (told {c \<in> client_set p. refs p c > 0} s p)"])
       (simp add: told_def)
qed

lemma broadcast_uninterrupted_instance:
  "\<exists>p' :: pool. outbox p' ann = [''ann'', ''hi''] \<and> client_set p' = {ann}"
proof -
  obtain p where p: "pool_reachable 1 goodbye p" "fault p = None" "code p 0 = []"
    "outbox p ann = [''ann'']" "client_set p = {ann}" "busy p = {}" "readers p = {}" "owner p = None"
    "refs p ann = 2" "pending p ann = 2" by (rule ann_state)
  let ?p = "pool_exec goodbye (Begin 0 (Saying ann ''hi'')) p"
  have "pool_step 1 goodbye p (Begin 0 (Saying ann ''hi'')) ?p"
    by (rule pool_stepI) (simp_all add: p)
  with p(1) have r: "pool_reachable 1 goodbye ?p" by (rule reach_step)
  show ?thesis
    using broadcast_uninterrupted [OF r, of 0 "''hi''" "[Start ann, Release ann, Leave_Strand ann]"] p
    by auto
qed

section \<open>What goes wrong with two workers\<close>

lemma run_reach: "pool_run N goodbye es pool0 = Some p \<Longrightarrow> pool_reachable N goodbye p"
  by (erule pool_run_reachable) (simp add: reach_init)

text \<open>With two workers the destructor inside a broadcast does happen: while one thread visits a client
  in the loop, the other runs the failure of its write and of its read and the call just posted, so
  the loop holds the last pointer, and its thread locks the mutex it holds.\<close>

lemma two_workers_relock:
  "\<exists>p. pool_reachable 2 goodbye p \<and> fault p = Some Relock"
  using relock_result run_reach [where es = relock_run]
  by (cases "pool_run 2 goodbye relock_run pool0") auto

text \<open>With two workers a join can be missed: two clients that join at the same time both become
  members and neither is ever told of the other, because each broadcast runs before the other's
  insertion.\<close>

lemma two_workers_miss_join:
  "\<exists>p. pool_reachable 2 goodbye p \<and> fault p = None \<and> code p 0 = [] \<and> code p 1 = [] \<and>
     client_set p = {ann, ben} \<and> outbox p ann = [''ann''] \<and> outbox p ben = [''ben'']"
  using blind_result run_reach [where es = blind_run]
  by (cases "pool_run 2 goodbye blind_run pool0") auto

text \<open>With two workers the members do not agree on the order: two messages broadcast at the same time
  under the shared lock reach two members in opposite orders.\<close>

lemma two_workers_disagree:
  "\<exists>p. pool_reachable 2 goodbye p \<and> fault p = None \<and> code p 0 = [] \<and> code p 1 = [] \<and>
     outbox p ann = [''ann'', ''ben'', ''hi'', ''ho''] \<and> outbox p ben = [''ben'', ''ho'', ''hi'']"
  using crossed_result run_reach [where es = crossed_run]
  by (cases "pool_run 2 goodbye crossed_run pool0") auto

end
