(* ===== verification/Strands.thy ===== *)
theory Strands
  imports Worker_Safety
begin

text \<open>
  The strands: in every interleaving of the workers at most one thread runs a handler of a given
  connection, and that thread starts at most one operation on it, before it leaves the strand. This is
  what lets \<open>WsConn\<close> touch its queue and its buffer without a lock. The worker pool gives each connection
  a strand; that the listener makes one for each, which the socket keeps, is proved in theory \<open>Sockets\<close>.
\<close>

section \<open>The code of a handler\<close>

fun is_start :: "instr \<Rightarrow> bool" where
  "is_start (Start c) = True"
| "is_start _ = False"

fun strand_code :: "instr list \<Rightarrow> bool" where
  "strand_code [] = True"
| "strand_code (Start c # k) = (Leave_Strand c \<in> set k \<and> (\<forall>x \<in> set k. \<not> is_start x))"
| "strand_code (_ # k) = strand_code k"

lemma is_start_iff: "is_start x \<longleftrightarrow> (\<exists>c. x = Start c)"
  by (cases x) auto

lemma no_start_strand: "(\<forall>x \<in> set k. \<not> is_start x) \<Longrightarrow> strand_code k"
  by (induction k rule: strand_code.induct) auto

lemma strand_code_start: "strand_code k \<Longrightarrow> Start c \<in> set k \<Longrightarrow> Leave_Strand c \<in> set k"
  by (induction k rule: strand_code.induct) (auto simp: is_start_iff)

lemma strand_code_one: "strand_code k \<Longrightarrow> Start c \<in> set k \<Longrightarrow> Start d \<in> set k \<Longrightarrow> c = d"
  by (induction k rule: strand_code.induct) (auto simp: is_start_iff)

lemma strand_code_tl: "strand_code (x # k) \<Longrightarrow> strand_code k"
  by (cases x) (auto intro: no_start_strand)

lemma strand_code_visits: "strand_code (map (Visit s) cs @ k) = strand_code k"
  by (induction cs) auto

lemma strand_code_destructor: "strand_code (destructor_code c s @ k) = strand_code k"
  by (simp add: destructor_code_def disconnect_code_def broadcast_code_def)

lemma strand_code_work: "strand_code (work_code w)"
  by (cases w) (auto simp: connect_code_def broadcast_code_def)

lemma count_visits: "count_list (map (Visit s) cs) (Leave_Strand c) = 0"
  by (induction cs) auto

lemma count_destructor: "count_list (destructor_code d s) (Leave_Strand c) = 0"
  by (simp add: destructor_code_def disconnect_code_def broadcast_code_def)

lemma count_work: "count_list (work_code w) (Leave_Strand c) = (if c = work_conn w then 1 else 0)"
  by (cases w) (auto simp: connect_code_def broadcast_code_def)

lemma start_destructor: "Start c \<notin> set (destructor_code d s)"
  by (simp add: destructor_code_def disconnect_code_def broadcast_code_def)

section \<open>The invariant\<close>

definition strand_inv :: "nat \<Rightarrow> pool \<Rightarrow> bool" where
  "strand_inv N p \<longleftrightarrow> (\<forall>c. total N p (Leave_Strand c) = (if c \<in> busy p then 1 else 0)) \<and>
     (\<forall>i. strand_code (code p i)) \<and> (\<forall>i \<ge> N. code p i = [])"

lemma strand_invD:
  assumes "strand_inv N p"
  shows "total N p (Leave_Strand c) = (if c \<in> busy p then 1 else 0)" and "strand_code (code p i)"
    and "i \<ge> N \<Longrightarrow> code p i = []"
  using assms by (auto simp: strand_inv_def)

lemma strand_update:
  assumes I: "strand_inv N p" and i: "i < N" and q: "code q = (code p)(i := k)" and k: "strand_code k"
    and n: "\<And>c. count_list k (Leave_Strand c) + (if c \<in> busy p then 1 else 0) =
      count_list (code p i) (Leave_Strand c) + (if c \<in> busy q then 1 else 0)"
  shows "strand_inv N q"
proof -
  have "total N q (Leave_Strand c) = (if c \<in> busy q then 1 else 0)" for c
    using total_update [OF i q, of "Leave_Strand c"] strand_invD(1) [OF I, of c] n [of c] by linarith
  then show ?thesis using strand_invD(2,3) [OF I] q k i by (auto simp: strand_inv_def)
qed

text \<open>What one step does to the code of its thread.\<close>

lemma instr_code:
  assumes "\<And>d. x \<noteq> Leave_Strand d" and "strand_code k"
  shows "instr_step bye i cs x k p = p\<lparr>fault := fault (instr_step bye i cs x k p)\<rparr> \<or>
    busy (instr_step bye i cs x k p) = busy p \<and>
    (\<exists>k'. code (instr_step bye i cs x k p) = (code p)(i := k') \<and> strand_code k' \<and>
       (\<forall>c. count_list k' (Leave_Strand c) = count_list k (Leave_Strand c)) \<and>
       (\<forall>c. Start c \<in> set k' \<longleftrightarrow> Start c \<in> set k))"
  using assms
  by (cases x) (auto simp: strand_code_visits strand_code_destructor count_visits count_destructor
      start_destructor)

lemma strand_step:
  assumes I: "strand_inv N p" and i: "i < N" and x: "code p i = x # k"
  shows "strand_inv N (instr_step bye i cs x k p)"
proof (cases "\<exists>d. x = Leave_Strand d")
  case True
  then obtain d where d: "x = Leave_Strand d" by blast
  have "0 < total N p (Leave_Strand d)" by (rule total_in [OF i]) (simp add: x d)
  then have "d \<in> busy p" using strand_invD(1) [OF I, of d] by (simp split: if_splits)
  then show ?thesis
    using strand_code_tl [of x k] strand_invD(2) [OF I, of i] x d
    by (intro strand_update [OF I i, where k = k]) auto
next
  case False
  let ?q = "instr_step bye i cs x k p"
  have k: "strand_code k" using strand_invD(2) [OF I, of i] x strand_code_tl by metis
  from instr_code [OF _ k, of x bye i cs p] False consider "?q = p\<lparr>fault := fault ?q\<rparr>"
    | k' where "busy ?q = busy p" "code ?q = (code p)(i := k')" "strand_code k'"
      "\<And>c. count_list k' (Leave_Strand c) = count_list k (Leave_Strand c)" by blast
  then show ?thesis
  proof cases
    case 1
    have "strand_inv N (p\<lparr>fault := f\<rparr>)" for f using I by (simp add: strand_inv_def total_def)
    then show ?thesis by (subst 1)
  next
    case (2 k')
    have "count_list (code p i) (Leave_Strand c) = count_list k (Leave_Strand c)" for c
      using x False by auto
    then show ?thesis using 2 by (intro strand_update [OF I i 2(2,3)]) simp
  qed
qed

lemma strand_begin:
  assumes I: "strand_inv N p" and i: "i < N" and "code p i = []" and "work_conn w \<notin> busy p"
  shows "strand_inv N (pool_exec bye (Begin i w) p)"
  using assms by (intro strand_update [OF I i, where k = "work_code w"])
    (auto simp: strand_code_work count_work)

interpretation strand: invariant_system "\<lambda>p. p = pool0" "pool_step N bye" "strand_inv N"
  for N :: nat and bye :: "conn \<Rightarrow> string"
proof
  fix p e p'
  show "p = pool0 \<Longrightarrow> strand_inv N p" by (simp add: pool0_def strand_inv_def total_def)
  assume I: "strand_inv N p" and st: "pool_step N bye p e p'"
  from st have e: "pool_enabled N e p" and p': "p' = pool_exec bye e p" by (auto simp: pool_step_iff)
  show "strand_inv N p'"
  proof (cases e)
    case (New c)
    then show ?thesis using I p' by (simp add: strand_inv_def total_def)
  next
    case (Begin i w)
    then show ?thesis using strand_begin [OF I] e p' by simp
  next
    case (Step i cs)
    then show ?thesis using strand_step [OF I] e p' by (auto split: list.splits)
  qed
qed

section \<open>One handler at a time\<close>

lemma total_two:
  assumes "i < N" and "j < N" and "i \<noteq> j"
  shows "count_list (code p i) x + count_list (code p j) x \<le> total N p x"
proof -
  have "(\<Sum>m \<in> {i, j}. count_list (code p m) x) \<le> total N p x"
    unfolding total_def by (rule sum_mono2) (use assms in auto)
  then show ?thesis using assms(3) by simp
qed

text \<open>\<open>on_strand p i c\<close>: thread \<open>i\<close> runs a handler of \<open>c\<close>.\<close>

definition on_strand :: "pool \<Rightarrow> nat \<Rightarrow> conn \<Rightarrow> bool" where
  "on_strand p i c \<longleftrightarrow> Leave_Strand c \<in> set (code p i)"

lemma on_strand_thread: "strand_inv N p \<Longrightarrow> on_strand p i c \<Longrightarrow> i < N"
  using strand_invD(3) [of N p i] by (fastforce simp: on_strand_def)

lemma strand_one:
  assumes I: "strand_inv N p" and "on_strand p i c" and "on_strand p j c"
  shows "i = j"
proof (rule ccontr)
  assume ij: "i \<noteq> j"
  have n: "i < N" "j < N"
    using on_strand_thread [OF I] assms(2,3) by simp_all
  have "count_list (code p i) (Leave_Strand c) \<noteq> 0" "count_list (code p j) (Leave_Strand c) \<noteq> 0"
    using assms(2,3) by (auto simp: on_strand_def count_list_0_iff)
  then have "2 \<le> total N p (Leave_Strand c)" using total_two [OF n ij, of p "Leave_Strand c"] by simp
  then show False using strand_invD(1) [OF I, of c] by (simp split: if_splits)
qed

lemma on_strand_busy:
  assumes I: "strand_inv N p" and c: "on_strand p i c"
  shows "c \<in> busy p"
proof -
  have "0 < total N p (Leave_Strand c)"
    by (rule total_in [OF on_strand_thread [OF I c]]) (use c in \<open>simp add: on_strand_def\<close>)
  then show ?thesis using strand_invD(1) [OF I, of c] by (simp split: if_splits)
qed

lemma start_on_strand: "strand_inv N p \<Longrightarrow> Start c \<in> set (code p i) \<Longrightarrow> on_strand p i c"
  using strand_code_start strand_invD(2) by (simp add: on_strand_def)

end
