(* ===== verification/Crew.thy ===== *)
theory Crew
  imports Strands Runtime
begin

text \<open>
  Several workers with the data of the connections: the operations outstanding on each connection, its
  queue and what was written to its socket are added to the worker pool, and the handlers of \<open>WsConn\<close>
  (\<open>include/websocket.cpp\<close>) decide by them, as the code does, what they start. The queue of a connection
  is touched by its handlers only, so a handler does its part on it when it begins; that no other
  handler of the connection runs meanwhile is proved (theory \<open>Strands\<close>), not assumed.
\<close>

section \<open>State\<close>

record strand_data =
  s_ops :: conn_ops
  s_queue :: "string list"
  s_wire :: "string list"

text \<open>\<open>job\<close> is the operation the handler of a thread will start, if it starts one.\<close>

datatype job = Next_Read | Next_Write

text \<open>\<open>misuse\<close> is set by \<open>front\<close> and \<open>pop\<close> of an empty queue, which are undefined.\<close>

record crew =
  core :: pool
  strands :: "conn \<Rightarrow> strand_data"
  job :: "nat \<Rightarrow> job"
  misuse :: bool

definition new_strand :: strand_data where
  "new_strand = \<lparr>s_ops = no_ops\<lparr>accepts := 1\<rparr>, s_queue = [], s_wire = []\<rparr>"

definition crew0 :: crew where
  "crew0 = \<lparr>core = pool0, strands = (\<lambda>_. \<lparr>s_ops = no_ops, s_queue = [], s_wire = []\<rparr>),
     job = (\<lambda>_. Next_Read), misuse = False\<rparr>"

section \<open>Handlers\<close>

text \<open>
  A completion and the text its handler will send: the connect message, the message received, or the
  error that answers it. What is proved here holds whatever the text is. Which one it is, and whether a
  received text is answered by the \<open>catch\<close> of \<open>handle\<close> or an exception gets out of it, is decided by
  \<open>accept_outcome\<close> and \<open>handle_outcome\<close> in theory \<open>Lockstep\<close>, with which the process begins its handlers.
\<close>

datatype completion =
    Accept_Ok conn string
  | Accept_Failed conn
  | Read_Good conn string
  | Read_Bad conn string
  | Read_Failed conn
  | Write_Ok conn
  | Write_Failed conn
  | Run_Post conn

fun completion_conn :: "completion \<Rightarrow> conn" where
  "completion_conn (Accept_Ok c s) = c"
| "completion_conn (Accept_Failed c) = c"
| "completion_conn (Read_Good c s) = c"
| "completion_conn (Read_Bad c s) = c"
| "completion_conn (Read_Failed c) = c"
| "completion_conn (Write_Ok c) = c"
| "completion_conn (Write_Failed c) = c"
| "completion_conn (Run_Post c) = c"

fun outstanding :: "completion \<Rightarrow> conn_ops \<Rightarrow> bool" where
  "outstanding (Accept_Ok c s) q \<longleftrightarrow> accepts q > 0"
| "outstanding (Accept_Failed c) q \<longleftrightarrow> accepts q > 0"
| "outstanding (Read_Good c s) q \<longleftrightarrow> reads q > 0"
| "outstanding (Read_Bad c s) q \<longleftrightarrow> reads q > 0"
| "outstanding (Read_Failed c) q \<longleftrightarrow> reads q > 0"
| "outstanding (Write_Ok c) q \<longleftrightarrow> writes q \<noteq> []"
| "outstanding (Write_Failed c) q \<longleftrightarrow> writes q \<noteq> []"
| "outstanding (Run_Post c) q \<longleftrightarrow> posts q \<noteq> []"

text \<open>
  What the handler does, for the queue it finds: \<open>accept\<close> and \<open>handle\<close> start the next read unless they
  failed; \<open>on_write\<close> starts a write when there is more in the queue than the text it takes off it;
  \<open>on_send\<close> starts one when the queue held nothing but the text it appends.
\<close>

fun handler_work :: "completion \<Rightarrow> string list \<Rightarrow> work" where
  "handler_work (Accept_Ok c s) q = Joining c s"
| "handler_work (Accept_Failed c) q = Finishing c"
| "handler_work (Read_Good c s) q = Saying c s"
| "handler_work (Read_Bad c s) q = Answering c s"
| "handler_work (Read_Failed c) q = Finishing c"
| "handler_work (Write_Ok c) q = (if tl q \<noteq> [] then Going_On c else Finishing c)"
| "handler_work (Write_Failed c) q = Finishing c"
| "handler_work (Run_Post c) q = (if length q + 1 > 1 then Finishing c else Going_On c)"

fun handler_job :: "completion \<Rightarrow> job" where
  "handler_job (Write_Ok c) = Next_Write"
| "handler_job (Run_Post c) = Next_Write"
| "handler_job _ = Next_Read"

text \<open>
  The completed operation is no longer outstanding; a successful write is recorded and its text popped;
  a posted text is pushed.
\<close>

fun handler_data :: "completion \<Rightarrow> strand_data \<Rightarrow> strand_data" where
  "handler_data (Accept_Ok c s) x = x\<lparr>s_ops := (s_ops x)\<lparr>accepts := accepts (s_ops x) - 1\<rparr>\<rparr>"
| "handler_data (Accept_Failed c) x = x\<lparr>s_ops := (s_ops x)\<lparr>accepts := accepts (s_ops x) - 1\<rparr>\<rparr>"
| "handler_data (Read_Good c s) x = x\<lparr>s_ops := (s_ops x)\<lparr>reads := reads (s_ops x) - 1\<rparr>\<rparr>"
| "handler_data (Read_Bad c s) x = x\<lparr>s_ops := (s_ops x)\<lparr>reads := reads (s_ops x) - 1\<rparr>\<rparr>"
| "handler_data (Read_Failed c) x = x\<lparr>s_ops := (s_ops x)\<lparr>reads := reads (s_ops x) - 1\<rparr>\<rparr>"
| "handler_data (Write_Ok c) x = x\<lparr>s_ops := (s_ops x)\<lparr>writes := tl (writes (s_ops x))\<rparr>,
     s_queue := tl (s_queue x), s_wire := s_wire x @ [hd (writes (s_ops x))]\<rparr>"
| "handler_data (Write_Failed c) x = x\<lparr>s_ops := (s_ops x)\<lparr>writes := tl (writes (s_ops x))\<rparr>\<rparr>"
| "handler_data (Run_Post c) x = x\<lparr>s_ops := (s_ops x)\<lparr>posts := tl (posts (s_ops x))\<rparr>,
     s_queue := s_queue x @ [hd (posts (s_ops x))]\<rparr>"

fun handler_misuse :: "completion \<Rightarrow> string list \<Rightarrow> bool" where
  "handler_misuse (Write_Ok c) q \<longleftrightarrow> q = []"
| "handler_misuse _ q \<longleftrightarrow> False"

text \<open>\<open>send\<close> posts to the strand; a handler starts its next read or the write of the front of the queue.\<close>

fun instr_data :: "job \<Rightarrow> instr \<Rightarrow> pool \<Rightarrow> (conn \<Rightarrow> strand_data) \<Rightarrow> conn \<Rightarrow> strand_data" where
  "instr_data j (Send c s) p D = (if refs p c = 0 then D
     else D(c := (D c)\<lparr>s_ops := (s_ops (D c))\<lparr>posts := posts (s_ops (D c)) @ [s]\<rparr>\<rparr>))"
| "instr_data j (Start c) p D = (if refs p c = 0 then D
     else D(c := (D c)\<lparr>s_ops := (case j of
         Next_Read \<Rightarrow> (s_ops (D c))\<lparr>reads := Suc (reads (s_ops (D c)))\<rparr>
       | Next_Write \<Rightarrow> (s_ops (D c))\<lparr>writes := writes (s_ops (D c)) @ [hd (s_queue (D c))]\<rparr>)\<rparr>))"
| "instr_data j _ p D = D"

fun instr_misuse :: "job \<Rightarrow> instr \<Rightarrow> (conn \<Rightarrow> strand_data) \<Rightarrow> bool" where
  "instr_misuse j (Start c) D \<longleftrightarrow> j = Next_Write \<and> s_queue (D c) = []"
| "instr_misuse j _ D \<longleftrightarrow> False"

section \<open>Steps\<close>

datatype crew_event =
    C_New conn
  | C_Begin nat completion
  | C_Step nat "conn list"

text \<open>The step of the worker pool that a step of the crew is.\<close>

fun core_event :: "crew_event \<Rightarrow> crew \<Rightarrow> pool_event" where
  "core_event (C_New c) d = New c"
| "core_event (C_Begin i h) d = Begin i (handler_work h (s_queue (strands d (completion_conn h))))"
| "core_event (C_Step i cs) d = Step i cs"

fun crew_enabled :: "nat \<Rightarrow> crew_event \<Rightarrow> crew \<Rightarrow> bool" where
  "crew_enabled N (C_New c) d \<longleftrightarrow> c \<notin> store (core d)"
| "crew_enabled N (C_Begin i h) d \<longleftrightarrow> i < N \<and> code (core d) i = [] \<and>
     outstanding h (s_ops (strands d (completion_conn h))) \<and> completion_conn h \<notin> busy (core d)"
| "crew_enabled N (C_Step i cs) d \<longleftrightarrow> pool_enabled N (Step i cs) (core d)"

fun crew_exec :: "(conn \<Rightarrow> string) \<Rightarrow> crew_event \<Rightarrow> crew \<Rightarrow> crew" where
  "crew_exec bye (C_New c) d =
     d\<lparr>core := pool_exec bye (New c) (core d), strands := (strands d)(c := new_strand)\<rparr>"
| "crew_exec bye (C_Begin i h) d =
     (let c = completion_conn h; x = strands d c in
      d\<lparr>core := pool_exec bye (core_event (C_Begin i h) d) (core d),
        strands := (strands d)(c := handler_data h x), job := (job d)(i := handler_job h),
        misuse := misuse d \<or> handler_misuse h (s_queue x)\<rparr>)"
| "crew_exec bye (C_Step i cs) d =
     (case code (core d) i of
        [] \<Rightarrow> d
      | x # k \<Rightarrow> d\<lparr>core := pool_exec bye (Step i cs) (core d),
          strands := instr_data (job d i) x (core d) (strands d),
          misuse := misuse d \<or> instr_misuse (job d i) x (strands d)\<rparr>)"

inductive crew_step :: "nat \<Rightarrow> (conn \<Rightarrow> string) \<Rightarrow> crew \<Rightarrow> crew_event \<Rightarrow> crew \<Rightarrow> bool" for N bye where
  crew_stepI: "fault (core d) = None \<Longrightarrow> \<not> misuse d \<Longrightarrow> crew_enabled N e d \<Longrightarrow>
     crew_step N bye d e (crew_exec bye e d)"

inductive_simps crew_step_iff: "crew_step N bye d e d'"

abbreviation crew_reachable :: "nat \<Rightarrow> (conn \<Rightarrow> string) \<Rightarrow> crew \<Rightarrow> bool" where
  "crew_reachable N bye d \<equiv> reach (\<lambda>d. d = crew0) (crew_step N bye) d"

fun crew_run :: "nat \<Rightarrow> (conn \<Rightarrow> string) \<Rightarrow> crew_event list \<Rightarrow> crew \<Rightarrow> crew option" where
  "crew_run N bye [] d = Some d"
| "crew_run N bye (e # es) d =
     (if fault (core d) = None \<and> \<not> misuse d \<and> crew_enabled N e d
      then crew_run N bye es (crew_exec bye e d) else None)"

lemma crew_run_reachable:
  "crew_run N bye es d = Some d' \<Longrightarrow> crew_reachable N bye d \<Longrightarrow> crew_reachable N bye d'"
proof (induction es arbitrary: d)
  case Nil
  then show ?case by simp
next
  case (Cons e es)
  then have "crew_step N bye d e (crew_exec bye e d)" by (simp add: crew_step_iff split: if_splits)
  then have "crew_reachable N bye (crew_exec bye e d)" using Cons.prems(2) reach_step by fastforce
  then show ?case using Cons by (simp split: if_splits)
qed

lemma crew_run_append:
  "crew_run N bye (es @ fs) d = Option.bind (crew_run N bye es d) (crew_run N bye fs)"
  by (induction es arbitrary: d) auto

end
