(* ===== verification/Crew_Safety.thy ===== *)
theory Crew_Safety
  imports Crew
begin

text \<open>
  The invariant of the crew: the operations a connection has outstanding are those the worker pool
  counts, what was sent to it is what was written, queued and posted, and it has at most one handshake or
  read and one write, in every interleaving of any number of workers.
\<close>

section \<open>The invariant\<close>

text \<open>Some thread is about to start an operation of this kind on \<open>c\<close>.\<close>

definition starting :: "crew \<Rightarrow> job \<Rightarrow> conn \<Rightarrow> bool" where
  "starting d j c \<longleftrightarrow> (\<exists>i. Start c \<in> set (code (core d) i) \<and> job d i = j)"

text \<open>One connection: \<open>sr\<close> and \<open>sw\<close> say whether a read or a write of it is about to be started.\<close>

definition conn_ok :: "bool \<Rightarrow> bool \<Rightarrow> strand_data \<Rightarrow> string list \<Rightarrow> nat \<Rightarrow> bool" where
  "conn_ok sr sw x s n \<longleftrightarrow> n = op_count (s_ops x) \<and> s = s_wire x @ s_queue x @ posts (s_ops x) \<and>
     accepts (s_ops x) + reads (s_ops x) + (if sr then 1 else 0) \<le> 1 \<and>
     (if sw then writes (s_ops x) = [] \<and> s_queue x \<noteq> []
      else writes (s_ops x) = [] \<or> (\<exists>t ts. writes (s_ops x) = [t] \<and> s_queue x = t # ts))"

definition data_inv :: "crew \<Rightarrow> bool" where
  "data_inv d \<longleftrightarrow> (\<forall>c. conn_ok (starting d Next_Read c) (starting d Next_Write c) (strands d c)
     (outbox (core d) c) (pending (core d) c))"

definition crew_inv :: "nat \<Rightarrow> crew \<Rightarrow> bool" where
  "crew_inv N d \<longleftrightarrow> workers_inv N (core d) \<and> strand_inv N (core d) \<and> \<not> misuse d \<and> data_inv d"

lemma data_invD:
  "data_inv d \<Longrightarrow> conn_ok (starting d Next_Read c) (starting d Next_Write c) (strands d c)
     (outbox (core d) c) (pending (core d) c)"
  by (simp add: data_inv_def)

lemma conn_ok_unused: "conn_ok False False \<lparr>s_ops = no_ops, s_queue = [], s_wire = []\<rparr> [] 0"
  by (simp add: conn_ok_def)

lemma crew_inv0: "crew_inv N crew0"
  by (simp add: crew_inv_def crew0_def workers_inv_def pool_inv0 data_inv_def starting_def
      conn_ok_unused [simplified] conn_ok_def)
     (simp add: pool0_def strand_inv_def total_def)

section \<open>A new connection\<close>

lemma starting_held:
  assumes I: "pool_inv N p" and c: "Start c \<in> set (code p i)"
  shows "c \<in> store p"
proof -
  have "owned k \<Longrightarrow> Start c \<in> set k \<Longrightarrow> Release c \<in> set k" for k
    by (induction k rule: owned.induct) auto
  then have r: "Release c \<in> set (code p i)" using pool_invD(2) [OF I] c by blast
  have "i < N" using pool_invD(4) [OF I, of i] c by (cases "i < N") auto
  then show ?thesis using held [OF I _ r] pool_invD(6) [OF I] by blast
qed

lemma new_data_inv:
  assumes I: "pool_inv N (core d)" and D: "data_inv d" and c: "c \<notin> store (core d)"
  shows "data_inv (crew_exec bye (C_New c) d)"
proof -
  let ?d = "crew_exec bye (C_New c) d"
  have s: "starting ?d j e = starting d j e" for j e
    by (simp add: starting_def)
  have "\<not> starting d j c" for j using starting_held [OF I] c by (auto simp: starting_def)
  then have "conn_ok (starting d Next_Read c) (starting d Next_Write c) new_strand [] 1"
    by (simp add: conn_ok_def new_strand_def op_count_def)
  then have "conn_ok (starting d Next_Read e) (starting d Next_Write e) (strands ?d e)
      (outbox (core ?d) e) (pending (core ?d) e)" for e
    using data_invD [OF D, of e] by simp
  then show ?thesis unfolding data_inv_def s by blast
qed

section \<open>The beginning of a handler\<close>

lemma work_start:
  "Start e \<in> set (work_code w) \<longleftrightarrow> e = work_conn w \<and> (\<forall>c. w \<noteq> Finishing c)"
  by (cases w) (auto simp: connect_code_def broadcast_code_def)

lemma handler_work_conn: "work_conn (handler_work h q) = completion_conn h"
  by (cases h) auto

text \<open>What a handler finds, does and will start, for its own connection.\<close>

lemma handler_conn_ok:
  assumes "conn_ok False False x s n" and "outstanding h (s_ops x)"
  shows "conn_ok ((\<forall>c. handler_work h (s_queue x) \<noteq> Finishing c) \<and> handler_job h = Next_Read)
      ((\<forall>c. handler_work h (s_queue x) \<noteq> Finishing c) \<and> handler_job h = Next_Write)
      (handler_data h x) s (n - 1)" and "\<not> handler_misuse h (s_queue x)" and "n > 0"
proof -
  show "n > 0" using assms by (cases h) (auto simp: conn_ok_def op_count_def)
  show "\<not> handler_misuse h (s_queue x)" using assms by (cases h) (auto simp: conn_ok_def)
  show "conn_ok ((\<forall>c. handler_work h (s_queue x) \<noteq> Finishing c) \<and> handler_job h = Next_Read)
      ((\<forall>c. handler_work h (s_queue x) \<noteq> Finishing c) \<and> handler_job h = Next_Write)
      (handler_data h x) s (n - 1)"
  proof (cases h)
    case (Run_Post c)
    then obtain t ts where "posts (s_ops x) = t # ts"
      using assms(2) by (cases "posts (s_ops x)") auto
    then show ?thesis
      using assms Run_Post by (cases "s_queue x") (auto simp: conn_ok_def op_count_def)
  qed (use assms in \<open>auto simp: conn_ok_def op_count_def\<close>)
qed

lemma begin_data_inv:
  assumes S: "strand_inv N (core d)" and D: "data_inv d"
    and i: "code (core d) i = []" and h: "outstanding h (s_ops (strands d (completion_conn h)))"
    and b: "completion_conn h \<notin> busy (core d)"
  shows "data_inv (crew_exec bye (C_Begin i h) d)" and "\<not> handler_misuse h (s_queue (strands d (completion_conn h)))"
    and "pending (core d) (completion_conn h) > 0"
proof -
  let ?c = "completion_conn h" and ?d = "crew_exec bye (C_Begin i h) d"
  let ?x = "strands d ?c"
  let ?w = "handler_work h (s_queue ?x)"
  have n: "\<not> starting d j ?c" for j
    using start_on_strand [OF S] on_strand_busy [OF S] b by (auto simp: starting_def)
  then have ok: "conn_ok False False ?x (outbox (core d) ?c) (pending (core d) ?c)"
    using data_invD [OF D, of ?c] by simp
  show "\<not> handler_misuse h (s_queue ?x)" "pending (core d) ?c > 0"
    using handler_conn_ok(2,3) [OF ok h] .
  have cd: "code (core ?d) = (code (core d))(i := work_code ?w)" "job ?d = (job d)(i := handler_job h)"
    by (simp_all add: Let_def)
  have st: "starting ?d j e \<longleftrightarrow>
      (if e = ?c then (\<forall>c. ?w \<noteq> Finishing c) \<and> handler_job h = j else starting d j e)" for j e
  proof (cases "e = ?c")
    case True
    then show ?thesis
      using n unfolding starting_def cd by (auto simp: work_start handler_work_conn split: if_splits)
  next
    case False
    then show ?thesis
      unfolding starting_def cd using i by (auto simp: work_start handler_work_conn intro!: iff_exI)
  qed
  have "conn_ok (starting ?d Next_Read e) (starting ?d Next_Write e) (strands ?d e)
      (outbox (core ?d) e) (pending (core ?d) e)" for e
  proof (cases "e = ?c")
    case True
    then show ?thesis
      unfolding st using handler_conn_ok(1) [OF ok h] by (simp add: Let_def handler_work_conn)
  next
    case False
    then show ?thesis
      unfolding st using data_invD [OF D, of e] by (simp add: Let_def handler_work_conn)
  qed
  then show "data_inv ?d" by (simp add: data_inv_def)
qed

section \<open>The steps of a handler\<close>

text \<open>Sending and starting change one connection, in the pool and in its data alike.\<close>

lemma conn_ok_send:
  "conn_ok sr sw x s n \<Longrightarrow>
     conn_ok sr sw (x\<lparr>s_ops := (s_ops x)\<lparr>posts := posts (s_ops x) @ [t]\<rparr>\<rparr>) (s @ [t]) (Suc n)"
  by (auto simp: conn_ok_def op_count_def)

lemma conn_ok_read:
  "conn_ok True sw x s n \<Longrightarrow>
     conn_ok False sw (x\<lparr>s_ops := (s_ops x)\<lparr>reads := Suc (reads (s_ops x))\<rparr>\<rparr>) s (Suc n)"
  by (auto simp: conn_ok_def op_count_def)

lemma conn_ok_write:
  "conn_ok sr True x s n \<Longrightarrow> s_queue x \<noteq> [] \<and> conn_ok sr False
     (x\<lparr>s_ops := (s_ops x)\<lparr>writes := writes (s_ops x) @ [hd (s_queue x)]\<rparr>\<rparr>) s (Suc n)"
  by (cases "s_queue x") (auto simp: conn_ok_def op_count_def)

text \<open>An instruction that is no start leaves alone what the threads are about to start.\<close>

lemma starting_step:
  assumes x: "code (core d) i = x # k" and ns: "\<not> is_start x" and k: "strand_code k"
    and q: "core d' = instr_step bye i cs x k (core d)" and j: "job d' = job d"
  shows "starting d' j c = starting d j c"
proof (cases "\<exists>e. x = Leave_Strand e")
  case True
  then show ?thesis
    unfolding starting_def q j using x by (auto simp: intro!: iff_exI split: if_splits)
next
  case False
  from instr_code [OF _ k, of x bye i cs "core d"] False
  consider "core d' = (core d)\<lparr>fault := fault (core d')\<rparr>"
    | k' where "code (core d') = (code (core d))(i := k')"
        "\<And>c. Start c \<in> set k' \<longleftrightarrow> Start c \<in> set k" unfolding q by blast
  then show ?thesis
  proof cases
    case 1
    have "code (core d') = code (core d)" by (subst 1) simp
    then show ?thesis by (simp add: starting_def j)
  next
    case 2
    then show ?thesis
      unfolding starting_def j using x ns by (auto intro!: iff_exI simp: is_start_iff)
  qed
qed

text \<open>What the step leaves of the data of the pool, when it neither sends nor starts.\<close>

lemma instr_step_data:
  "\<not> is_start x \<Longrightarrow> (\<And>c s. x \<noteq> Send c s) \<Longrightarrow>
     outbox (instr_step bye i cs x k p) = outbox p \<and> pending (instr_step bye i cs x k p) = pending p \<and>
     instr_data j x p D = D"
  by (cases x) auto

lemma start_data_inv:
  assumes P: "pool_inv N (core d)" and S: "strand_inv N (core d)" and D: "data_inv d" and i: "i < N"
    and x: "code (core d) i = Start c # k" and d': "d' = crew_exec bye (C_Step i cs) d"
  shows "data_inv d'" and "\<not> instr_misuse (job d i) (Start c) (strands d)"
proof -
  have "Release c \<in> set k" using pool_invD(2) [OF P, of i] x by simp
  then have r: "refs (core d) c > 0" using held [OF P i, of c] x by simp
  have o: "starting d (job d i) c" unfolding starting_def using x by (intro exI [of _ i]) simp
  have k: "Start e \<notin> set k" for e
    using strand_invD(2) [OF S, of i] x by (auto simp: is_start_iff)
  have one: "m = i" if "Start c \<in> set (code (core d) m)" for m
    using strand_one [OF S start_on_strand [OF S that]] start_on_strand [OF S, of c i] x by simp
  then have n: "starting d j c \<longleftrightarrow> j = job d i" for j using o by (auto simp: starting_def)
  have cd: "code (core d') = (code (core d))(i := k)" "job d' = job d"
    using r by (simp_all add: d' x)
  have st: "starting d' j e \<longleftrightarrow> e \<noteq> c \<and> starting d j e" for j e
  proof (cases "e = c")
    case True
    then show ?thesis unfolding starting_def cd using k one by (auto split: if_splits)
  next
    case False
    then have "Start e \<notin> set (code (core d) i)" using k x by auto
    then show ?thesis unfolding starting_def cd using k False by (auto intro!: iff_exI)
  qed
  note ok = data_invD [OF D, of c]
  show "\<not> instr_misuse (job d i) (Start c) (strands d)"
    using ok n [of Next_Write] conn_ok_write by (cases "job d i") auto
  have "conn_ok (starting d' Next_Read e) (starting d' Next_Write e) (strands d' e)
      (outbox (core d') e) (pending (core d') e)" for e
  proof (cases "e = c")
    case True
    then show ?thesis
      unfolding st using ok n r conn_ok_read conn_ok_write
      by (cases "job d i") (auto simp: d' x)
  next
    case False
    then show ?thesis unfolding st using data_invD [OF D, of e] r by (simp add: d' x)
  qed
  then show "data_inv d'" by (simp add: data_inv_def)
qed

lemma step_data_inv:
  assumes P: "pool_inv N (core d)" and S: "strand_inv N (core d)" and D: "data_inv d" and i: "i < N"
    and x: "code (core d) i = x # k" and d': "d' = crew_exec bye (C_Step i cs) d"
  shows "data_inv d' \<and> \<not> instr_misuse (job d i) x (strands d)"
proof (cases "\<exists>c. x = Start c")
  case True
  then obtain c where c: "x = Start c" by blast
  show ?thesis using start_data_inv [OF P S D i x [unfolded c] d'] c by simp
next
  case False
  then have ns: "\<not> is_start x" by (simp add: is_start_iff)
  have k: "strand_code k" using strand_invD(2) [OF S, of i] x strand_code_tl by metis
  have q: "core d' = instr_step bye i cs x k (core d)" "job d' = job d"
    "strands d' = instr_data (job d i) x (core d) (strands d)" by (simp_all add: d' x)
  note st = starting_step [OF x ns k q(1,2)]
  have "conn_ok (starting d' Next_Read e) (starting d' Next_Write e) (strands d' e)
      (outbox (core d') e) (pending (core d') e)" for e
  proof (cases "\<exists>c s. x = Send c s")
    case True
    then obtain c s where c: "x = Send c s" by blast
    have "Release c \<in> set k" using pool_invD(2) [OF P, of i] x c by simp
    then have r: "refs (core d) c > 0" using held [OF P i, of c] x by simp
    show ?thesis
      unfolding st using data_invD [OF D, of e] r conn_ok_send by (auto simp: q(1,3) c)
  next
    case False
    then show ?thesis
      unfolding st using data_invD [OF D, of e]
        instr_step_data [OF ns, of bye i cs k "core d" "job d i" "strands d"]
      by (simp add: q(1,3))
  qed
  moreover have "\<not> instr_misuse (job d i) x (strands d)" using ns by (cases x) auto
  ultimately show ?thesis by (simp add: data_inv_def)
qed

section \<open>Every step of the crew is a step of the pool\<close>

lemma crew_step_pool:
  assumes I: "crew_inv N d" and st: "crew_step N bye d e d'"
  shows "pool_step N bye (core d) (core_event e d) (core d')"
proof -
  from st have f: "fault (core d) = None" and e: "crew_enabled N e d" and d': "d' = crew_exec bye e d"
    by (auto simp: crew_step_iff)
  have S: "strand_inv N (core d)" and D: "data_inv d" using I by (auto simp: crew_inv_def)
  show ?thesis
  proof (cases e)
    case (C_New c)
    then show ?thesis using f e d' by (auto simp: pool_step_iff)
  next
    case (C_Begin i h)
    then have "pending (core d) (completion_conn h) > 0" using begin_data_inv(3) [OF S D, of i h] e by simp
    then show ?thesis using f e d' C_Begin by (auto simp: pool_step_iff Let_def handler_work_conn)
  next
    case (C_Step i cs)
    then show ?thesis using f e d' by (auto simp: pool_step_iff split: list.splits)
  qed
qed

lemma crew_step_inv:
  assumes I: "crew_inv N d" and st: "crew_step N bye d e d'"
  shows "crew_inv N d'"
proof -
  from st have f: "fault (core d) = None" and m: "\<not> misuse d" and e: "crew_enabled N e d"
    and d': "d' = crew_exec bye e d" by (auto simp: crew_step_iff)
  have W: "workers_inv N (core d)" and S: "strand_inv N (core d)" and D: "data_inv d"
    using I by (auto simp: crew_inv_def)
  have P: "pool_inv N (core d)" using W f by (simp add: workers_inv_def)
  note ps = crew_step_pool [OF I st]
  have "data_inv d' \<and> \<not> misuse d'"
  proof (cases e)
    case (C_New c)
    then show ?thesis using new_data_inv [OF P D] e m d' by simp
  next
    case (C_Begin i h)
    then show ?thesis using begin_data_inv(1,2) [OF S D] e m d' by (auto simp: Let_def)
  next
    case (C_Step i cs)
    then obtain x k where x: "code (core d) i = x # k" and i: "i < N" using e by (auto split: list.splits)
    have "data_inv d'" and "\<not> instr_misuse (job d i) x (strands d)"
      using step_data_inv [OF P S D i x] d' C_Step by simp_all
    then show ?thesis using m d' C_Step x by simp
  qed
  then show ?thesis
    using pool.inv_step [OF W ps] strand.inv_step [OF S ps] by (simp add: crew_inv_def)
qed

interpretation crew: simulation "\<lambda>d. d = crew0" "crew_step N bye" "crew_inv N"
  "\<lambda>p. p = pool0" "pool_step N bye" core for N :: nat and bye :: "conn \<Rightarrow> string"
proof
  fix d e d'
  show "d = crew0 \<Longrightarrow> crew_inv N d" by (simp add: crew_inv0)
  show "d = crew0 \<Longrightarrow> core d = pool0" by (simp add: crew0_def)
  show "crew_inv N d \<Longrightarrow> crew_step N bye d e d' \<Longrightarrow> crew_inv N d'" by (rule crew_step_inv)
  show "crew_inv N d \<Longrightarrow> crew_step N bye d e d' \<Longrightarrow>
      core d' = core d \<or> (\<exists>f. pool_step N bye (core d) f (core d'))"
    using crew_step_pool by blast
qed

section \<open>Nothing leaks\<close>

text \<open>An object in memory is owned, or its destructor is running.\<close>

definition no_leak :: "nat \<Rightarrow> pool \<Rightarrow> bool" where
  "no_leak N p \<longleftrightarrow> (\<forall>c \<in> store p. refs p c > 0 \<or> (\<exists>i<N. Free c \<in> set (code p i)))"

lemma no_leakI:
  assumes "no_leak N p" and i: "i < N" and q: "code q = (code p)(i := k')"
    and st: "\<And>c. c \<in> store q \<Longrightarrow> c \<in> store p"
    and r: "\<And>c. c \<in> store q \<Longrightarrow> refs p c > 0 \<Longrightarrow> refs q c > 0 \<or> Free c \<in> set k'"
    and f: "\<And>c. c \<in> store q \<Longrightarrow> Free c \<in> set (code p i) \<Longrightarrow> Free c \<in> set k'"
  shows "no_leak N q"
  unfolding no_leak_def
proof
  fix c assume c: "c \<in> store q"
  from assms(1) st [OF c] consider "refs p c > 0" | j where "j < N" "Free c \<in> set (code p j)"
    by (auto simp: no_leak_def)
  then show "refs q c > 0 \<or> (\<exists>j<N. Free c \<in> set (code q j))"
  proof cases
    case 1
    then show ?thesis using r [OF c] i q by auto
  next
    case (2 j)
    then have "Free c \<in> set (code q j)" using f [OF c] q by (cases "j = i") auto
    then show ?thesis using 2(1) by blast
  qed
qed

text \<open>What a step does to memory: with \<open>x\<close> before, \<open>k'\<close> is what its thread has left to do.\<close>

lemma instr_memory:
  fixes p i cs x k bye
  defines "q \<equiv> instr_step bye i cs x k p"
  assumes x: "code p i = x # k" and c: "c \<in> store q"
  shows "code q = (code p)(i := code q i)" and "c \<in> store p"
    and "refs p c > 0 \<Longrightarrow> refs q c > 0 \<or> Free c \<in> set (code q i)"
    and "Free c \<in> set (code p i) \<Longrightarrow> Free c \<in> set (code q i)"
  using c x unfolding q_def
  by (cases x; auto simp: destructor_code_def fun_upd_idem_iff split: if_splits)+

lemma no_leak_step:
  assumes "no_leak N p" and "i < N" and "code p i = x # k"
  shows "no_leak N (instr_step bye i cs x k p)"
proof (cases "store (instr_step bye i cs x k p) = {}")
  case True
  then show ?thesis by (simp add: no_leak_def)
next
  case False
  then obtain c where c: "c \<in> store (instr_step bye i cs x k p)" by blast
  note m = instr_memory [where bye = bye and cs = cs, OF assms(3)]
  show ?thesis
    by (rule no_leakI [OF assms(1,2) m(1) [OF c]]) (use m(2-4) in blast)+
qed

interpretation leak: invariant_system "\<lambda>p. p = pool0" "pool_step N bye" "no_leak N"
  for N :: nat and bye :: "conn \<Rightarrow> string"
proof
  fix p e p'
  show "p = pool0 \<Longrightarrow> no_leak N p" by (simp add: pool0_def no_leak_def)
  assume L: "no_leak N p" and st: "pool_step N bye p e p'"
  from st have e: "pool_enabled N e p" and p': "p' = pool_exec bye e p" by (auto simp: pool_step_iff)
  show "no_leak N p'"
  proof (cases e)
    case (New c)
    then show ?thesis using L p' by (auto simp: no_leak_def)
  next
    case (Begin i w)
    then show ?thesis
      using e p' by (intro no_leakI [OF L, of i _ "work_code w"]) auto
  next
    case (Step i cs)
    then show ?thesis using no_leak_step [OF L] e p' by (auto split: list.splits)
  qed
qed

end
