(* ===== verification/Crew_Properties.thy ===== *)
theory Crew_Properties
  imports Crew_Safety Worker_Properties
begin

text \<open>
  The properties of several workers with the data of the connections: what holds of one worker for the
  handlers of a connection, its outbox and its memory holds in every interleaving of any number.
\<close>

section \<open>A run for the witnesses\<close>

definition crew_steps :: "nat \<Rightarrow> nat \<Rightarrow> conn list \<Rightarrow> crew_event list" where
  "crew_steps i n cs = replicate n (C_Step i cs)"

text \<open>
  Ann joins and her greeting is being written. She says hi, and while one thread visits her in the loop
  of the broadcast, the other finishes the write.
\<close>

definition ann_talks :: "crew_event list" where
  "ann_talks = [C_New ann, C_Begin 0 (Accept_Ok ann ''ann'')] @ crew_steps 0 10 [] @
     [C_Begin 0 (Run_Post ann)] @ crew_steps 0 3 [] @
     [C_Begin 0 (Read_Good ann ''hi'')] @ crew_steps 0 4 [ann]"

lemma ann_talks:
  "map_option (\<lambda>d. (fault (core d), misuse d, code (core d) 0, code (core d) 1, store (core d)))
     (crew_run 2 goodbye ann_talks crew0) = Some (None, False,
       [Release ann, Unlock_Shared, Start ann, Release ann, Leave_Strand ann], [], {ann})"
  "map_option (\<lambda>d. (outbox (core d) ann, s_wire (strands d ann), s_queue (strands d ann),
       posts (s_ops (strands d ann)), writes (s_ops (strands d ann))))
     (crew_run 2 goodbye ann_talks crew0) = Some ([''ann'', ''hi''], [], [''ann''], [''hi''], [''ann''])"
  by code_simp+

lemma ann_crew:
  obtains d where "crew_reachable 2 goodbye d" and "fault (core d) = None" and "\<not> misuse d"
    and "code (core d) 0 = [Release ann, Unlock_Shared, Start ann, Release ann, Leave_Strand ann]"
    and "code (core d) 1 = []" and "store (core d) = {ann}"
    and "outbox (core d) ann = [''ann'', ''hi'']" and "s_wire (strands d ann) = []"
    and "s_queue (strands d ann) = [''ann'']" and "posts (s_ops (strands d ann)) = [''hi'']"
proof -
  obtain d where d: "crew_run 2 goodbye ann_talks crew0 = Some d"
    using ann_talks(1) by (cases "crew_run 2 goodbye ann_talks crew0") auto
  have "crew_reachable 2 goodbye d" by (rule crew_run_reachable [OF d reach_init]) simp
  then show thesis using that d ann_talks by simp
qed

section \<open>Guarantees\<close>

lemma crew_facts:
  assumes "crew_reachable N bye d"
  shows "crew_inv N d" and "pool_reachable N bye (core d)"
  using crew.reach_inv [OF assms] crew.reach_image [OF assms] by auto

text \<open>C12: Under any number of workers the outbox of a connection stays exact: in every interleaving what was
  sent to it is what was written, then what is queued, then what is posted; at most one handshake or
  read and one write are outstanding, the write is of the front of the queue, and no handler takes the
  front of an empty queue.\<close>

theorem crew_outbox_exact:
  assumes "crew_reachable N bye d"
  shows "outbox (core d) c = s_wire (strands d c) @ s_queue (strands d c) @ posts (s_ops (strands d c)) \<and>
    length (writes (s_ops (strands d c))) \<le> 1 \<and>
    (\<forall>t \<in> set (writes (s_ops (strands d c))). \<exists>ts. s_queue (strands d c) = t # ts) \<and>
    accepts (s_ops (strands d c)) + reads (s_ops (strands d c)) \<le> 1 \<and> \<not> misuse d"
proof -
  have "data_inv d" "\<not> misuse d" using crew_facts(1) [OF assms] by (simp_all add: crew_inv_def)
  then show ?thesis using data_invD [of d c] by (auto simp: conn_ok_def split: if_splits)
qed

theorem crew_outbox_exact_witness:
  "\<exists>d :: crew. outbox (core d) ann = [''ann'', ''hi''] \<and> s_queue (strands d ann) = [''ann''] \<and>
     outbox (core d) ann = s_wire (strands d ann) @ [''ann''] @ [''hi'']"
proof -
  obtain d where d: "crew_reachable 2 goodbye d" "outbox (core d) ann = [''ann'', ''hi'']"
    "s_queue (strands d ann) = [''ann'']" "posts (s_ops (strands d ann)) = [''hi'']" by (rule ann_crew)
  then show ?thesis using crew_outbox_exact [OF d(1), of ann] by (intro exI [of _ d]) simp
qed

text \<open>C16: The handlers with their data implement the worker pool: every step of the crew is the step of the
  pool with the same instruction, so what the pool guarantees in all interleavings it guarantees: the
  only fault is a destructor inside a broadcast, and the set only holds connections in memory.\<close>

theorem crew_refines_pool:
  assumes "crew_reachable N bye d" and "crew_step N bye d e d'"
  shows "pool_step N bye (core d) (core_event e d) (core d') \<and>
    (fault (core d') = None \<and> client_set (core d') \<subseteq> store (core d') \<or>
     fault (core d') = Some Relock \<and> (\<exists>i cs c s k. e = C_Step i cs \<and> i \<in> readers (core d) \<and>
       code (core d) i = destructor_code c s @ k))"
proof -
  have ps: "pool_step N bye (core d) (core_event e d) (core d')"
    by (rule crew_step_pool [OF crew_facts(1) [OF assms(1)] assms(2)])
  have "fault (core d) = None" using assms(2) by (simp add: crew_step_iff)
  then have "pool_inv N (core d)"
    using crew_facts(1) [OF assms(1)] by (simp add: crew_inv_def workers_inv_def)
  moreover have "e = C_Step i cs" if "core_event e d = Step i cs" for i cs using that by (cases e) auto
  ultimately show ?thesis using pool_step_outcome [OF _ ps] ps pool_invD(11) by blast
qed

theorem crew_refines_pool_witness:
  "\<exists>d. crew_reachable 2 goodbye d \<and> outbox (core d) ann = [''ann'', ''hi''] \<and>
     pool_step 2 goodbye (core d) (New ben) (core (crew_exec goodbye (C_New ben) d))"
proof -
  obtain d where d: "crew_reachable 2 goodbye d" "fault (core d) = None" "\<not> misuse d"
    "store (core d) = {ann}" "outbox (core d) ann = [''ann'', ''hi'']" by (rule ann_crew)
  then have "crew_step 2 goodbye d (C_New ben) (crew_exec goodbye (C_New ben) d)"
    by (intro crew_stepI) auto
  from crew_refines_pool [OF d(1) this] show ?thesis using d by auto
qed

lemma crew_memory:
  assumes "crew_reachable N bye d" and "fault (core d) = None"
  shows "c \<in> store (core d) \<longleftrightarrow> op_count (s_ops (strands d c)) > 0 \<or>
    (\<exists>i. Release c \<in> set (code (core d) i) \<or> Free c \<in> set (code (core d) i))"
proof -
  have I: "pool_inv N (core d)" and D: "data_inv d"
    using crew_facts(1) [OF assms(1)] assms(2) by (auto simp: crew_inv_def workers_inv_def)
  have n: "pending (core d) c = op_count (s_ops (strands d c))"
    using data_invD [OF D, of c] by (simp add: conn_ok_def)
  have L: "no_leak N (core d)" by (rule leak.reach_inv [OF crew_facts(2) [OF assms(1)]])
  note refs = pool_invD(5) [OF I, of c]
  have thread: "i < N" if "x \<in> set (code (core d) i)" for x i
    using pool_invD(4) [OF I, of i] that by (cases "i < N") auto
  have "0 < total N (core d) (Release c) \<longleftrightarrow> (\<exists>i. Release c \<in> set (code (core d) i))"
    using total_in thread total_pos [of N "core d" "Release c"] by blast
  then have "refs (core d) c > 0 \<longleftrightarrow> op_count (s_ops (strands d c)) > 0 \<or>
      (\<exists>i. Release c \<in> set (code (core d) i))"
    using refs n by simp
  then show ?thesis using L pool_invD(6,9) [OF I] by (auto simp: no_leak_def)
qed

text \<open>C24: Memory is exact under any number of workers: as long as nothing went wrong a connection is in
  memory exactly while an operation of it is outstanding, a thread holds a shared pointer to it, or a
  thread is running its destructor; so none is lost and none is freed too early.\<close>

theorem crew_no_leak:
  assumes "crew_reachable N bye d" and "fault (core d) = None"
  shows "c \<in> store (core d) \<longleftrightarrow> op_count (s_ops (strands d c)) > 0 \<or>
    (\<exists>i. Release c \<in> set (code (core d) i) \<or> Free c \<in> set (code (core d) i))"
  by (rule crew_memory [OF assms])

theorem crew_no_leak_witness: "\<exists>d. crew_reachable 2 goodbye d \<and> ann \<in> store (core d)"
proof -
  obtain d where d: "crew_reachable 2 goodbye d" "fault (core d) = None"
    "code (core d) 0 = [Release ann, Unlock_Shared, Start ann, Release ann, Leave_Strand ann]"
    by (rule ann_crew)
  have "Release ann \<in> set (code (core d) 0)" by (simp add: d(3))
  then show ?thesis using crew_no_leak [OF d(1,2), of ann] d(1) by blast
qed

lemma some_completion:
  assumes "op_count q > 0"
  shows "\<exists>h. completion_conn h = c \<and> outstanding h q"
proof -
  from assms consider "outstanding (Accept_Failed c) q" | "outstanding (Read_Failed c) q"
    | "outstanding (Write_Failed c) q" | "outstanding (Run_Post c) q"
    by (auto simp: op_count_def)
  then show ?thesis using completion_conn.simps by cases metis+
qed

text \<open>C17: The program does not get stuck: with at least one worker, as long as a connection exists and
  nothing went wrong, some thread can make a step or begin the handler of an outstanding operation;
  neither the mutex nor the strands can make all of them wait.\<close>

theorem crew_progress:
  assumes "crew_reachable N bye d" and "fault (core d) = None" and "N > 0" and "c \<in> store (core d)"
  shows "\<exists>e d'. crew_step N bye d e d' \<and> (\<forall>b. e \<noteq> C_New b)"
proof -
  have I: "pool_inv N (core d)" and D: "data_inv d" and S: "strand_inv N (core d)"
    and m: "\<not> misuse d" and F: "finite (client_set (core d))"
    using crew_facts(1) [OF assms(1)] assms(2) by (auto simp: crew_inv_def workers_inv_def)
  show ?thesis
  proof (cases "\<exists>i. code (core d) i \<noteq> []")
    case True
    then obtain i where "code (core d) i \<noteq> []" by blast
    from some_thread_runs [OF I F this] obtain j cs where "crew_enabled N (C_Step j cs) d" by auto
    then show ?thesis using crew_stepI [OF assms(2) m] by blast
  next
    case False
    then have "op_count (s_ops (strands d c)) > 0" using crew_memory [OF assms(1,2)] assms(4) by simp
    then obtain h where "completion_conn h = c" "outstanding h (s_ops (strands d c))"
      using some_completion by blast
    moreover have "c \<notin> busy (core d)"
      using strand_invD(1) [OF S, of c] False by (auto simp: total_def split: if_splits)
    ultimately have "crew_enabled N (C_Begin 0 h) d" using False assms(3) by simp
    then show ?thesis using crew_stepI [OF assms(2) m] by blast
  qed
qed

theorem crew_progress_witness: "\<exists>d e d'. code (core d) 1 = [] \<and> crew_step 2 goodbye d e d'"
proof -
  obtain d where d: "crew_reachable 2 goodbye d" "fault (core d) = None" "store (core d) = {ann}"
    "code (core d) 1 = []" by (rule ann_crew)
  then show ?thesis using crew_progress [OF d(1,2), of ann] by auto
qed

section \<open>Two clients that join at the same time\<close>

text \<open>Neither is told of the other; both are members when the threads are idle again.\<close>

definition crew_blind :: "crew_event list" where
  "crew_blind = [C_New ann, C_New ben, C_Begin 0 (Accept_Ok ann ''ann''), C_Begin 1 (Accept_Ok ben ''ben'')] @
     crew_steps 0 4 [] @ crew_steps 1 4 [] @ crew_steps 0 6 [] @ crew_steps 1 6 []"

lemma crew_blind_run:
  "map_option (\<lambda>d. (fault (core d), code (core d) 0, code (core d) 1, client_set (core d), store (core d)))
     (crew_run 2 goodbye crew_blind crew0) = Some (None, [], [], {ann, ben}, {ann, ben})"
  by code_simp

end
