(* ===== verification/Hearing.thy ===== *)
theory Hearing
  imports Crew_Safety
begin

text \<open>
  Who hears what when several workers run. A handler that broadcasts owes its text to every member; a
  destructor owes the disconnect message. What is owed is followed through the code of the threads:
  it is paid, or the member it is owed to is being destroyed.
\<close>

section \<open>What the code of a thread still owes\<close>

definition due :: "conn \<Rightarrow> string \<Rightarrow> instr list \<Rightarrow> bool" where
  "due e s k \<longleftrightarrow> Loop s \<in> set k \<or> Visit s e \<in> set k \<or> Send e s \<in> set k"

lemma due_simps [simp]:
  "\<not> due e s []" "due e s (k @ l) \<longleftrightarrow> due e s k \<or> due e s l"
  "due e s (x # k) \<longleftrightarrow> x = Loop s \<or> x = Visit s e \<or> x = Send e s \<or> due e s k"
  by (auto simp: due_def)

lemma due_visits: "e \<in> set cs \<Longrightarrow> due e s (map (Visit s) cs)"
  by (simp add: due_def)

lemma due_server [simp]: "due e s (broadcast_code s)" "due e s (destructor_code c s)"
  by (simp_all add: broadcast_code_def disconnect_code_def destructor_code_def)

text \<open>\<open>e\<close> has heard \<open>s\<close> since it had been sent \<open>n\<close> texts.\<close>

definition heard_since :: "nat \<Rightarrow> string \<Rightarrow> conn \<Rightarrow> pool \<Rightarrow> bool" where
  "heard_since n s e p \<longleftrightarrow> s \<in> set (drop n (outbox p e))"

text \<open>What a step does to what is sent to \<open>e\<close>, as long as \<open>e\<close> is in memory.\<close>

lemma pool_exec_outbox:
  assumes "pool_enabled N f p" and "e \<in> store p"
  shows "\<exists>ts. outbox (pool_exec bye f p) e = outbox p e @ ts"
proof (cases f)
  case (Step i cs)
  then obtain x k where "code p i = x # k" using assms(1) by (auto split: list.splits)
  then show ?thesis using Step by (cases x) auto
qed (use assms in auto)

lemma pool_exec_dead:
  assumes "pool_enabled N f p" and "e \<in> store p" and "refs p e = 0"
  shows "refs (pool_exec bye f p) e = 0"
proof (cases f)
  case (Step i cs)
  then obtain x k where "code p i = x # k" using assms(1) by (auto split: list.splits)
  then show ?thesis using Step assms(3) by (cases x) auto
qed (use assms in auto)

text \<open>A busy thread goes on by its own steps only.\<close>

lemma other_code:
  assumes "pool_enabled N f p" and "code p i \<noteq> []" and "\<nexists>cs. f = Step i cs"
  shows "code (pool_exec bye f p) i = code p i"
proof (cases f)
  case (Step j cs)
  then obtain x k where "code p j = x # k" using assms(1) by (auto split: list.splits)
  then show ?thesis using assms(3) Step by (cases x) auto
qed (use assms(1,2) in \<open>auto split: if_splits\<close>)

lemma heard_step:
  "pool_enabled N f p \<Longrightarrow> e \<in> store p \<Longrightarrow> heard_since n s e p \<Longrightarrow> heard_since n s e (pool_exec bye f p)"
  using pool_exec_outbox [of N f p e bye] by (auto simp: heard_since_def)

text \<open>
  One instruction of a thread whose code is \<open>x # a\<close>, followed by anything: what it owes to the member \<open>e\<close>
  is still owed by what became of \<open>a\<close>, or is paid, or \<open>e\<close> is gone.
\<close>

lemma due_step:
  assumes "due e s (x # a)" and "e \<in> client_set p" and "n \<le> length (outbox p e)"
    and "loop_order x cs p" and q_def: "q = instr_step bye i cs x (a @ b) p"
  shows "refs q e = 0 \<or> heard_since n s e q \<or> fault q \<noteq> None \<or> (\<exists>a'. code q i = a' @ b \<and> due e s a')"
proof -
  have tail: "?thesis" if "code q i = a' @ a @ b" "due e s a' \<or> due e s a" for a'
    using that by (intro disjI2 exI [of _ "a' @ a"]) auto
  show ?thesis
  proof (cases x)
    case (Send c t)
    then show ?thesis
      using assms by (auto simp: q_def heard_since_def)
  next
    case (Loop t)
    have "e \<in> set cs" using assms(2,4) Loop by (simp add: loop_order_def)
    then show ?thesis
      using Loop assms(1) due_visits by (intro tail [of "map (Visit t) cs"]) (auto simp: q_def)
  next
    case (Visit t c)
    show ?thesis
    proof (cases "c \<in> store p \<and> refs p c \<noteq> 0")
      case True
      then show ?thesis
        using Visit assms(1) by (intro tail [of "[Send c t, Release c]"]) (auto simp: q_def)
    next
      case False
      then show ?thesis
        using Visit assms(1) tail [of "[]"] by (auto simp: q_def)
    qed
  next
    case (Release c)
    show ?thesis
    proof (cases "refs p c = 0")
      case False
      then show ?thesis
        using Release assms(1)
        by (intro tail [of "if refs p c = 1 then destructor_code c (bye c) else []"]) (auto simp: q_def)
    qed (use Release in \<open>simp add: q_def\<close>)
  qed (use assms(1) tail [of "[]"] in \<open>auto simp: q_def split: if_splits\<close>)
qed

section \<open>Facts that hold while somebody is a member\<close>

fun member_during :: "(conn \<Rightarrow> string) \<Rightarrow> conn \<Rightarrow> crew_event list \<Rightarrow> crew \<Rightarrow> bool" where
  "member_during bye e [] d \<longleftrightarrow> e \<in> client_set (core d)"
| "member_during bye e (f # fs) d \<longleftrightarrow>
     e \<in> client_set (core d) \<and> member_during bye e fs (crew_exec bye f d)"

text \<open>
  \<open>K\<close> is a fact about the pool that its steps keep as long as \<open>e\<close> is in the set; then it is kept by runs
  during which \<open>e\<close> is a member.
\<close>

locale carried =
  fixes N :: nat and bye :: "conn \<Rightarrow> string" and e :: conn and K :: "pool \<Rightarrow> bool"
  assumes keep: "pool_inv N p \<Longrightarrow> pool_enabled N f p \<Longrightarrow> e \<in> client_set p \<Longrightarrow>
    fault (pool_exec bye f p) = None \<Longrightarrow> K p \<Longrightarrow> K (pool_exec bye f p)"
begin

lemma carried_run:
  assumes "crew_inv N d" and "crew_run N bye fs d = Some d'" and "member_during bye e fs d"
    and "fault (core d') = None" and "K (core d)"
  shows "K (core d')"
  using assms
proof (induction fs arbitrary: d)
  case Nil
  then show ?case by simp
next
  case (Cons f fs)
  let ?d = "crew_exec bye f d"
  have st: "crew_step N bye d f ?d" and r: "crew_run N bye fs ?d = Some d'"
    using Cons.prems(2) by (auto simp: crew_step_iff split: if_splits)
  have ps: "pool_step N bye (core d) (core_event f d) (core ?d)"
    by (rule crew_step_pool [OF Cons.prems(1) st])
  have "fault (core ?d) = None"
    using r Cons.prems(4) by (cases fs) (auto split: if_splits)
  moreover have "fault (core d) = None" using st by (simp add: crew_step_iff)
  then have "pool_inv N (core d)" using Cons.prems(1) by (simp add: crew_inv_def workers_inv_def)
  ultimately have "K (core ?d)"
    using keep [of "core d" "core_event f d"] ps Cons.prems(3,5) by (simp add: pool_step_iff)
  then show ?case using Cons.IH [OF crew_step_inv [OF Cons.prems(1) st] r] Cons.prems(3,4) by simp
qed

end

section \<open>What a handler says\<close>

text \<open>
  A thread that has to tell everybody \<open>s\<close> before it leaves the strand of \<open>c\<close>.
\<close>

definition telling :: "nat \<Rightarrow> conn \<Rightarrow> string \<Rightarrow> conn \<Rightarrow> nat \<Rightarrow> pool \<Rightarrow> bool" where
  "telling i c s e n p \<longleftrightarrow> n \<le> length (outbox p e) \<and> (refs p e = 0 \<or> heard_since n s e p \<or>
     (\<exists>a. code p i = a @ [Leave_Strand c] \<and> due e s a))"

lemma telling_keep:
  assumes I: "pool_inv N p" and en: "pool_enabled N f p" and e: "e \<in> client_set p"
    and ok: "fault (pool_exec bye f p) = None" and t: "telling i c s e n p"
  shows "telling i c s e n (pool_exec bye f p)"
proof -
  have m: "e \<in> store p" using e pool_invD(11) [OF I] by auto
  obtain ts where o: "outbox (pool_exec bye f p) e = outbox p e @ ts"
    using pool_exec_outbox [OF en m] by blast
  have n: "n \<le> length (outbox p e)" using t by (simp add: telling_def)
  from t consider "refs p e = 0" | "heard_since n s e p"
    | a where "code p i = a @ [Leave_Strand c]" "due e s a" by (auto simp: telling_def)
  then show ?thesis
  proof cases
    case 1
    then show ?thesis using pool_exec_dead [OF en m] n o by (simp add: telling_def)
  next
    case 2
    then show ?thesis using heard_step [OF en m] n o by (simp add: telling_def)
  next
    case (3 a)
    show ?thesis
    proof (cases "\<exists>cs. f = Step i cs")
      case True
      then obtain cs where f: "f = Step i cs" by blast
      obtain x k where a: "a = x # k" using 3(2) by (cases a) auto
      have "loop_order x cs p" using en f 3(1) a by simp
      from due_step [OF 3(2) [unfolded a] e n this refl, of bye i "[Leave_Strand c]"]
      show ?thesis using ok n o f 3(1) a by (auto simp: telling_def)
    next
      case False
      have "code (pool_exec bye f p) i = code p i" using other_code [OF en _ False] 3(1) by simp
      then show ?thesis using 3 n o by (auto simp: telling_def)
    qed
  qed
qed

interpretation telling: carried N bye e "telling i c s e n"
  for N :: nat and bye :: "conn \<Rightarrow> string" and i c s e n
  by unfold_locales (rule telling_keep)

section \<open>What a destructor says\<close>

text \<open>The object \<open>c\<close> cannot go without \<open>e\<close> having heard its disconnect message.\<close>

definition parting_due :: "(conn \<Rightarrow> string) \<Rightarrow> conn \<Rightarrow> conn \<Rightarrow> nat \<Rightarrow> pool \<Rightarrow> bool" where
  "parting_due bye c e n p \<longleftrightarrow> n \<le> length (outbox p e) \<and> (refs p e = 0 \<or> heard_since n (bye c) e p \<or>
     refs p c > 0 \<or> (\<exists>i a b. code p i = a @ Free c # b \<and> due e (bye c) a))"

lemma parting_keep:
  assumes I: "pool_inv N p" and en: "pool_enabled N f p" and e: "e \<in> client_set p"
    and ok: "fault (pool_exec bye f p) = None" and t: "parting_due bye c e n p"
  shows "parting_due bye c e n (pool_exec bye f p)"
proof -
  let ?q = "pool_exec bye f p"
  have m: "e \<in> store p" using e pool_invD(11) [OF I] by auto
  obtain ts where o: "outbox ?q e = outbox p e @ ts" using pool_exec_outbox [OF en m] by blast
  have n: "n \<le> length (outbox p e)" using t by (simp add: parting_due_def)
  from t consider "refs p e = 0" | "heard_since n (bye c) e p" | "refs p c > 0"
    | i a b where "code p i = a @ Free c # b" "due e (bye c) a" by (auto simp: parting_due_def)
  then show ?thesis
  proof cases
    case 1
    then show ?thesis using pool_exec_dead [OF en m] n o by (simp add: parting_due_def)
  next
    case 2
    then show ?thesis using heard_step [OF en m] n o by (simp add: parting_due_def)
  next
    case 3
    have "refs ?q c > 0 \<or> (\<exists>i a b. code ?q i = a @ Free c # b \<and> due e (bye c) a)"
    proof (cases f)
      case (Step i cs)
      then obtain x k where x: "code p i = x # k" using en by (auto split: list.splits)
      show ?thesis
      proof (cases "x = Release c \<and> refs p c = 1")
        case True
        then have "code ?q i = (broadcast_code (bye c) @ [Lock_Exclusive, Erase c, Unlock_Exclusive]) @ Free c # k"
          using x Step by (simp add: destructor_code_def disconnect_code_def)
        then show ?thesis by (metis due_simps(2) due_server(1))
      next
        case False
        then show ?thesis using 3 x Step by (cases x) auto
      qed
    qed (use 3 en in auto)
    then show ?thesis using n o by (auto simp: parting_due_def)
  next
    case (4 i a b)
    show ?thesis
    proof (cases "\<exists>cs. f = Step i cs")
      case True
      then obtain cs where f: "f = Step i cs" by blast
      obtain x k where a: "a = x # k" using 4(2) by (cases a) auto
      have "loop_order x cs p" using en f 4(1) a by simp
      from due_step [OF 4(2) [unfolded a] e n this refl, of bye i "Free c # b"]
      show ?thesis using ok n o f 4(1) a by (auto simp: parting_due_def)
    next
      case False
      have "code (pool_exec bye f p) i = code p i" using other_code [OF en _ False] 4(1) by simp
      then show ?thesis using 4 n o by (auto simp: parting_due_def)
    qed
  qed
qed

interpretation parting: carried N bye e "parting_due bye c e n"
  for N :: nat and bye :: "conn \<Rightarrow> string" and c e n
  by unfold_locales (rule parting_keep)

section \<open>Nobody joins twice\<close>

text \<open>
  A connection is waiting for its handshake, or about to be inserted by one thread, or a member, or none
  of these, but never two of them.
\<close>

definition inserts :: "nat \<Rightarrow> crew \<Rightarrow> conn \<Rightarrow> nat" where
  "inserts N d e = total N (core d) (Insert e)"

definition join_once :: "nat \<Rightarrow> crew \<Rightarrow> bool" where
  "join_once N d \<longleftrightarrow> (\<forall>e. accepts (s_ops (strands d e)) + inserts N d e +
     (if e \<in> client_set (core d) then 1 else 0) \<le> 1)"

lemma insert_handler:
  "outstanding h (s_ops x) \<Longrightarrow> count_list (work_code (handler_work h q)) (Insert e) +
     (if e = completion_conn h then accepts (s_ops (handler_data h x)) else a) \<le>
   (if e = completion_conn h then accepts (s_ops x) else a)"
  by (cases h) (auto simp: connect_code_def broadcast_code_def)

lemma inserts_step:
  assumes "code p i = x # k" and "fault (instr_step bye i cs x k p) = None"
  shows "count_list (code (instr_step bye i cs x k p) i) (Insert e) +
      (if e \<in> client_set (instr_step bye i cs x k p) then 1 else 0) \<le>
    count_list (x # k) (Insert e) + (if e \<in> client_set p then 1 else 0)"
proof (cases x)
  case (Loop s)
  have "count_list (map (Visit s) cs) (Insert e) = 0" by (induction cs) auto
  then show ?thesis using Loop by simp
qed (use assms in \<open>auto simp: destructor_code_def disconnect_code_def broadcast_code_def\<close>)

lemma accepts_instr: "accepts (s_ops (instr_data j x p D e)) = accepts (s_ops (D e))"
  by (cases x; cases j) auto

lemma join_once_step:
  assumes I: "crew_inv N d" and J: "join_once N d" and st: "crew_step N bye d f d'"
    and ok: "fault (core d') = None"
  shows "join_once N d'"
proof -
  from st have f: "fault (core d) = None" and e: "crew_enabled N f d" and d': "d' = crew_exec bye f d"
    by (auto simp: crew_step_iff)
  have P: "pool_inv N (core d)" using I f by (simp add: crew_inv_def workers_inv_def)
  have J: "accepts (s_ops (strands d c)) + inserts N d c + (if c \<in> client_set (core d) then 1 else 0) \<le> 1" for c
    using J by (simp add: join_once_def)
  show ?thesis
    unfolding join_once_def
  proof
    fix c
    show "accepts (s_ops (strands d' c)) + inserts N d' c + (if c \<in> client_set (core d') then 1 else 0) \<le> 1"
    proof (cases f)
      case (C_New b)
      have "inserts N d b = 0" if "b \<notin> store (core d)"
      proof (rule ccontr)
        assume "inserts N d b \<noteq> 0"
        then obtain i where i: "i < N" "Insert b \<in> set (code (core d) i)"
          using total_pos [of N "core d" "Insert b"] by (auto simp: inserts_def)
        then have "Release b \<in> set (code (core d) i)" using owned_in(1) pool_invD(2) [OF P] by blast
        then show False using held [OF P i(1)] pool_invD(6) [OF P] that by blast
      qed
      then show ?thesis
        using C_New e d' J [of c] pool_invD(11) [OF P] by (auto simp: inserts_def total_def new_strand_def)
    next
      case (C_Begin i h)
      let ?k = "work_code (handler_work h (s_queue (strands d (completion_conn h))))"
      have i: "i < N" "code (core d) i = []" "outstanding h (s_ops (strands d (completion_conn h)))"
        using e C_Begin by auto
      have "code (core d') = (code (core d))(i := ?k)" using C_Begin d' by (simp add: Let_def)
      from total_update [OF i(1) this, of "Insert c"]
      have n: "inserts N d' c = inserts N d c + count_list ?k (Insert c)" using i(2) by (simp add: inserts_def)
      have cl: "client_set (core d') = client_set (core d)" using C_Begin d' by (simp add: Let_def)
      have s: "strands d' c = (if c = completion_conn h then handler_data h (strands d c) else strands d c)"
        using C_Begin d' by (simp add: Let_def)
      have a: "accepts (s_ops (strands d' c)) + count_list ?k (Insert c) \<le> accepts (s_ops (strands d c))"
        using insert_handler [OF i(3), of "s_queue (strands d (completion_conn h))" c
            "accepts (s_ops (strands d c))"] unfolding s
        by (cases "c = completion_conn h") simp_all
      show ?thesis using J [of c] a unfolding n cl by linarith
    next
      case (C_Step i cs)
      then obtain x k where x: "code (core d) i = x # k" and i: "i < N"
        using e by (auto split: list.splits)
      have q: "core d' = instr_step bye i cs x k (core d)"
        "strands d' = instr_data (job d i) x (core d) (strands d)" using C_Step x d' by simp_all
      have u: "code (core d') = (code (core d))(i := code (core d') i)"
        unfolding q(1) by (cases x) (auto simp: fun_upd_idem_iff)
      have "inserts N d' c + count_list (x # k) (Insert c) =
          inserts N d c + count_list (code (core d') i) (Insert c)"
        using total_update [OF i u, of "Insert c"] x by (simp add: inserts_def)
      moreover have "count_list (code (core d') i) (Insert c) +
          (if c \<in> client_set (core d') then 1 else 0) \<le>
          count_list (x # k) (Insert c) + (if c \<in> client_set (core d) then 1 else 0)"
        using inserts_step [OF x, of bye cs c] ok unfolding q(1) by blast
      moreover have "accepts (s_ops (strands d' c)) = accepts (s_ops (strands d c))"
        using accepts_instr q(2) by simp
      ultimately show ?thesis using J [of c] by linarith
    qed
  qed
qed

interpretation joins: invariant_system "\<lambda>d. d = crew0" "crew_step N bye"
  "\<lambda>d. crew_inv N d \<and> (fault (core d) = None \<longrightarrow> join_once N d)" for N :: nat and bye :: "conn \<Rightarrow> string"
proof
  fix d f d'
  show "d = crew0 \<Longrightarrow> crew_inv N d \<and> (fault (core d) = None \<longrightarrow> join_once N d)"
    using crew_inv0 by (auto simp: join_once_def inserts_def total_def crew0_def pool0_def)
  assume "crew_inv N d \<and> (fault (core d) = None \<longrightarrow> join_once N d)" and "crew_step N bye d f d'"
  then show "crew_inv N d' \<and> (fault (core d') = None \<longrightarrow> join_once N d')"
    using crew_step_inv join_once_step by (auto simp: crew_step_iff)
qed

section \<open>Nobody hears twice\<close>

text \<open>
  How often the code sends \<open>s\<close> to \<open>e\<close>. A loop of the thread that will insert \<open>e\<close> does not visit it.
\<close>

fun owed :: "conn \<Rightarrow> string \<Rightarrow> instr list \<Rightarrow> nat" where
  "owed e s [] = 0"
| "owed e s (Send c t # k) = (if c = e \<and> t = s then 1 else 0) + owed e s k"
| "owed e s (Visit t c # k) = (if c = e \<and> t = s then 1 else 0) + owed e s k"
| "owed e s (Loop t # k) = (if t = s \<and> Insert e \<notin> set k then 1 else 0) + owed e s k"
| "owed e s (_ # k) = owed e s k"

definition all_owed :: "nat \<Rightarrow> conn \<Rightarrow> string \<Rightarrow> pool \<Rightarrow> nat" where
  "all_owed N e s p = count_list (outbox p e) s + (\<Sum>i<N. owed e s (code p i))"

lemma owed_visits:
  "distinct cs \<Longrightarrow> owed e s (map (Visit t) cs @ k) = (if e \<in> set cs \<and> t = s then 1 else 0) + owed e s k"
  by (induction cs) auto

lemma owed_destructor: "bye \<noteq> s \<Longrightarrow> owed e s (destructor_code c bye @ k) = owed e s k"
  by (simp add: destructor_code_def disconnect_code_def broadcast_code_def)

text \<open>The text a completion will send, and what its handler owes.\<close>

fun completion_text :: "completion \<Rightarrow> string option" where
  "completion_text (Accept_Ok c s) = Some s"
| "completion_text (Read_Good c s) = Some s"
| "completion_text (Read_Bad c s) = Some s"
| "completion_text _ = None"

lemma owed_handler:
  "owed e s (work_code (handler_work h q)) \<le> (if completion_text h = Some s then 1 else 0)"
  by (cases h) (auto simp: connect_code_def broadcast_code_def)

lemma owed_instr:
  assumes "distinct cs \<or> (\<forall>t. x \<noteq> Loop t)" and "\<And>t. x = Loop t \<Longrightarrow> set cs = client_set p"
    and "Insert e \<in> set k \<Longrightarrow> e \<notin> client_set p" and "\<And>c. bye c \<noteq> s" and "code p i = x # k"
    and "fault (instr_step bye i cs x k p) = None"
  shows "count_list (outbox (instr_step bye i cs x k p) e) s + owed e s (code (instr_step bye i cs x k p) i) \<le>
    count_list (outbox p e) s + owed e s (x # k)"
proof (cases x)
  case (Loop t)
  then show ?thesis using assms(1-3) owed_visits [of cs e s t k] by auto
qed (use assms(4-6) owed_destructor in \<open>auto split: if_splits\<close>)

fun event_text :: "crew_event \<Rightarrow> string option" where
  "event_text (C_Begin i h) = completion_text h"
| "event_text _ = None"

lemma all_owed_step:
  assumes J: "join_once N d" and st: "crew_step N bye d f d'" and ok: "fault (core d') = None"
    and s: "s \<notin> range bye"
  shows "all_owed N e s (core d') \<le> all_owed N e s (core d) + (if event_text f = Some s then 1 else 0)"
proof -
  from st have en: "crew_enabled N f d" and d': "d' = crew_exec bye f d" by (auto simp: crew_step_iff)
  show ?thesis
  proof (cases f)
    case (C_New c)
    then show ?thesis using d' by (simp add: all_owed_def)
  next
    case (C_Begin i h)
    let ?k = "work_code (handler_work h (s_queue (strands d (completion_conn h))))"
    have i: "i < N" "code (core d) i = []" using en C_Begin by auto
    have c: "code (core d') = (code (core d))(i := ?k)" "outbox (core d') = outbox (core d)"
      using C_Begin d' by (simp_all add: Let_def)
    have "(\<Sum>j<N. owed e s (code (core d') j)) = (\<Sum>j<N. owed e s (code (core d) j)) + owed e s ?k"
      unfolding c using sum_update [OF i(1), of "owed e s" "code (core d)" ?k] i(2) by simp
    then show ?thesis
      using owed_handler [of e s h] C_Begin c(2) by (simp add: all_owed_def)
  next
    case (C_Step i cs)
    then obtain x k where x: "code (core d) i = x # k" and i: "i < N" and l: "loop_order x cs (core d)"
      using en by (auto split: list.splits)
    have q: "core d' = instr_step bye i cs x k (core d)" using C_Step x d' by simp
    have u: "code (core d') = (code (core d))(i := code (core d') i)"
      unfolding q by (cases x) (auto simp: fun_upd_idem_iff)
    have "e \<notin> client_set (core d)" if "Insert e \<in> set k"
    proof -
      have "0 < inserts N d e" unfolding inserts_def by (rule total_in [OF i]) (simp add: x that)
      moreover have "inserts N d e + (if e \<in> client_set (core d) then 1 else 0) \<le> 1"
        using J [unfolded join_once_def, rule_format, of e] by linarith
      ultimately show ?thesis by (simp split: if_splits)
    qed
    moreover have "distinct cs \<or> (\<forall>t. x \<noteq> Loop t)" "\<And>t. x = Loop t \<Longrightarrow> set cs = client_set (core d)"
      using l by (cases x; simp add: loop_order_def)+
    ultimately have "count_list (outbox (core d') e) s + owed e s (code (core d') i) \<le>
        count_list (outbox (core d) e) s + owed e s (x # k)"
      unfolding q using s ok [unfolded q] x by (intro owed_instr) auto
    moreover have "(\<Sum>j<N. owed e s (code (core d') j)) + owed e s (x # k) =
        (\<Sum>j<N. owed e s (code (core d) j)) + owed e s (code (core d') i)"
      using sum_update [OF i, of "owed e s" "code (core d)" "code (core d') i"] x u by simp
    ultimately show ?thesis by (simp add: all_owed_def)
  qed
qed

lemma crew_run_snoc:
  "crew_run N bye (fs @ [f]) d = Some d' \<longleftrightarrow>
     (\<exists>c. crew_run N bye fs d = Some c \<and> crew_step N bye c f d')"
  by (induction fs arbitrary: d) (auto simp: crew_step_iff)

text \<open>So a text is sent to a connection at most once for each completion that brought it.\<close>

lemma all_owed_run:
  assumes "crew_run N bye fs crew0 = Some d" and "fault (core d) = None" and s: "s \<notin> range bye"
  shows "all_owed N e s (core d) \<le> length (filter (\<lambda>f. event_text f = Some s) fs)"
  using assms(1,2)
proof (induction fs arbitrary: d rule: rev_induct)
  case Nil
  then show ?case by (auto simp: all_owed_def crew0_def pool0_def)
next
  case (snoc f fs)
  then obtain c where c: "crew_run N bye fs crew0 = Some c" "crew_step N bye c f d"
    by (auto simp: crew_run_snoc)
  have ok: "fault (core c) = None" using c(2) by (simp add: crew_step_iff)
  have "crew_reachable N bye c" by (rule crew_run_reachable [OF c(1) reach_init]) simp
  then have "join_once N c" using joins.reach_inv ok by blast
  from all_owed_step [OF this c(2) snoc.prems(2) s, of e] show ?case
    using snoc.IH [OF c(1) ok] by auto
qed

section \<open>Runs during which somebody is a member\<close>

interpretation grows: carried N bye e "\<lambda>p. \<exists>ts. outbox p e = o' @ ts"
  for N :: nat and bye :: "conn \<Rightarrow> string" and e o'
proof
  fix p f
  assume "pool_inv N p" "pool_enabled N f p" "e \<in> client_set p" "\<exists>ts. outbox p e = o' @ ts"
  then show "\<exists>ts. outbox (pool_exec bye f p) e = o' @ ts"
    using pool_exec_outbox [of N f p e bye] pool_invD(11) by fastforce
qed

interpretation gone: carried N bye e "\<lambda>p. refs p e = 0"
  for N :: nat and bye :: "conn \<Rightarrow> string" and e
proof
  fix p f
  assume "pool_inv N p" "pool_enabled N f p" "e \<in> client_set p" "refs p e = 0"
  then show "refs (pool_exec bye f p) e = 0"
    using pool_exec_dead [of N f p e bye] pool_invD(11) by blast
qed

lemma heard_growth:
  assumes "crew_inv N d" and "crew_run N bye fs d = Some d'" and "member_during bye e fs d"
    and "fault (core d') = None" and "heard_since (length (outbox (core d) e)) s e (core d')"
  shows "\<exists>ts. outbox (core d') e = outbox (core d) e @ ts \<and> s \<in> set ts"
  using grows.carried_run [OF assms(1-4), of "outbox (core d) e"] assms(5) by (auto simp: heard_since_def)

text \<open>The text that a handler broadcasts.\<close>

fun broadcast_of :: "completion \<Rightarrow> string option" where
  "broadcast_of (Accept_Ok c s) = Some s"
| "broadcast_of (Read_Good c s) = Some s"
| "broadcast_of _ = None"

lemma broadcast_ofD: "broadcast_of h = Some s \<Longrightarrow> completion_text h = Some s"
  by (cases h) auto

lemma broadcast_due:
  assumes "broadcast_of h = Some s"
  shows "\<exists>a. work_code (handler_work h q) = a @ [Leave_Strand (completion_conn h)] \<and> due e s a"
proof (cases h)
  case (Accept_Ok c t)
  then show ?thesis
    using assms by (intro exI [of _ "connect_code c t @ [Start c, Release c]"]) (auto simp: connect_code_def)
next
  case (Read_Good c t)
  then show ?thesis
    using assms by (intro exI [of _ "broadcast_code t @ [Start c, Release c]"]) auto
qed (use assms in auto)

text \<open>Once a handler has left its strand, everybody who was a member meanwhile has heard it.\<close>

lemma handler_heard:
  assumes r: "crew_reachable N bye d" and h: "broadcast_of h = Some s"
    and run: "crew_run N bye (C_Begin i h # fs) d = Some d'" and ok: "fault (core d') = None"
    and m: "member_during bye e (C_Begin i h # fs) d" and b: "completion_conn h \<notin> busy (core d')"
    and e: "refs (core d') e > 0"
  shows "\<exists>ts. outbox (core d') e = outbox (core d) e @ ts \<and> s \<in> set ts"
proof -
  let ?c = "completion_conn h" and ?d = "crew_exec bye (C_Begin i h) d"
  have I: "crew_inv N d" by (rule crew.reach_inv [OF r])
  have st: "crew_step N bye d (C_Begin i h) ?d" and r': "crew_run N bye fs ?d = Some d'"
    using run by (auto simp: crew_step_iff split: if_splits)
  have I': "crew_inv N ?d" by (rule crew_step_inv [OF I st])
  obtain a where "work_code (handler_work h (s_queue (strands d ?c))) = a @ [Leave_Strand ?c]" "due e s a"
    using broadcast_due [OF h] by blast
  then have "telling i ?c s e (length (outbox (core d) e)) (core ?d)"
    by (auto simp: telling_def Let_def)
  from telling.carried_run [OF I' r' _ ok this] m
  have t: "telling i ?c s e (length (outbox (core d) e)) (core d')" by simp
  have S: "strand_inv N (core d')"
    using run crew.reach_inv [OF crew_run_reachable [OF run r]] by (simp add: crew_inv_def)
  have "Leave_Strand ?c \<notin> set (code (core d') i)"
    using on_strand_busy [OF S, of i ?c] b by (auto simp: on_strand_def)
  then have "heard_since (length (outbox (core d) e)) s e (core d')"
    using t e by (auto simp: telling_def)
  from heard_growth [OF I run m ok this] show ?thesis .
qed

lemma destructor_heard:
  assumes r: "crew_reachable N bye d" and c: "refs (core d) c > 0"
    and run: "crew_run N bye fs d = Some d'" and ok: "fault (core d') = None"
    and m: "member_during bye e fs d" and g: "c \<notin> store (core d')" and e: "refs (core d') e > 0"
  shows "\<exists>ts. outbox (core d') e = outbox (core d) e @ ts \<and> bye c \<in> set ts"
proof -
  have I: "crew_inv N d" by (rule crew.reach_inv [OF r])
  have "pool_inv N (core d')"
    using crew.reach_inv [OF crew_run_reachable [OF run r]] ok by (simp add: crew_inv_def workers_inv_def)
  note P = pool_invD [OF this]
  have "parting_due bye c e (length (outbox (core d) e)) (core d)" using c by (simp add: parting_due_def)
  from parting.carried_run [OF I run m ok this]
  have "parting_due bye c e (length (outbox (core d) e)) (core d')" .
  moreover have "Free c \<notin> set (code (core d') i)" for i using g P(9) [of c i] by blast
  then have "code (core d') i \<noteq> a @ Free c # b" for i a b by (metis in_set_conv_decomp)
  ultimately have "heard_since (length (outbox (core d) e)) (bye c) e (core d')"
    using e g P(6) [of c] by (auto simp: parting_due_def)
  from heard_growth [OF I run m ok this] show ?thesis .
qed

end
