(* ===== verification/Hearing_Properties.thy ===== *)
theory Hearing_Properties
  imports Hearing Crew_Properties
begin

text \<open>
  What the members hear when several workers run: everything that is said while they are members,
  once, the messages of one client in the order it said them, every departure, and nothing else.
\<close>

section \<open>A run for the witnesses\<close>

text \<open>Ann and Ben join; Ann says hi on one thread and ho on the other; then Ben's read and write fail.\<close>

definition both_in :: "crew_event list" where
  "both_in = [C_New ann, C_Begin 0 (Accept_Ok ann ''ann'')] @ crew_steps 0 10 [] @
     [C_New ben, C_Begin 1 (Accept_Ok ben ''ben'')] @ crew_steps 1 13 [ann]"

definition ann_hi :: "crew_event list" where
  "ann_hi = crew_steps 0 12 [ann, ben]"

definition ann_ho :: "crew_event list" where
  "ann_ho = crew_steps 1 12 [ben, ann]"

definition ben_out :: "crew_event list" where
  "ben_out = [C_Begin 0 (Run_Post ben)] @ crew_steps 0 3 [] @ [C_Begin 0 (Read_Failed ben)] @ crew_steps 0 2 [] @
     [C_Begin 1 (Write_Failed ben)] @ crew_steps 1 13 [ben, ann]"

lemma both_in:
  "map_option (\<lambda>d. (fault (core d), refs (core d) ben, outbox (core d) ann, outbox (core d) ben))
     (crew_run 2 goodbye both_in crew0) = Some (None, 2, [''ann'', ''ben''], [''ben''])"
  by code_simp

lemma ann_hi:
  "map_option (\<lambda>d. (fault (core d), busy (core d), refs (core d) ben, outbox (core d) ben))
     (crew_run 2 goodbye (both_in @ C_Begin 0 (Read_Good ann ''hi'') # ann_hi) crew0) =
     Some (None, {}, 3, [''ben'', ''hi''])"
  "map_option (member_during goodbye ben (C_Begin 0 (Read_Good ann ''hi'') # ann_hi))
     (crew_run 2 goodbye both_in crew0) = Some True"
  by code_simp+

lemma ann_ho:
  "map_option (\<lambda>d. (fault (core d), busy (core d), refs (core d) ben, outbox (core d) ben))
     (crew_run 2 goodbye (both_in @ C_Begin 0 (Read_Good ann ''hi'') # ann_hi @
        C_Begin 1 (Read_Good ann ''ho'') # ann_ho) crew0) = Some (None, {}, 4, [''ben'', ''hi'', ''ho''])"
  "map_option (member_during goodbye ben (C_Begin 1 (Read_Good ann ''ho'') # ann_ho))
     (crew_run 2 goodbye (both_in @ C_Begin 0 (Read_Good ann ''hi'') # ann_hi) crew0) = Some True"
  by code_simp+

lemma ben_out:
  "map_option (\<lambda>d. (fault (core d), ben \<in> store (core d), refs (core d) ann, outbox (core d) ann))
     (crew_run 2 goodbye (both_in @ ben_out) crew0) = Some (None, False, 4, [''ann'', ''ben'', goodbye ben])"
  "map_option (member_during goodbye ann ben_out) (crew_run 2 goodbye both_in crew0) = Some True"
  by code_simp+

lemma both_in_run:
  obtains d where "crew_run 2 goodbye both_in crew0 = Some d" and "crew_reachable 2 goodbye d"
    and "refs (core d) ben = 2" and "outbox (core d) ann = [''ann'', ''ben'']" and "outbox (core d) ben = [''ben'']"
proof -
  obtain d where d: "crew_run 2 goodbye both_in crew0 = Some d"
    using both_in by (cases "crew_run 2 goodbye both_in crew0") auto
  have "crew_reachable 2 goodbye d" by (rule crew_run_reachable [OF d reach_init]) simp
  then show thesis using that d both_in by simp
qed

lemma ann_hi_run:
  obtains d d' where "crew_run 2 goodbye both_in crew0 = Some d" and "crew_reachable 2 goodbye d"
    and "crew_run 2 goodbye (C_Begin 0 (Read_Good ann ''hi'') # ann_hi) d = Some d'"
    and "member_during goodbye ben (C_Begin 0 (Read_Good ann ''hi'') # ann_hi) d"
    and "fault (core d') = None" and "busy (core d') = {}" and "refs (core d') ben = 3"
    and "outbox (core d) ben = [''ben'']" and "outbox (core d') ben = [''ben'', ''hi'']"
proof -
  obtain d where d: "crew_run 2 goodbye both_in crew0 = Some d" "crew_reachable 2 goodbye d"
    "outbox (core d) ben = [''ben'']" by (rule both_in_run)
  obtain d' where d': "crew_run 2 goodbye (C_Begin 0 (Read_Good ann ''hi'') # ann_hi) d = Some d'"
    using ann_hi(1) d(1) by (cases "crew_run 2 goodbye (C_Begin 0 (Read_Good ann ''hi'') # ann_hi) d")
      (simp_all add: crew_run_append del: crew_run.simps)
  then show thesis
    using that [OF d(1,2) d'] ann_hi d by (simp add: crew_run_append del: crew_run.simps member_during.simps)
qed

section \<open>What is heard\<close>

text \<open>C13: With any number of workers every message is heard exactly once: when the handler of a join or
  of a message is done, everybody who was a member all the while and still exists has been sent its
  text, after what it had been sent before; and if no other completion brought the same text, it was
  sent to it once, whatever else ran at the same time.\<close>

theorem heard_exactly_once:
  assumes "crew_run N bye es crew0 = Some d"
    and "crew_run N bye (C_Begin i h # fs) d = Some d'" and "broadcast_of h = Some s"
    and "member_during bye e (C_Begin i h # fs) d" and "completion_conn h \<notin> busy (core d')"
    and "refs (core d') e > 0" and "fault (core d') = None"
    and "s \<notin> range bye" and "\<forall>f \<in> set (es @ fs). event_text f \<noteq> Some s"
  shows "count_list (outbox (core d') e) s = 1 \<and>
    (\<exists>ts. outbox (core d') e = outbox (core d) e @ ts \<and> s \<in> set ts)"
proof -
  have r: "crew_reachable N bye d" by (rule crew_run_reachable [OF assms(1) reach_init]) simp
  note h = handler_heard [OF r assms(3,2,7,4-6)]
  then have "s \<in> set (outbox (core d') e)" by auto
  then have "count_list (outbox (core d') e) s \<noteq> 0" by (simp add: count_list_0_iff)
  moreover have "crew_run N bye (es @ C_Begin i h # fs) crew0 = Some d'"
    using assms(1,2) by (simp add: crew_run_append del: crew_run.simps)
  from all_owed_run [OF this assms(7,8), of e]
  have "count_list (outbox (core d') e) s \<le>
      length (filter (\<lambda>f. event_text f = Some s) (es @ C_Begin i h # fs))"
    by (simp add: all_owed_def)
  moreover have "length (filter (\<lambda>f. event_text f = Some s) (es @ C_Begin i h # fs)) = 1"
    using assms(9) broadcast_ofD [OF assms(3)] by (auto simp: filter_empty_conv)
  ultimately have "count_list (outbox (core d') e) s = 1" by arith
  then show ?thesis using h by blast
qed

theorem heard_exactly_once_witness:
  "\<exists>d'. crew_run 2 goodbye (C_Begin 0 (Read_Good ann ''hi'') # ann_hi)
      (the (crew_run 2 goodbye both_in crew0)) = Some d' \<and> count_list (outbox (core d') ben) ''hi'' = 1"
proof -
  obtain d d' where d: "crew_run 2 goodbye both_in crew0 = Some d"
    "crew_run 2 goodbye (C_Begin 0 (Read_Good ann ''hi'') # ann_hi) d = Some d'"
    "member_during goodbye ben (C_Begin 0 (Read_Good ann ''hi'') # ann_hi) d"
    "fault (core d') = None" "busy (core d') = {}" "refs (core d') ben = 3" by (rule ann_hi_run)
  have "''hi'' \<notin> range goodbye" by (auto simp: goodbye_def)
  moreover have "\<forall>f \<in> set (both_in @ ann_hi). event_text f \<noteq> Some ''hi''"
    by (simp add: both_in_def ann_hi_def crew_steps_def)
  ultimately show ?thesis
    using heard_exactly_once [OF d(1,2) _ d(3)] d by (simp del: crew_run.simps)
qed

text \<open>C15: The messages of one client are heard in the order it said them, on whatever threads they were
  handled: when a second message of a client is handled after a first, then everybody who was a
  member during both and still exists has been sent the first and, after it, the second.\<close>

theorem sender_order:
  assumes "crew_reachable N bye d" and "crew_run N bye (C_Begin i (Read_Good c s) # es) d = Some d1"
    and "crew_run N bye (C_Begin j (Read_Good c t) # fs) d1 = Some d2"
    and "member_during bye e (C_Begin i (Read_Good c s) # es) d"
    and "member_during bye e (C_Begin j (Read_Good c t) # fs) d1"
    and "c \<notin> busy (core d2)" and "refs (core d2) e > 0" and "fault (core d2) = None"
  shows "\<exists>xs ys. outbox (core d2) e = outbox (core d) e @ xs @ ys \<and> s \<in> set xs \<and> t \<in> set ys"
proof -
  have r1: "crew_reachable N bye d1" by (rule crew_run_reachable [OF assms(2,1)])
  have en: "fault (core d1) = None" "c \<notin> busy (core d1)" using assms(3) by (auto split: if_splits)
  have "refs (core d1) e > 0"
  proof (rule ccontr)
    assume "\<not> refs (core d1) e > 0"
    then have "refs (core d2) e = 0"
      using gone.carried_run [OF crew.reach_inv [OF r1] assms(3,5,8)] by simp
    then show False using assms(7) by simp
  qed
  then obtain xs where "outbox (core d1) e = outbox (core d) e @ xs" "s \<in> set xs"
    using handler_heard [OF assms(1) _ assms(2) en(1) assms(4)] en(2) by auto
  moreover obtain ys where "outbox (core d2) e = outbox (core d1) e @ ys" "t \<in> set ys"
    using handler_heard [OF r1 _ assms(3,8,5)] assms(6,7) by auto
  ultimately show ?thesis by auto
qed

theorem sender_order_witness:
  "\<exists>(d :: crew) (d2 :: crew). \<exists>xs ys. outbox (core d) ben = [''ben''] \<and> outbox (core d2) ben = [''ben'', ''hi'', ''ho''] \<and>
     outbox (core d2) ben = outbox (core d) ben @ xs @ ys \<and> ''hi'' \<in> set xs \<and> ''ho'' \<in> set ys"
proof -
  obtain d d1 where d: "crew_run 2 goodbye both_in crew0 = Some d" "crew_reachable 2 goodbye d"
    "crew_run 2 goodbye (C_Begin 0 (Read_Good ann ''hi'') # ann_hi) d = Some d1"
    "member_during goodbye ben (C_Begin 0 (Read_Good ann ''hi'') # ann_hi) d"
    "outbox (core d) ben = [''ben'']" by (rule ann_hi_run)
  have r: "crew_run 2 goodbye (both_in @ C_Begin 0 (Read_Good ann ''hi'') # ann_hi) crew0 = Some d1"
    using d(1,3) by (simp add: crew_run_append del: crew_run.simps)
  have "both_in @ C_Begin 0 (Read_Good ann ''hi'') # ann_hi @ C_Begin 1 (Read_Good ann ''ho'') # ann_ho =
      (both_in @ C_Begin 0 (Read_Good ann ''hi'') # ann_hi) @ C_Begin 1 (Read_Good ann ''ho'') # ann_ho" by simp
  then have e: "crew_run 2 goodbye (both_in @ C_Begin 0 (Read_Good ann ''hi'') # ann_hi @
      C_Begin 1 (Read_Good ann ''ho'') # ann_ho) crew0 =
      crew_run 2 goodbye (C_Begin 1 (Read_Good ann ''ho'') # ann_ho) d1"
    by (simp only: crew_run_append [of _ _ "both_in @ C_Begin 0 (Read_Good ann ''hi'') # ann_hi"] r bind.simps)
  obtain d2 where d2: "crew_run 2 goodbye (C_Begin 1 (Read_Good ann ''ho'') # ann_ho) d1 = Some d2"
    using ann_ho(1) unfolding e
    by (cases "crew_run 2 goodbye (C_Begin 1 (Read_Good ann ''ho'') # ann_ho) d1") (simp_all del: crew_run.simps)
  have "member_during goodbye ben (C_Begin 1 (Read_Good ann ''ho'') # ann_ho) d1"
    using ann_ho(2) unfolding r by simp
  moreover have f: "fault (core d2) = None" "busy (core d2) = {}" "refs (core d2) ben = 4"
    "outbox (core d2) ben = [''ben'', ''hi'', ''ho'']"
    using ann_ho(1) unfolding e d2 by simp_all
  ultimately obtain xs ys where "outbox (core d2) ben = outbox (core d) ben @ xs @ ys"
    "''hi'' \<in> set xs" "''ho'' \<in> set ys"
    using sender_order [OF d(2,3) d2 d(4)] by auto
  then show ?thesis using d(5) f(4) by blast
qed

text \<open>C14: Nobody leaves silently: under any number of workers, whenever the object of a connection that
  existed is gone from memory, everybody who was a member all the while and still exists has been sent
  its disconnect message.\<close>

theorem departure_heard:
  assumes "crew_reachable N bye d" and "refs (core d) c > 0" and "crew_run N bye fs d = Some d'"
    and "fault (core d') = None" and "member_during bye e fs d" and "c \<notin> store (core d')"
    and "refs (core d') e > 0"
  shows "\<exists>ts. outbox (core d') e = outbox (core d) e @ ts \<and> bye c \<in> set ts"
  by (rule destructor_heard [OF assms])

theorem departure_heard_witness:
  "\<exists>(d :: crew) (d' :: crew). ben \<notin> store (core d') \<and> (\<exists>ts. outbox (core d') ann = outbox (core d) ann @ ts \<and> goodbye ben \<in> set ts)"
proof -
  obtain d where d: "crew_run 2 goodbye both_in crew0 = Some d" "crew_reachable 2 goodbye d"
    "refs (core d) ben = 2" by (rule both_in_run)
  have e: "crew_run 2 goodbye (both_in @ ben_out) crew0 = crew_run 2 goodbye ben_out d"
    by (simp only: crew_run_append d(1) bind.simps)
  obtain d' where d': "crew_run 2 goodbye ben_out d = Some d'"
    using ben_out(1) unfolding e by (cases "crew_run 2 goodbye ben_out d") auto
  have f: "fault (core d') = None" "ben \<notin> store (core d')" "refs (core d') ann = 4"
    "member_during goodbye ann ben_out d"
    using ben_out unfolding e d' d(1) by simp_all
  show ?thesis using departure_heard [OF d(2) _ d' f(1,4,2)] d(3) f(2,3) by auto
qed

text \<open>Nothing is made up or repeated: in every interleaving a text is sent to a connection at most as
  often as completions brought it, disconnect messages apart; so whatever is sent to a connection, or
  reaches its socket, was brought by a join or a message or is a disconnect message.\<close>

lemma nothing_made_up:
  assumes "crew_run N bye es crew0 = Some d" and "fault (core d) = None"
  shows "(s \<notin> range bye \<longrightarrow> count_list (outbox (core d) e) s \<le> length (filter (\<lambda>f. event_text f = Some s) es)) \<and>
    (s \<in> set (outbox (core d) e) \<union> set (s_wire (strands d e)) \<longrightarrow>
      s \<in> range bye \<or> (\<exists>f \<in> set es. event_text f = Some s))"
proof -
  have "crew_reachable N bye d" by (rule crew_run_reachable [OF assms(1) reach_init]) simp
  then have "data_inv d" using crew_facts(1) by (simp add: crew_inv_def)
  then have w: "set (s_wire (strands d e)) \<subseteq> set (outbox (core d) e)"
    using data_invD [of d e] by (auto simp: conn_ok_def)
  have c: "count_list (outbox (core d) e) s \<le> length (filter (\<lambda>f. event_text f = Some s) es)"
    if "s \<notin> range bye" using all_owed_run [OF assms that, of e] by (simp add: all_owed_def)
  moreover have "\<exists>f \<in> set es. event_text f = Some s" if "s \<in> set (outbox (core d) e)" "s \<notin> range bye"
  proof -
    have "count_list (outbox (core d) e) s \<noteq> 0" using that(1) by (simp add: count_list_0_iff)
    then have "filter (\<lambda>f. event_text f = Some s) es \<noteq> []" using c [OF that(2)] by auto
    then show ?thesis by (auto simp: filter_empty_conv)
  qed
  ultimately show ?thesis using w by blast
qed

lemma nothing_made_up_instance:
  "map_option (\<lambda>d. count_list (outbox (core d) ann) ''ben'') (crew_run 2 goodbye both_in crew0) = Some 1 \<and>
   length (filter (\<lambda>f. event_text f = Some ''ben'') both_in) = 1 \<and>
   map_option (\<lambda>d. ''hi'' \<in> set (s_wire (strands d ann))) (crew_run 2 goodbye both_in crew0) = Some False"
proof -
  obtain d where d: "crew_run 2 goodbye both_in crew0 = Some d" "outbox (core d) ann = [''ann'', ''ben'']"
    by (rule both_in_run)
  have "length (filter (\<lambda>f. event_text f = Some ''ben'') both_in) = 1"
    and n: "\<forall>f \<in> set both_in. event_text f \<noteq> Some ''hi''"
    by (simp_all add: both_in_def crew_steps_def)
  moreover have "fault (core d) = None" using both_in d(1) by simp
  moreover have "''ben'' \<notin> range goodbye" "''hi'' \<notin> range goodbye" by (auto simp: goodbye_def)
  ultimately show ?thesis
    using nothing_made_up [OF d(1), of "''ben''" ann] nothing_made_up [OF d(1), of "''hi''" ann] d by auto
qed

end
