(* ===== verification/Stopping.thy ===== *)
theory Stopping
  imports Crew_Safety
begin

text \<open>
  The end of the threads. When the event loop is stopped no handler begins any more and \<open>main\<close> joins its
  threads, so it waits for the handlers that are running. They end: every instruction brings the
  threads nearer to it, although a broadcast and a destructor put new instructions before them.
\<close>

section \<open>What is left to do\<close>

text \<open>\<open>M\<close> bounds the number of members; a visit is three instructions when the pointer is not expired.\<close>

fun instr_weight :: "nat \<Rightarrow> instr \<Rightarrow> nat" where
  "instr_weight M (Loop s) = 1 + 3 * M"
| "instr_weight M (Visit s c) = 3"
| "instr_weight M _ = 1"

definition code_weight :: "nat \<Rightarrow> instr list \<Rightarrow> nat" where
  "code_weight M k = sum_list (map (instr_weight M) k)"

definition destructor_weight :: "nat \<Rightarrow> nat" where
  "destructor_weight M = 7 + 3 * M"

text \<open>Every connection that is owned may still be destroyed.\<close>

definition load_of :: "nat \<Rightarrow> nat \<Rightarrow> pool \<Rightarrow> nat" where
  "load_of N M p = card {c \<in> store p. refs p c > 0} * destructor_weight M +
     (\<Sum>i<N. code_weight M (code p i))"

definition stop_bound :: "nat \<Rightarrow> crew \<Rightarrow> nat" where
  "stop_bound N d = load_of N (card (store (core d))) (core d)"

definition all_joined :: "crew \<Rightarrow> bool" where
  "all_joined d \<longleftrightarrow> (\<forall>i. code (core d) i = [])"

lemma code_weight_simps [simp]:
  "code_weight M [] = 0" "code_weight M (x # k) = instr_weight M x + code_weight M k"
  "code_weight M (k @ l) = code_weight M k + code_weight M l"
  by (simp_all add: code_weight_def)

lemma code_weight_visits [simp]: "code_weight M (map (Visit s) cs) = 3 * length cs"
  by (induction cs) simp_all

lemma code_weight_destructor [simp]: "code_weight M (destructor_code c s) = destructor_weight M"
  by (simp add: destructor_code_def disconnect_code_def broadcast_code_def destructor_weight_def)

section \<open>Every instruction counts\<close>

text \<open>One instruction, by what becomes of the owned connections and of the code of its thread.\<close>

lemma instr_load:
  fixes p i cs x k bye
  defines "q \<equiv> instr_step bye i cs x k p"
  assumes x: "code p i = x # k" and ok: "fault q = None" "fault p = None" and f: "finite (store p)"
    and l: "loop_order x cs p" and M: "card (client_set p) \<le> M"
    and own: "\<And>c. refs p c > 0 \<Longrightarrow> c \<in> store p" "\<And>c. x = Free c \<Longrightarrow> refs p c = 0"
  shows "card {c \<in> store q. refs q c > 0} * destructor_weight M + Suc (code_weight M (code q i)) \<le>
    card {c \<in> store p. refs p c > 0} * destructor_weight M + code_weight M (x # k)"
proof -
  have same: "?thesis" if "{c \<in> store q. refs q c > 0} = {c \<in> store p. refs p c > 0}"
    "code_weight M (code q i) < code_weight M (x # k)" using that by simp
  show ?thesis
  proof (cases x)
    case (Release c)
    show ?thesis
    proof (cases "refs p c = 1")
      case True
      have "{c \<in> store q. refs q c > 0} = {c \<in> store p. refs p c > 0} - {c}"
        using Release True by (auto simp: q_def)
      moreover have "c \<in> {c \<in> store p. refs p c > 0}" using own(1) True by simp
      ultimately have "card {c \<in> store p. refs p c > 0} = Suc (card {c \<in> store q. refs q c > 0})"
        using f card_Suc_Diff1 [of "{c \<in> store p. refs p c > 0}" c] by simp
      moreover have "code_weight M (code q i) = destructor_weight M + code_weight M k"
        using Release True by (simp add: q_def)
      ultimately show ?thesis using Release by simp
    next
      case False
      then show ?thesis using Release ok by (intro same) (auto simp: q_def split: if_splits)
    qed
  next
    case (Loop s)
    then have "length cs \<le> M" using l M distinct_card [of cs] by (simp add: loop_order_def)
    then show ?thesis using Loop by (intro same) (auto simp: q_def)
  next
    case (Free c)
    then show ?thesis using own(2) [of c] by (intro same) (auto simp: q_def)
  next
    case (Send c s)
    then show ?thesis using ok by (intro same) (auto simp: q_def split: if_splits)
  next
    case (Start c)
    then show ?thesis using ok by (intro same) (auto simp: q_def split: if_splits)
  next
    case (Visit s c)
    then show ?thesis using ok by (intro same) (auto simp: q_def split: if_splits)
  qed (use ok in \<open>auto intro!: same simp: q_def split: if_splits\<close>)
qed

lemma step_load:
  assumes I: "pool_inv N p" and en: "pool_enabled N (Step i cs) p" and f: "fault p = None" "finite (store p)"
    and ok: "fault (pool_exec bye (Step i cs) p) = None" and M: "card (store p) \<le> M"
  shows "load_of N M (pool_exec bye (Step i cs) p) < load_of N M p"
    and "store (pool_exec bye (Step i cs) p) \<subseteq> store p"
proof -
  let ?q = "pool_exec bye (Step i cs) p"
  obtain x k where x: "code p i = x # k" and i: "i < N" and l: "loop_order x cs p"
    using en by (auto split: list.splits)
  have q: "?q = instr_step bye i cs x k p" by (simp add: x)
  have u: "code ?q = (code p)(i := code ?q i)"
    unfolding q by (cases x) (auto simp: x fun_upd_idem_iff)
  have "card (client_set p) \<le> M"
    using M card_mono [OF f(2) pool_invD(11) [OF I]] by simp
  moreover have "refs p c = 0" if "x = Free c" for c
    by (rule pool_invD(8) [OF I, of c i]) (simp add: x that)
  ultimately have "card {c \<in> store ?q. refs ?q c > 0} * destructor_weight M + Suc (code_weight M (code ?q i)) \<le>
      card {c \<in> store p. refs p c > 0} * destructor_weight M + code_weight M (x # k)"
    unfolding q using instr_load [OF x _ f(1,2) l] ok [unfolded q] pool_invD(6) [OF I] by blast
  moreover have "(\<Sum>j<N. code_weight M (code ?q j)) + code_weight M (x # k) =
      (\<Sum>j<N. code_weight M (code p j)) + code_weight M (code ?q i)"
    using sum_update [OF i, of "code_weight M" "code p" "code ?q i", folded u] x by simp
  ultimately show "load_of N M ?q < load_of N M p" unfolding load_of_def by linarith
  show "store ?q \<subseteq> store p" unfolding q by (cases x) auto
qed

interpretation stored: invariant_system "\<lambda>p. p = pool0" "pool_step N bye" "\<lambda>p. finite (store p)"
  for N :: nat and bye :: "conn \<Rightarrow> string"
proof
  fix p e p'
  show "p = pool0 \<Longrightarrow> finite (store p)" by (simp add: pool0_def)
  assume f: "finite (store p)" and st: "pool_step N bye p e p'"
  show "finite (store p')"
  proof (cases e)
    case (Step i cs)
    then obtain x k where "code p i = x # k" using st by (auto simp: pool_step_iff split: list.splits)
    then show ?thesis using f st Step by (cases x) (auto simp: pool_step_iff)
  qed (use f st in \<open>auto simp: pool_step_iff\<close>)
qed

text \<open>So a run of the threads alone is no longer than what was to do.\<close>

lemma stop_run:
  assumes "crew_inv N d" and "finite (store (core d))" and "card (store (core d)) \<le> M"
    and "crew_run N bye es d = Some d'" and "\<forall>e \<in> set es. \<exists>i cs. e = C_Step i cs"
    and "fault (core d') = None"
  shows "length es + load_of N M (core d') \<le> load_of N M (core d)"
  using assms
proof (induction es arbitrary: d)
  case Nil
  then show ?case by simp
next
  case (Cons e es)
  obtain i cs where e: "e = C_Step i cs" using Cons.prems(5) by auto
  let ?d = "crew_exec bye e d"
  have st: "crew_step N bye d e ?d" and r: "crew_run N bye es ?d = Some d'"
    using Cons.prems(4) by (auto simp: crew_step_iff split: if_splits)
  have ps: "pool_step N bye (core d) (Step i cs) (core ?d)"
    using crew_step_pool [OF Cons.prems(1) st] e by simp
  have ok: "fault (core ?d) = None" using r Cons.prems(6) by (cases es) (auto split: if_splits)
  have f: "fault (core d) = None" "pool_enabled N (Step i cs) (core d)"
    and q: "core ?d = pool_exec bye (Step i cs) (core d)" using ps by (auto simp: pool_step_iff)
  have P: "pool_inv N (core d)" using Cons.prems(1) f(1) by (simp add: crew_inv_def workers_inv_def)
  note s = step_load [OF P f(2,1) Cons.prems(2) ok [unfolded q] Cons.prems(3)]
  have sub: "store (core ?d) \<subseteq> store (core d)" using s(2) q by simp
  have "finite (store (core ?d))" "card (store (core ?d)) \<le> M"
    using finite_subset [OF sub Cons.prems(2)] card_mono [OF Cons.prems(2) sub] Cons.prems(3) by simp_all
  then show ?case
    using Cons.IH [OF crew_step_inv [OF Cons.prems(1) st] _ _ r] Cons.prems(5,6) s(1) q by simp
qed

lemma stop_idle:
  assumes I: "crew_inv N d" and f: "fault (core d) = None" and "\<nexists>i cs. crew_enabled N (C_Step i cs) d"
  shows "all_joined d"
proof (rule ccontr)
  assume "\<not> all_joined d"
  then obtain i where i: "code (core d) i \<noteq> []" by (auto simp: all_joined_def)
  have "pool_inv N (core d)" "finite (client_set (core d))"
    using I f by (auto simp: crew_inv_def workers_inv_def)
  from some_thread_runs [OF this i] show False using assms(3) by auto
qed

text \<open>And they can go on to the end, unless a thread locks the mutex twice.\<close>

lemma stop_completes:
  assumes "crew_inv N d" and "finite (store (core d))" and "card (store (core d)) \<le> M"
    and "fault (core d) = None"
  shows "\<exists>es d'. (\<forall>e \<in> set es. \<exists>i cs. e = C_Step i cs) \<and> crew_run N bye es d = Some d' \<and>
    (fault (core d') = None \<longrightarrow> all_joined d')"
  using assms
proof (induction "load_of N M (core d)" arbitrary: d rule: less_induct)
  case less
  show ?case
  proof (cases "\<exists>i cs. crew_enabled N (C_Step i cs) d")
    case False
    then show ?thesis using stop_idle [OF less.prems(1,4)] by (intro exI [of _ "[]"]) auto
  next
    case True
    then obtain i cs where en: "crew_enabled N (C_Step i cs) d" by blast
    let ?e = "C_Step i cs" and ?d = "crew_exec bye (C_Step i cs) d"
    have m: "\<not> misuse d" using less.prems(1) by (simp add: crew_inv_def)
    have run: "crew_run N bye (?e # es) d = crew_run N bye es ?d" for es
      using less.prems(4) m en by simp
    have st: "crew_step N bye d ?e ?d" by (rule crew_stepI [OF less.prems(4) m en])
    show ?thesis
    proof (cases "fault (core ?d) = None")
      case False
      have "crew_run N bye [?e] d = Some ?d" unfolding run by simp
      with False show ?thesis by (intro exI [of _ "[?e]"] exI [of _ ?d]) auto
    next
      case True
      have ps: "pool_step N bye (core d) (Step i cs) (core ?d)"
        using crew_step_pool [OF less.prems(1) st] by simp
      have en': "pool_enabled N (Step i cs) (core d)" and q: "core ?d = pool_exec bye (Step i cs) (core d)"
        using ps by (auto simp: pool_step_iff)
      have P: "pool_inv N (core d)" using less.prems(1,4) by (simp add: crew_inv_def workers_inv_def)
      note s = step_load [OF P en' less.prems(4,2) True [unfolded q] less.prems(3), folded q]
      have "finite (store (core ?d))" "card (store (core ?d)) \<le> M"
        using finite_subset [OF s(2) less.prems(2)] card_mono [OF less.prems(2) s(2)] less.prems(3) by simp_all
      from less.hyps [OF s(1) crew_step_inv [OF less.prems(1) st] this True]
      obtain es d' where es: "\<forall>e \<in> set es. \<exists>i cs. e = C_Step i cs" "crew_run N bye es ?d = Some d'"
        "fault (core d') = None \<longrightarrow> all_joined d'" by (elim exE conjE) (rule that)
      have "crew_run N bye (?e # es) d = Some d'" by (simp only: run es(2))
      with es(1,3) show ?thesis by (intro exI [of _ "?e # es"] exI [of _ d'] conjI) (simp_all del: crew_run.simps)
    qed
  qed
qed

end
