(* ===== verification/Solo.thy ===== *)
theory Solo
  imports Crew_Safety
begin

text \<open>
  A thread that is not interrupted has no choice: the order in which its loops visit the set is the only
  freedom it has, and it makes no difference. So all its complete runs from one state end in one state.
\<close>

section \<open>In the pool\<close>

lemma instr_step_order:
  "(\<And>s. x \<noteq> Loop s) \<Longrightarrow> instr_step bye i cs x k p = instr_step bye i cs' x k p"
  by (cases x) auto

lemma pool_run_Step:
  assumes "pool_run N bye (map (Step i) css) p = Some r" and "code r i = []" and "code p i = x # k"
  obtains cs css' where "css = cs # css'" and "i < N" and "fault p = None" and "\<not> blocked i x p"
    and "loop_order x cs p" and "pool_run N bye (map (Step i) css') (instr_step bye i cs x k p) = Some r"
proof (cases css)
  case Nil
  then show thesis using assms by auto
next
  case (Cons cs css')
  then show thesis using assms that by (auto split: if_splits)
qed

text \<open>The visits of a loop have the effect they have in \<open>Worker_Safety\<close>, whatever their order.\<close>

lemma visits_forced:
  assumes "pool_run N bye (map (Step i) css) (at_code i (map (Visit s) cs @ k) p) = Some r"
    and "code r i = []" and "distinct cs" and "set cs \<subseteq> store p"
  shows "\<exists>css'. length css' \<le> length css \<and>
    pool_run N bye (map (Step i) css') (at_code i k (told {c \<in> set cs. refs p c > 0} s p)) = Some r"
  using assms
proof (induction cs arbitrary: p css)
  case Nil
  have "told {} s p = p" by (simp add: told_def)
  then show ?case using Nil by auto
next
  case (Cons d cs)
  let ?k = "map (Visit s) cs @ k"
  let ?p0 = "at_code i (Visit s d # ?k) p"
  have c0: "code ?p0 i = Visit s d # ?k" by simp
  have r0: "pool_run N bye (map (Step i) css) ?p0 = Some r" using Cons.prems(1) by (simp only: list.map append_Cons)
  obtain cs1 css1 where s1: "css = cs1 # css1" and r1: "pool_run N bye (map (Step i) css1)
      (instr_step bye i cs1 (Visit s d) ?k ?p0) = Some r"
    by (rule pool_run_Step [OF r0 Cons.prems(2) c0])
  show ?case
  proof (cases "refs p d = 0")
    case True
    then have eq: "{c \<in> set (d # cs). refs p c > 0} = {c \<in> set cs. refs p c > 0}" by auto
    have "pool_run N bye (map (Step i) css1) (at_code i ?k p) = Some r"
      using r1 True Cons.prems(4) by simp
    moreover have "distinct cs" and "set cs \<subseteq> store p" using Cons.prems(3,4) by simp_all
    ultimately obtain css' where "length css' \<le> length css1"
      "pool_run N bye (map (Step i) css') (at_code i k (told {c \<in> set cs. refs p c > 0} s p)) = Some r"
      using Cons.IH [OF _ Cons.prems(2)] by blast
    then show ?thesis using s1 unfolding eq by (intro exI [of _ css']) (simp del: fun_upd_apply)
  next
    case False
    let ?p = "told {d} s p"
    have same: "{c \<in> set cs. refs ?p c > 0} = {c \<in> set cs. refs p c > 0}"
      using Cons.prems(3) by (auto simp: told_def)
    have both: "told {c \<in> set cs. refs p c > 0} s ?p = told {c \<in> set (d # cs). refs p c > 0} s p"
      using False Cons.prems(3) by (auto simp: told_def fun_eq_iff)
    let ?q = "(at_code i (Send d s # Release d # ?k) p)\<lparr>refs := (refs p)(d := Suc (refs p d))\<rparr>"
    have q: "pool_run N bye (map (Step i) css1) ?q = Some r" using r1 False Cons.prems(4) by simp
    have c1: "code ?q i = Send d s # Release d # ?k" by simp
    obtain cs2 css2 where s2: "css1 = cs2 # css2" and r2: "pool_run N bye (map (Step i) css2)
        (instr_step bye i cs2 (Send d s) (Release d # ?k) ?q) = Some r"
      by (rule pool_run_Step [OF q Cons.prems(2) c1])
    have c2: "code (instr_step bye i cs2 (Send d s) (Release d # ?k) ?q) i = Release d # ?k" by simp
    obtain cs3 css3 where s3: "css2 = cs3 # css3" and r3: "pool_run N bye (map (Step i) css3)
        (instr_step bye i cs3 (Release d) ?k (instr_step bye i cs2 (Send d s) (Release d # ?k) ?q)) = Some r"
      by (rule pool_run_Step [OF r2 Cons.prems(2) c2])
    have "instr_step bye i cs3 (Release d) ?k (instr_step bye i cs2 (Send d s) (Release d # ?k) ?q) =
        at_code i ?k ?p"
      using False by (auto simp: told_def fun_eq_iff intro!: pool.equality)
    then have "pool_run N bye (map (Step i) css3) (at_code i ?k ?p) = Some r" using r3 by simp
    moreover have "distinct cs" and "set cs \<subseteq> store ?p"
      using Cons.prems(3,4) by (simp_all add: told_def)
    ultimately obtain css' where "length css' \<le> length css3"
      "pool_run N bye (map (Step i) css') (at_code i k (told {c \<in> set cs. refs ?p c > 0} s ?p)) = Some r"
      using Cons.IH [OF _ Cons.prems(2)] by blast
    then show ?thesis using s1 s2 s3 unfolding same both by (intro exI [of _ css']) (simp del: fun_upd_apply)
  qed
qed

lemma pool_run_inv:
  "pool_run N bye es p = Some r \<Longrightarrow> workers_inv N p \<Longrightarrow> workers_inv N r"
proof (induction es arbitrary: p)
  case (Cons e es)
  then have "pool_step N bye p e (pool_exec bye e p)" by (auto simp: pool_step_iff split: if_splits)
  then show ?case using Cons pool.inv_step by (auto split: if_splits)
qed simp

lemma solo_unique:
  assumes "pool_run N bye (map (Step i) css) p = Some r" and "code r i = []"
    and "pool_run N bye (map (Step i) css') p = Some r'" and "code r' i = []" and "workers_inv N p"
  shows "r = r'"
  using assms
proof (induction "length css" arbitrary: p css css' rule: less_induct)
  case less
  show ?case
  proof (cases "code p i")
    case Nil
    have "css = []" using less.prems(1) Nil by (cases css) (auto split: if_splits)
    moreover have "css' = []" using less.prems(3) Nil by (cases css') (auto split: if_splits)
    ultimately show ?thesis using less.prems(1,3) by simp
  next
    case (Cons x k)
    obtain cs1 css1 where s: "css = cs1 # css1" and i: "i < N" and f: "fault p = None"
      and b: "\<not> blocked i x p" and l: "loop_order x cs1 p"
      and r: "pool_run N bye (map (Step i) css1) (instr_step bye i cs1 x k p) = Some r"
      by (rule pool_run_Step [OF less.prems(1,2) Cons])
    obtain cs2 css2 where s': "css' = cs2 # css2" and l': "loop_order x cs2 p"
      and r': "pool_run N bye (map (Step i) css2) (instr_step bye i cs2 x k p) = Some r'"
      by (rule pool_run_Step [OF less.prems(3,4) Cons])
    show ?thesis
    proof (cases "\<exists>t. x = Loop t")
      case False
      then have e: "instr_step bye i cs2 x k p = instr_step bye i cs1 x k p"
        by (intro instr_step_order) auto
      have "pool_step N bye p (Step i cs1) (instr_step bye i cs1 x k p)"
        using f i b l Cons by (simp add: pool_step_iff)
      then have "workers_inv N (instr_step bye i cs1 x k p)" by (rule pool.inv_step [OF less.prems(5)])
      then show ?thesis
        using less.hyps [OF _ r less.prems(2) r' [unfolded e] less.prems(4)] s by simp
    next
      case True
      then obtain t where t: "x = Loop t" by blast
      have P: "pool_inv N p" and F: "finite (client_set p)"
        using less.prems(5) f by (simp_all add: workers_inv_def)
      have cs: "distinct cs1" "set cs1 = client_set p" "distinct cs2" "set cs2 = client_set p"
        using l l' t by (simp_all add: loop_order_def)
      have st: "set cs1 \<subseteq> store p" "set cs2 \<subseteq> store p" using cs pool_invD(11) [OF P] by simp_all
      let ?q = "at_code i k (told {c \<in> client_set p. refs p c > 0} t p)"
      obtain css3 where c3: "length css3 \<le> length css1" "pool_run N bye (map (Step i) css3) ?q = Some r"
        using visits_forced [where N = N and bye = bye and i = i and css = css1 and s = t and cs = cs1 and k = k and p = p and r = r] r less.prems(2) cs st t by auto
      obtain css4 where c4: "pool_run N bye (map (Step i) css4) ?q = Some r'"
        using visits_forced [where N = N and bye = bye and i = i and css = css2 and s = t and cs = cs2 and k = k and p = p and r = r'] r' less.prems(4) cs st t by auto
      let ?u = "at_code i (map (Visit t) cs1 @ k) p"
      have "pool_step N bye p (Step i cs1) ?u"
        using f i b l Cons t by (auto simp: pool_step_iff)
      then have W: "workers_inv N ?u" by (rule pool.inv_step [OF less.prems(5)])
      obtain n where n: "pool_run N bye (replicate n (Step i [])) ?u = Some ?q"
        using alone_visits [OF i cs(1) st(1) f, where bye = bye and s = t and k = k] cs(2) by auto
      have "workers_inv N ?q" by (rule pool_run_inv [OF n W])
      then show ?thesis using less.hyps [OF _ c3(2) less.prems(2) c4 less.prems(4)] c3(1) s by simp
    qed
  qed
qed

section \<open>In the crew\<close>

text \<open>
  What the threads leave of the data of the connections: only \<open>send\<close> and the one operation a handler
  starts change it.
\<close>

definition solo_same :: "job \<Rightarrow> crew \<Rightarrow> crew \<Rightarrow> bool" where
  "solo_same j d d' \<longleftrightarrow> job d' = job d \<and> (\<forall>c. s_queue (strands d' c) = s_queue (strands d c) \<and>
     s_wire (strands d' c) = s_wire (strands d c) \<and>
     accepts (s_ops (strands d' c)) = accepts (s_ops (strands d c)) \<and>
     (case j of Next_Read \<Rightarrow> writes (s_ops (strands d' c)) = writes (s_ops (strands d c))
      | Next_Write \<Rightarrow> reads (s_ops (strands d' c)) = reads (s_ops (strands d c))))"

lemma solo_run:
  assumes "crew_inv N d" and "crew_run N bye (map (C_Step i) css) d = Some d'"
  shows "crew_inv N d' \<and> pool_run N bye (map (Step i) css) (core d) = Some (core d') \<and>
    solo_same (job d i) d d'"
  using assms
proof (induction css arbitrary: d)
  case Nil
  then show ?case by (simp add: solo_same_def split: job.split)
next
  case (Cons cs css)
  let ?d = "crew_exec bye (C_Step i cs) d"
  have st: "crew_step N bye d (C_Step i cs) ?d" and r: "crew_run N bye (map (C_Step i) css) ?d = Some d'"
    using Cons.prems(2) by (auto simp: crew_step_iff split: if_splits)
  obtain x k where x: "code (core d) i = x # k" using st by (auto simp: crew_step_iff split: list.splits)
  have "pool_step N bye (core d) (Step i cs) (core ?d)"
    using crew_step_pool [OF Cons.prems(1) st] by simp
  then have p: "pool_run N bye (map (Step i) (cs # css)) (core d) = pool_run N bye (map (Step i) css) (core ?d)"
    by (simp add: pool_step_iff)
  have "solo_same (job d i) d ?d"
    by (cases x; cases "job d i") (simp_all add: solo_same_def x)
  moreover have "job ?d = job d" by (simp add: x)
  ultimately show ?case
    using Cons.IH [OF crew_step_inv [OF Cons.prems(1) st] r] p
    by (auto simp: solo_same_def split: job.splits)
qed

text \<open>The invariant and the pool determine the rest.\<close>

lemma conn_ok_determined:
  assumes "conn_ok sr sw x s n" and "conn_ok sr sw y s n" and "s_queue y = s_queue x" and "s_wire y = s_wire x"
    and "accepts (s_ops y) = accepts (s_ops x)"
    and "writes (s_ops y) = writes (s_ops x) \<or> reads (s_ops y) = reads (s_ops x)"
  shows "y = x"
proof -
  have p: "posts (s_ops y) = posts (s_ops x)" and n: "op_count (s_ops y) = op_count (s_ops x)"
    using assms(1-4) by (auto simp: conn_ok_def)
  have "writes (s_ops y) = writes (s_ops x)"
    using assms p n by (auto simp: conn_ok_def op_count_def split: if_splits)
  moreover from this have "reads (s_ops y) = reads (s_ops x)" using assms(5) p n by (simp add: op_count_def)
  ultimately have "s_ops y = s_ops x" using assms(5) p by (intro conn_ops.equality) simp_all
  then show ?thesis using assms(3,4) by (intro strand_data.equality) simp_all
qed

lemma solo_determined:
  assumes I: "crew_inv N d"
    and r: "crew_run N bye (map (C_Step i) css) d = Some d'" "code (core d') i = []"
    and r': "crew_run N bye (map (C_Step i) css') d = Some d''" "code (core d'') i = []"
  shows "d'' = d'"
proof -
  note s = solo_run [OF I r(1)] and s' = solo_run [OF I r'(1)]
  have "workers_inv N (core d)" using I by (simp add: crew_inv_def)
  then have c: "core d'' = core d'" using solo_unique s s' r(2) r'(2) by blast
  have j: "job d'' = job d'" using s s' by (simp add: solo_same_def)
  have "strands d'' c = strands d' c" for c
  proof -
    have "starting d'' j c = starting d' j c" for j using c j by (simp add: starting_def)
    then have "conn_ok (starting d' Next_Read c) (starting d' Next_Write c) (strands d'' c)
        (outbox (core d') c) (pending (core d') c)"
      using s' data_invD [of d'' c] c by (simp add: crew_inv_def)
    moreover have "conn_ok (starting d' Next_Read c) (starting d' Next_Write c) (strands d' c)
        (outbox (core d') c) (pending (core d') c)"
      using s data_invD [of d' c] by (simp add: crew_inv_def)
    moreover have "s_queue (strands d'' c) = s_queue (strands d' c)" and "s_wire (strands d'' c) = s_wire (strands d' c)"
      and "accepts (s_ops (strands d'' c)) = accepts (s_ops (strands d' c))"
      using s s' by (simp_all add: solo_same_def)
    moreover have "writes (s_ops (strands d'' c)) = writes (s_ops (strands d' c)) \<or>
        reads (s_ops (strands d'' c)) = reads (s_ops (strands d' c))"
      using s s' by (cases "job d i") (simp_all add: solo_same_def)
    ultimately show ?thesis by (intro conn_ok_determined)
  qed
  moreover have "misuse d'' = misuse d'" using s s' by (simp add: crew_inv_def)
  ultimately show ?thesis using c j by (intro crew.equality) auto
qed

text \<open>Whatever step comes first, it has one outcome.\<close>

lemma solo_after:
  assumes I: "crew_inv N d"
    and r: "crew_run N bye (b # map (C_Step i) css) d = Some d'" "code (core d') i = []"
    and r': "crew_run N bye (b # map (C_Step i) css') d = Some d''" "code (core d'') i = []"
  shows "d'' = d'"
proof -
  have "crew_step N bye d b (crew_exec bye b d)" using r(1) by (auto simp: crew_step_iff split: if_splits)
  then have "crew_inv N (crew_exec bye b d)" by (rule crew_step_inv [OF I])
  moreover have "crew_run N bye (map (C_Step i) css) (crew_exec bye b d) = Some d'"
    and "crew_run N bye (map (C_Step i) css') (crew_exec bye b d) = Some d''"
    using r(1) r'(1) by (simp_all split: if_splits)
  ultimately show ?thesis using solo_determined r(2) r'(2) by blast
qed

end
