(* ===== verification/Lockstep.thy ===== *)
theory Lockstep
  imports Solo Handlers
begin

text \<open>
  The two models of the server meet: a handler of the worker pool that is not interrupted has the effect
  of the handler in \<open>WsConn\<close> that runs from start to end. The code of a handler is followed segment by
  segment, each matched by the operation of \<open>Server\<close> or \<open>WsConn\<close> it was cut from.
\<close>

section \<open>The crew that mirrors a world\<close>

text \<open>
  The pool in which thread \<open>i\<close> has \<open>k\<close> to do and nobody else has anything, \<open>b\<close> are the strands in use,
  and everything else is as in the world \<open>w\<close>.
\<close>

definition pool_of :: "nat \<Rightarrow> instr list \<Rightarrow> conn set \<Rightarrow> world \<Rightarrow> pool" where
  "pool_of i k b w = \<lparr>readers = {}, owner = None, client_set = set (clients w),
     code = (\<lambda>_. [])(i := k), busy = b, refs = use_count w, pending = (\<lambda>c. op_count (ops w c)),
     store = {c. heap w c \<noteq> None}, outbox = sent w, fault = None\<rparr>"

definition mirrors :: "nat \<Rightarrow> instr list \<Rightarrow> conn set \<Rightarrow> world \<Rightarrow> crew \<Rightarrow> bool" where
  "mirrors i k b w d \<longleftrightarrow> core d = pool_of i k b w \<and> (\<forall>c. s_ops (strands d c) = ops w c \<and>
     s_wire (strands d c) = wire w c \<and> (\<forall>x. heap w c = Some x \<longrightarrow> s_queue (strands d c) = queue x))"

lemma pool_of_simps [simp]:
  "code (pool_of i k b w) = (\<lambda>_. [])(i := k)" "busy (pool_of i k b w) = b"
  "readers (pool_of i k b w) = {}" "owner (pool_of i k b w) = None"
  "client_set (pool_of i k b w) = set (clients w)" "refs (pool_of i k b w) = use_count w"
  "pending (pool_of i k b w) = (\<lambda>c. op_count (ops w c))" "store (pool_of i k b w) = {c. heap w c \<noteq> None}"
  "outbox (pool_of i k b w) = sent w" "fault (pool_of i k b w) = None"
  by (simp_all add: pool_of_def)

lemma mirrorsD:
  assumes "mirrors i k b w d"
  shows "core d = pool_of i k b w" and "s_ops (strands d c) = ops w c"
    and "s_wire (strands d c) = wire w c" and "heap w c = Some x \<Longrightarrow> s_queue (strands d c) = queue x"
  using assms by (simp_all add: mirrors_def)

text \<open>Neither the clock nor the buffers nor the order of the set are part of it.\<close>

lemma mirrors_cong:
  assumes q: "\<And>c. map_option queue (heap w' c) = map_option queue (heap w c)" and "ops w' = ops w"
    and "stack w' = stack w" and "set (clients w') = set (clients w)" and "sent w' = sent w"
    and "wire w' = wire w"
  shows "mirrors i k b w' d = mirrors i k b w d"
proof -
  have h: "heap w' c \<noteq> None \<longleftrightarrow> heap w c \<noteq> None" for c
    using q [of c] by (cases "heap w' c"; cases "heap w c") simp_all
  have "(\<forall>x. heap w' c = Some x \<longrightarrow> n = queue x) \<longleftrightarrow> (\<forall>x. heap w c = Some x \<longrightarrow> n = queue x)" for c n
    using q [of c] by (cases "heap w' c"; cases "heap w c") auto
  moreover have "pool_of i k b w' = pool_of i k b w"
    using h assms(2-5) use_count_cong [of w' w] by (simp add: pool_of_def)
  ultimately show ?thesis using assms(2,6) by (simp add: mirrors_def)
qed

lemma mirrors_tick [simp]: "mirrors i k b (tick w) d = mirrors i k b w d"
  by (rule mirrors_cong) (simp_all add: world_simps)

section \<open>Steps of one thread\<close>

definition goes :: "nat \<Rightarrow> (conn \<Rightarrow> string) \<Rightarrow> nat \<Rightarrow> crew \<Rightarrow> crew \<Rightarrow> bool" where
  "goes N bye i d d' \<longleftrightarrow> crew_inv N d' \<and> job d' = job d \<and>
     (\<exists>css. crew_run N bye (map (C_Step i) css) d = Some d')"

lemma goes_refl: "crew_inv N d \<Longrightarrow> goes N bye i d d"
  unfolding goes_def by (auto intro: exI [of _ "[]"])

lemma goes_trans [trans]:
  assumes "goes N bye i d d'" and "goes N bye i d' d''"
  shows "goes N bye i d d''"
proof -
  obtain xs ys where "crew_run N bye (map (C_Step i) xs) d = Some d'"
    and "crew_run N bye (map (C_Step i) ys) d' = Some d''"
    using assms by (auto simp: goes_def)
  then have "crew_run N bye (map (C_Step i) (xs @ ys)) d = Some d''"
    by (simp add: crew_run_append)
  then show ?thesis using assms unfolding goes_def by metis
qed

lemma goesD: "goes N bye i d d' \<Longrightarrow> crew_inv N d' \<and> job d' = job d"
  by (simp add: goes_def)

text \<open>All that happens to the data of the connections while nothing is started: texts are posted.\<close>

definition same_data :: "crew \<Rightarrow> crew \<Rightarrow> bool" where
  "same_data d d' \<longleftrightarrow> job d' = job d \<and> (\<forall>c. s_queue (strands d' c) = s_queue (strands d c) \<and>
     s_wire (strands d' c) = s_wire (strands d c) \<and>
     accepts (s_ops (strands d' c)) = accepts (s_ops (strands d c)) \<and>
     reads (s_ops (strands d' c)) = reads (s_ops (strands d c)) \<and>
     writes (s_ops (strands d' c)) = writes (s_ops (strands d c)))"

lemma same_data_refl: "same_data d d"
  by (simp add: same_data_def)

lemma same_data_trans: "same_data d d' \<Longrightarrow> same_data d' d'' \<Longrightarrow> same_data d d''"
  by (simp add: same_data_def)

definition starts :: "instr list \<Rightarrow> nat" where
  "starts k = length (filter is_start k)"

lemma starts_simps [simp]:
  "starts [] = 0" "starts (x # k) = (if is_start x then Suc (starts k) else starts k)"
  "starts (k @ k') = starts k + starts k'"
  by (simp_all add: starts_def)

lemma starts_visits [simp]: "starts (map (Visit s) cs) = 0"
  by (induction cs) auto

lemma starts_server [simp]: "starts (broadcast_code s) = 0" "starts (destructor_code c s) = 0"
  by (simp_all add: broadcast_code_def disconnect_code_def destructor_code_def)

lemma starts_step:
  assumes "code p i = x # k"
  shows "starts (code (instr_step bye i cs x k p) i) \<le> starts (x # k)"
    and "x = Start c \<Longrightarrow> starts (code (instr_step bye i cs x k p) i) = starts (x # k) \<Longrightarrow> refs p c = 0"
proof -
  show "starts (code (instr_step bye i cs x k p) i) \<le> starts (x # k)"
    by (cases x) (simp_all add: assms)
  show "x = Start c \<Longrightarrow> starts (code (instr_step bye i cs x k p) i) = starts (x # k) \<Longrightarrow> refs p c = 0"
    by (simp split: if_splits)
qed

lemma starts_run:
  "pool_run N bye (map (Step i) css) p = Some p' \<Longrightarrow> starts (code p' i) \<le> starts (code p i)"
proof (induction css arbitrary: p)
  case (Cons cs css)
  then obtain x k where x: "code p i = x # k" by (auto split: if_splits list.splits)
  with Cons have "starts (code p' i) \<le> starts (code (instr_step bye i cs x k p) i)"
    by (simp split: if_splits)
  with starts_step(1) [OF x] show ?case unfolding x by (meson le_trans)
qed simp

lemma step_same_data:
  assumes "code (core d) i = x # k"
    and "is_start x \<Longrightarrow> instr_data (job d i) x (core d) (strands d) = strands d"
  shows "same_data d (crew_exec bye (C_Step i cs) d)"
  using assms by (cases x) (auto simp: same_data_def)

text \<open>A run of one thread of the pool in which nothing is started is a run of the crew.\<close>

lemma lift_run:
  assumes "crew_inv N d" and "pool_run N bye (map (Step i) css) (core d) = Some p'"
    and "starts (code p' i) = starts (code (core d) i)"
  shows "\<exists>d'. goes N bye i d d' \<and> core d' = p' \<and> same_data d d'"
  using assms
proof (induction css arbitrary: d)
  case Nil
  then show ?case using goes_refl same_data_refl by fastforce
next
  case (Cons cs css)
  let ?d = "crew_exec bye (C_Step i cs) d"
  have e: "fault (core d) = None" "pool_enabled N (Step i cs) (core d)" and m: "\<not> misuse d"
    using Cons.prems by (auto simp: crew_inv_def split: if_splits)
  then obtain x k where x: "code (core d) i = x # k" by (auto split: list.splits)
  have c: "core ?d = instr_step bye i cs x k (core d)" by (simp add: x)
  have r: "pool_run N bye (map (Step i) css) (core ?d) = Some p'"
    using Cons.prems(2) e by (simp add: x c)
  have le: "starts (code p' i) \<le> starts (code (core ?d) i)" by (rule starts_run [OF r])
  have "crew_step N bye d (C_Step i cs) ?d" using e m by (intro crew_stepI) simp_all
  then have I: "crew_inv N ?d" using crew_step_inv Cons.prems(1) by blast
  have st: "starts (code (core ?d) i) = starts (x # k)"
    using starts_step(1) [OF x, of bye cs] le Cons.prems(3) unfolding c x by linarith
  have "refs (core d) e = 0" if "x = Start e" for e
    by (rule starts_step(2) [OF x that]) (use st c in simp)
  then have s: "same_data d ?d"
    by (intro step_same_data [OF x]) (auto simp: is_start_iff)
  obtain d' where d': "goes N bye i ?d d'" "core d' = p'" "same_data ?d d'"
    using Cons.IH [OF I r] st Cons.prems(3) x by metis
  have "crew_run N bye (map (C_Step i) [cs]) d = Some ?d" using e m by simp
  then have "goes N bye i d ?d" using I s unfolding goes_def same_data_def by blast
  then show ?case using d' goes_trans same_data_trans [OF s] by blast
qed

section \<open>Segments\<close>

text \<open>What an operation of the server does to a world, as far as the data of a connection shows.\<close>

definition posted :: "world \<Rightarrow> world \<Rightarrow> bool" where
  "posted w w' \<longleftrightarrow> wire w' = wire w \<and>
     (\<forall>c x'. heap w' c = Some x' \<longrightarrow> (\<exists>x. heap w c = Some x \<and> queue x = queue x')) \<and>
     (\<forall>c. \<exists>ts. sent w' c = sent w c @ ts \<and> ops w' c = (ops w c)\<lparr>posts := posts (ops w c) @ ts\<rparr>)"

lemma mirrors_posted:
  assumes m: "mirrors i k b w d" and I: "crew_inv N d" "crew_inv N d'" and s: "same_data d d'"
    and c: "core d' = pool_of i k' b' w'" and p: "posted w w'"
  shows "mirrors i k' b' w' d'"
proof -
  have "s_ops (strands d' c) = ops w' c" for c
  proof -
    obtain ts where ts: "sent w' c = sent w c @ ts"
      "ops w' c = (ops w c)\<lparr>posts := posts (ops w c) @ ts\<rparr>" using p unfolding posted_def by blast
    have "outbox (core d) c = s_wire (strands d c) @ s_queue (strands d c) @ posts (s_ops (strands d c))"
      and "outbox (core d') c = s_wire (strands d' c) @ s_queue (strands d' c) @ posts (s_ops (strands d' c))"
      using I data_invD by (auto simp: crew_inv_def conn_ok_def)
    then have "posts (s_ops (strands d' c)) = posts (ops w c) @ ts"
      using s ts(1) mirrorsD(1,2) [OF m] c by (simp add: same_data_def)
    then show ?thesis
      using s ts(2) mirrorsD(2) [OF m] by (intro conn_ops.equality) (simp_all add: same_data_def)
  qed
  moreover have "s_wire (strands d' c) = wire w' c" for c
    using s p mirrorsD(3) [OF m] by (simp add: same_data_def posted_def)
  moreover have "s_queue (strands d' c) = queue x'" if "heap w' c = Some x'" for c x'
    using that s p mirrorsD(4) [OF m] by (fastforce simp: same_data_def posted_def)
  ultimately show ?thesis using c by (simp add: mirrors_def)
qed

text \<open>A segment of the code of the pool that implements an operation from \<open>w\<close> to \<open>w'\<close>.\<close>

lemma segment:
  assumes m: "mirrors i k b w d" and I: "crew_inv N d"
    and r: "pool_run N bye (map (Step i) css) (pool_of i k b w) = Some (pool_of i k' b' w')"
    and st: "starts k' = starts k" and p: "posted w w'"
  shows "\<exists>d'. goes N bye i d d' \<and> mirrors i k' b' w' d'"
proof -
  have "core d = pool_of i k b w" by (rule mirrorsD(1) [OF m])
  then obtain d' where d': "goes N bye i d d'" "core d' = pool_of i k' b' w'" "same_data d d'"
    using lift_run [OF I, of bye i css] r st by auto
  then show ?thesis using mirrors_posted [OF m I _ d'(3,2) p] goesD by blast
qed

lemma posted_post_all: "posted w (post_all A t w)"
proof -
  have "\<exists>ts. sent (post_all A t w) c = sent w c @ ts \<and>
      ops (post_all A t w) c = (ops w c)\<lparr>posts := posts (ops w c) @ ts\<rparr>" for c
    by (rule exI [of _ "if c \<in> A then [t] else []"]) (simp add: world_simps)
  then show ?thesis by (simp add: posted_def world_simps)
qed

lemma posted_same:
  assumes "wire w' = wire w" and "heap w' = heap w" and "sent w' = sent w" and "ops w' = ops w"
  shows "posted w w'"
  using assms by (simp add: posted_def)

lemma at_code_pool_of: "at_code i k (pool_of i k' b w) = pool_of i k b w"
  by (simp add: pool_of_def fun_eq_iff)

lemma told_pool_of: "told A t (pool_of i k b w) = pool_of i k b (post_all A t w)"
  by (auto simp: told_def pool_of_def world_simps use_count_post_all op_count_def fun_eq_iff)

lemma broadcast_segment:
  assumes m: "mirrors i (broadcast_code t @ k) b w d" and I: "crew_inv N d" and i: "i < N"
  shows "\<exists>d'. goes N bye i d d' \<and> mirrors i k b (post_all (audience w) t w) d'"
proof -
  let ?p = "pool_of i (broadcast_code t @ k) b w"
  have c: "core d = ?p" by (rule mirrorsD(1) [OF m])
  have "pool_inv N ?p" using I c by (simp add: crew_inv_def workers_inv_def)
  then obtain es where es: "\<forall>e \<in> set es. \<exists>cs. e = Step i cs" and
    r: "pool_run N bye es ?p = Some (at_code i k (told {c \<in> client_set ?p. refs ?p c > 0} t ?p))"
    using alone_broadcast [of N ?p i t k bye] i by auto
  obtain css where "es = map (Step i) css" using es by (auto simp flip: ex_map_conv)
  moreover have "{c \<in> client_set ?p. refs ?p c > 0} = audience w" by (simp add: audience_def)
  then have "at_code i k (told {c \<in> client_set ?p. refs ?p c > 0} t ?p) =
      pool_of i k b (post_all (audience w) t w)"
    by (simp only: told_pool_of at_code_pool_of)
  ultimately show ?thesis
    using segment [OF m I, of bye css] r posted_post_all by simp
qed

lemma send_segment:
  assumes m: "mirrors i (Send c t # k) b w d" and I: "crew_inv N d" and i: "i < N"
    and c: "use_count w c > 0"
  shows "\<exists>d'. goes N bye i d d' \<and> mirrors i k b (post_all {c} t w) d'"
proof (rule segment [OF m I, where css = "[[]]"])
  show "pool_run N bye (map (Step i) [[]]) (pool_of i (Send c t # k) b w) =
      Some (pool_of i k b (post_all {c} t w))"
    using i c
    by (auto simp: loop_order_def pool_of_def world_simps use_count_post_all op_count_def fun_eq_iff)
qed (simp_all add: posted_post_all)

lemma insert_segment:
  assumes P: "platform_ok P" and ds: "distinct (clients w)" and i: "i < N" and I: "crew_inv N d"
    and m: "mirrors i (Lock_Exclusive # Insert c # Unlock_Exclusive # k) b w d"
  shows "\<exists>d'. goes N bye i d d' \<and> mirrors i k b (clients_insert P c w) d'"
proof (rule segment [OF m I, where css = "[[], [], []]"])
  show "pool_run N bye (map (Step i) [[], [], []])
      (pool_of i (Lock_Exclusive # Insert c # Unlock_Exclusive # k) b w) =
      Some (pool_of i k b (clients_insert P c w))"
    using i
    by (auto simp: loop_order_def pool_of_def world_simps clients_insert_set [OF P ds] fun_eq_iff)
  show "posted w (clients_insert P c w)" by (rule posted_same) (simp_all add: world_simps)
qed simp

text \<open>One instruction of thread \<open>i\<close>.\<close>

lemma goes_step:
  assumes m: "mirrors i (x # k) b w d" and I: "crew_inv N d" and i: "i < N"
    and e: "\<not> blocked i x (core d)" "loop_order x [] (core d)"
  shows "goes N bye i d (crew_exec bye (C_Step i []) d)"
proof -
  have x: "code (core d) i = x # k" "fault (core d) = None" using mirrorsD(1) [OF m] by simp_all
  have mis: "\<not> misuse d" using I by (simp add: crew_inv_def)
  have en: "crew_enabled N (C_Step i []) d" using e i x by simp
  then have "crew_step N bye d (C_Step i []) (crew_exec bye (C_Step i []) d)"
    using x mis by (intro crew_stepI)
  then have "crew_inv N (crew_exec bye (C_Step i []) d)" by (rule crew_step_inv [OF I])
  moreover have "crew_run N bye (map (C_Step i) [[]]) d = Some (crew_exec bye (C_Step i []) d)"
    using en x mis by simp
  moreover have "job (crew_exec bye (C_Step i []) d) = job d" by (simp add: x)
  ultimately show ?thesis unfolding goes_def by blast
qed

lemma start_segment:
  assumes m: "mirrors i (Start c # k) b w d" and I: "crew_inv N d" and i: "i < N"
    and c: "use_count w c > 0"
  shows "job d i = Next_Read \<Longrightarrow>
      \<exists>d'. goes N bye i d d' \<and> mirrors i k b (set_ops c (\<lambda>q. q\<lparr>reads := Suc (reads q)\<rparr>) w) d'"
    and "job d i = Next_Write \<Longrightarrow> heap w c = Some x \<Longrightarrow>
      \<exists>d'. goes N bye i d d' \<and>
        mirrors i k b (set_ops c (\<lambda>q. q\<lparr>writes := writes q @ [hd (queue x)]\<rparr>) w) d'"
proof -
  let ?d = "crew_exec bye (C_Step i []) d"
  have g: "goes N bye i d ?d" by (rule goes_step [OF m I i]) (simp_all add: loop_order_def)
  note D = mirrorsD [OF m]
  have core: "core ?d = pool_of i k b (set_ops c f w)"
    if "op_count (f (ops w c)) = Suc (op_count (ops w c))" for f
    using c that
    by (auto simp: D(1) pool_of_def use_count_def world_simps fun_eq_iff)
  have "strands ?d = instr_data (job d i) (Start c) (core d) (strands d)" by (simp add: D(1))
  then show "job d i = Next_Read \<Longrightarrow>
      \<exists>d'. goes N bye i d d' \<and> mirrors i k b (set_ops c (\<lambda>q. q\<lparr>reads := Suc (reads q)\<rparr>) w) d'"
    and "job d i = Next_Write \<Longrightarrow> heap w c = Some x \<Longrightarrow>
      \<exists>d'. goes N bye i d d' \<and>
        mirrors i k b (set_ops c (\<lambda>q. q\<lparr>writes := writes q @ [hd (queue x)]\<rparr>) w) d'"
    using g c D by (auto intro!: exI [of _ ?d] core simp: mirrors_def op_count_def world_simps)
qed

text \<open>The end of a handler: the release of its shared pointer, and the strand.\<close>

lemma end_alive:
  assumes m: "mirrors i [Release c, Leave_Strand c] {c} w d" and I: "crew_inv N d" and i: "i < N"
    and st: "stack w = [c]" and q: "ops w c \<noteq> no_ops"
  shows "\<exists>d'. goes N bye i d d' \<and> mirrors i [] {} (pop_stack c w) d'"
proof (rule segment [OF m I, where css = "[[], []]"])
  have "op_count (ops w c) \<noteq> 0" using q by (simp add: op_count_0_iff)
  then show "pool_run N bye (map (Step i) [[], []]) (pool_of i [Release c, Leave_Strand c] {c} w) =
      Some (pool_of i [] {} (pop_stack c w))"
    using i st by (auto simp: loop_order_def pool_of_def world_simps use_count_def fun_eq_iff)
  show "posted w (pop_stack c w)" by (rule posted_same) (simp_all add: world_simps)
qed simp

lemma end_last:
  assumes W: "world_inv P [c] w" and m: "mirrors i [Release c, Leave_Strand c] {c} w d"
    and I: "crew_inv N d" and i: "i < N" and q: "ops w c = no_ops"
  shows "\<exists>d'. goes N bye i d d' \<and> mirrors i [] {} (left c (bye c) w) d'"
proof -
  have st: "stack w = [c]" by (rule invD(2) [OF W])
  let ?v = "pop_stack c w"
  let ?k = "Lock_Exclusive # Erase c # Unlock_Exclusive # Free c # [Leave_Strand c]"
  have "\<exists>d'. goes N bye i d d' \<and> mirrors i (broadcast_code (bye c) @ ?k) {c} ?v d'"
  proof (rule segment [OF m I, where css = "[[]]"])
    show "pool_run N bye (map (Step i) [[]]) (pool_of i [Release c, Leave_Strand c] {c} w) =
        Some (pool_of i (broadcast_code (bye c) @ ?k) {c} ?v)"
      using i st q
      by (auto simp: loop_order_def pool_of_def world_simps use_count_def destructor_code_def
          disconnect_code_def fun_eq_iff)
    show "posted w ?v" by (rule posted_same) (simp_all add: world_simps)
  qed simp
  then obtain d1 where d1: "goes N bye i d d1" "mirrors i (broadcast_code (bye c) @ ?k) {c} ?v d1"
    by blast
  have "audience ?v = set (clients w) - {c}"
    by (rule audience_pop [OF st q]) (use invD(5,11) [OF W] in blast)
  then obtain d2 where d2: "goes N bye i d1 d2"
    and m2: "mirrors i ?k {c} (post_all (set (clients w) - {c}) (bye c) ?v) d2"
    using broadcast_segment [OF d1(2) _ i] goesD [OF d1(1)] by metis
  let ?u = "post_all (set (clients w) - {c}) (bye c) ?v"
  have I2: "crew_inv N d2" using goesD [OF d2] by simp
  have "\<exists>d'. goes N bye i d2 d' \<and> mirrors i [] {} (drop_conn c ?u) d'"
  proof (rule segment [OF m2 I2, where css = "replicate 5 []"])
    have ds: "distinct (clients w)" by (rule invD(12) [OF W])
    show "pool_run N bye (map (Step i) (replicate 5 [])) (pool_of i ?k {c} ?u) =
        Some (pool_of i [] {} (drop_conn c ?u))"
      using i ds
      by (auto simp: eval_nat_numeral loop_order_def pool_of_def world_simps use_count_def fun_eq_iff)
    show "posted ?u (drop_conn c ?u)"
      by (simp add: posted_def world_simps)
  qed simp
  then obtain d3 where d3: "goes N bye i d2 d3" "mirrors i [] {} (drop_conn c ?u) d3" by blast
  have "mirrors i [] {} (left c (bye c) w) d3 = mirrors i [] {} (drop_conn c ?u) d3"
    by (rule mirrors_cong) (auto simp: left_def world_simps fun_eq_iff)
  then show ?thesis using goes_trans [OF d1(1) goes_trans [OF d2 d3(1)]] d3(2) by blast
qed

section \<open>Handlers\<close>

text \<open>
  What the handler of a completion begins with, before it does anything that other threads see: the text it
  is going to send, for which the clock is read at \<open>t\<close>, or the exception that it lets out. \<open>accept\<close> writes
  the connect message first of all. \<open>handle\<close> reads the message and writes it again inside its \<open>try\<close>; the
  \<open>catch\<close> writes the error message, and what is thrown there is caught by nobody.
\<close>

definition accept_outcome :: "'j platform \<Rightarrow> conn \<Rightarrow> error_code \<Rightarrow> nat \<Rightarrow> exn + completion" where
  "accept_outcome P c ec t =
     (if ec \<noteq> Success then Inr (Accept_Failed c)
      else case system_text P Connect (random_uuid P (conn_index c)) t of
        Inl e \<Rightarrow> Inl e
      | Inr u \<Rightarrow> Inr (Accept_Ok c u))"

definition handle_outcome ::
  "'j platform \<Rightarrow> indeterminate \<Rightarrow> conn \<Rightarrow> error_code \<Rightarrow> string \<Rightarrow> nat \<Rightarrow> exn + completion" where
  "handle_outcome P junk c ec s t =
     (if ec \<noteq> Success then Inr (Read_Failed c)
      else case (case message_of_string (json P) junk s of Inl e \<Rightarrow> Inl e | Inr m \<Rightarrow> serialize (json P) m) of
        Inr u \<Rightarrow> Inr (Read_Good c u)
      | Inl e \<Rightarrow>
          if \<not> std_exception e then Inl e
          else case system_text P Error ''bad message'' t of
            Inl e' \<Rightarrow> Inl e'
          | Inr u \<Rightarrow> Inr (Read_Bad c u))"

declare accept_outcome_def [simp] handle_outcome_def [simp]

text \<open>How the pool begins what an event does, when \<open>n\<close> connections were made before.\<close>

fun lead_at :: "nat \<Rightarrow> 'j platform \<Rightarrow> event \<Rightarrow> nat \<Rightarrow> nat \<Rightarrow> exn + crew_event" where
  "lead_at i P Open t n = Inr (C_New (Conn n))"
| "lead_at i P (Accepted c ec) t n = map_sum id (C_Begin i) (accept_outcome P c ec t)"
| "lead_at i P (Received c ec s junk) t n = map_sum id (C_Begin i) (handle_outcome P junk c ec s t)"
| "lead_at i P (Written c ec) t n = Inr (C_Begin i (if ec = Success then Write_Ok c else Write_Failed c))"
| "lead_at i P (Posted c) t n = Inr (C_Begin i (Run_Post c))"

abbreviation lead :: "nat \<Rightarrow> 'j platform \<Rightarrow> event \<Rightarrow> world \<Rightarrow> exn + crew_event" where
  "lead i P e w \<equiv> lead_at i P e (ticks w) (next_conn w)"

text \<open>
  The disconnect message of a connection whose destructor reads the clock at \<open>t\<close>, or the exception of
  writing it; \<open>text_of\<close> forgets that there may be one.
\<close>

definition farewell_text :: "'j platform \<Rightarrow> conn \<Rightarrow> nat \<Rightarrow> exn + string" where
  "farewell_text P c t = system_text P Disconnect (random_uuid P (conn_index c)) t"

definition text_of :: "exn + string \<Rightarrow> string" where
  "text_of r = (case r of Inl e \<Rightarrow> '''' | Inr t \<Rightarrow> t)"

definition parting :: "'j platform \<Rightarrow> world \<Rightarrow> conn \<Rightarrow> string" where
  "parting P w c = text_of (farewell_text P c (ticks w))"

lemma text_of_Inr [simp]: "text_of (Inr t) = t"
  by (simp add: text_of_def)

text \<open>\<open>w1\<close> is the world in which the handler has taken its completion and done its part on the queue.\<close>

definition taken :: "nat \<Rightarrow> (conn \<Rightarrow> string) \<Rightarrow> nat \<Rightarrow> completion \<Rightarrow> instr list \<Rightarrow> world \<Rightarrow> crew \<Rightarrow> crew \<Rightarrow> bool" where
  "taken N bye i h k w1 d d1 \<longleftrightarrow> crew_run N bye [C_Begin i h] d = Some d1 \<and> crew_inv N d1 \<and>
     job d1 i = handler_job h \<and> mirrors i k {completion_conn h} w1 d1"

lemma begin_segment:
  assumes m: "mirrors i [] {} w d" and I: "crew_inv N d" and i: "i < N" and st: "stack w = []"
    and h: "completion_conn h = c" "outstanding h (ops w c)"
    and x: "heap w c = Some x" "heap w1 c = Some x1"
    and new: "handler_data h \<lparr>s_ops = ops w c, s_queue = queue x, s_wire = wire w c\<rparr> =
      \<lparr>s_ops = ops w1 c, s_queue = queue x1, s_wire = wire w1 c\<rparr>"
      "op_count (ops w c) = Suc (op_count (ops w1 c))"
    and w1: "\<And>e. e \<noteq> c \<Longrightarrow> heap w1 e = heap w e \<and> ops w1 e = ops w e \<and> wire w1 e = wire w e"
      "stack w1 = [c]" "clients w1 = clients w" "sent w1 = sent w"
  shows "\<exists>d1. taken N bye i h (work_code (handler_work h (queue x))) w1 d d1"
proof -
  let ?d = "crew_exec bye (C_Begin i h) d" and ?k = "work_code (handler_work h (queue x))"
  note D = mirrorsD [OF m]
  have sd: "strands d c = \<lparr>s_ops = ops w c, s_queue = queue x, s_wire = wire w c\<rparr>"
    using D(2-4) x by (intro strand_data.equality) simp_all
  have e: "crew_enabled N (C_Begin i h) d" using i h D by simp
  have f: "fault (core d) = None" "\<not> misuse d" using D(1) I by (simp_all add: crew_inv_def)
  then have "crew_step N bye d (C_Begin i h) ?d" using e by (intro crew_stepI)
  then have I': "crew_inv N ?d" by (rule crew_step_inv [OF I])
  have "use_count w1 e = use_count w e" "op_count (ops w1 e) = (if e = c then op_count (ops w c) - 1
      else op_count (ops w e))" "heap w1 e \<noteq> None \<longleftrightarrow> heap w e \<noteq> None" for e
    using w1(1) [of e] new(2) st x by (cases "e = c"; simp add: use_count_def w1(2))+
  then have "core ?d = pool_of i ?k {c} w1"
    using h(1) by (auto simp: Let_def D(1) handler_work_conn sd pool_of_def w1(3,4) fun_eq_iff)
  moreover have "strands ?d = (strands d)(c := \<lparr>s_ops = ops w1 c, s_queue = queue x1, s_wire = wire w1 c\<rparr>)"
    by (simp add: Let_def h(1) sd new(1))
  ultimately have "mirrors i ?k {c} w1 ?d"
    using D(2-4) w1(1) x by (auto simp: mirrors_def)
  moreover have "job ?d i = handler_job h" by (simp add: Let_def)
  moreover have "crew_run N bye [C_Begin i h] d = Some ?d" using e f by simp
  ultimately show ?thesis using I' unfolding taken_def h(1) by blast
qed

text \<open>What is left to show: that the thread gets to the world the event leads to.\<close>

definition leads_to :: "nat \<Rightarrow> 'j platform \<Rightarrow> nat \<Rightarrow> crew_event \<Rightarrow> world \<Rightarrow> world \<Rightarrow> crew \<Rightarrow> bool" where
  "leads_to N P i b w w' d \<longleftrightarrow> (\<exists>css d'. crew_run N (parting P w) (b # map (C_Step i) css) d = Some d' \<and>
     crew_inv N d' \<and> mirrors i [] {} w' d')"

abbreviation led :: "nat \<Rightarrow> 'j platform \<Rightarrow> nat \<Rightarrow> event \<Rightarrow> world \<Rightarrow> world \<Rightarrow> crew \<Rightarrow> bool" where
  "led N P i e w w' d \<equiv> \<exists>b. lead i P e w = Inr b \<and> leads_to N P i b w w' d"

lemma leads_toI:
  assumes "crew_run N (parting P w) [b] d = Some d1" and "goes N (parting P w) i d1 d'"
    and "mirrors i [] {} w' d'"
  shows "leads_to N P i b w w' d"
proof -
  obtain css where "crew_run N (parting P w) (map (C_Step i) css) d1 = Some d'"
    using assms(2) by (auto simp: goes_def)
  then have "crew_run N (parting P w) ([b] @ map (C_Step i) css) d = Some d'"
    unfolding crew_run_append by (simp only: assms(1) bind.simps)
  then have "crew_run N (parting P w) (b # map (C_Step i) css) d = Some d'"
    by (simp only: append_Cons append_Nil)
  then show ?thesis using assms(2,3) unfolding leads_to_def goes_def by blast
qed

text \<open>The end of a handler that starts nothing more, or has started it.\<close>

lemma release_segment:
  assumes P: "platform_ok P" and W: "world_inv P [c] v" and t: "ticks v = ticks w"
    and m: "mirrors i [Release c, Leave_Strand c] {c} v d" and I: "crew_inv N d" and i: "i < N"
  shows "\<exists>d'. goes N (parting P w) i d d' \<and> mirrors i [] {} (release P c v) d'"
proof (cases "ops v c = no_ops")
  case True
  obtain x where x: "heap v c = Some x" using invD(7) [OF W, of c] by fastforce
  have u: "uuid x = random_uuid P (conn_index c)" using invD(4) [OF W x] by (simp add: obj_inv_def)
  obtain s where "system_text P Disconnect (uuid x) (ticks v) = Inr s" and r: "release P c v = left c s v"
    by (rule release_last [OF P W True x])
  then have "s = parting P w c" using u t by (simp add: parting_def farewell_text_def)
  then show ?thesis using end_last [OF W m I i True, of "parting P w"] r by simp
next
  case False
  then show ?thesis
    using end_alive [OF m I i invD(2) [OF W]] release_alive(1) [OF W] by simp
qed

lemma lead_Open:
  assumes W: "world_inv P [] w" and m: "mirrors i [] {} w d" and I: "crew_inv N d"
  shows "led N P i Open w (exec P Open w) d"
proof -
  let ?c = "Conn (next_conn w)" and ?d = "crew_exec (parting P w) (C_New (Conn (next_conn w))) d"
  note D = mirrorsD [OF m]
  have new: "heap w ?c = None" "sent w ?c = []" "wire w ?c = []" using invD(8-10) [OF W] by simp_all
  have e: "crew_enabled N (C_New ?c) d" using new D(1) by simp
  have f: "fault (core d) = None" "\<not> misuse d" using D(1) I by (simp_all add: crew_inv_def)
  then have "crew_step N (parting P w) d (C_New ?c) ?d" using e by (intro crew_stepI)
  then have I': "crew_inv N ?d" by (rule crew_step_inv [OF I])
  have "core ?d = pool_of i [] {} (opened P w)"
    using new(2) invD(2) [OF W]
    by (auto simp: D(1) pool_of_def world_simps use_count_def op_count_def fun_eq_iff)
  then have "mirrors i [] {} (opened P w) ?d"
    using D(2-4) new by (simp add: mirrors_def new_strand_def world_simps)
  moreover have "crew_run N (parting P w) (C_New ?c # map (C_Step i) []) d = Some ?d" using e f by simp
  ultimately show ?thesis
    unfolding leads_to_def using I' exec_Open [OF W] lead_at.simps(1) by metis
qed

lemma taken_goes:
  "taken N (parting P w) i h k v d d1 \<Longrightarrow> goes N (parting P w) i d1 d' \<Longrightarrow> mirrors i [] {} w' d' \<Longrightarrow>
     leads_to N P i (C_Begin i h) w w' d"
  unfolding taken_def using leads_toI by blast

text \<open>A handler that goes straight to its end.\<close>

lemma taken_release:
  assumes P: "platform_ok P" and W: "world_inv P [c] v" and t: "ticks v = ticks w" and i: "i < N"
    and h: "taken N (parting P w) i h [Release c, Leave_Strand c] v d d1" "completion_conn h = c"
  shows "leads_to N P i (C_Begin i h) w (release P c v) d"
proof -
  note h = h [unfolded taken_def]
  obtain d' where "goes N (parting P w) i d1 d'" "mirrors i [] {} (release P c v) d'"
    using release_segment [OF P W t _ _ i, of d1] h by auto
  then show ?thesis using h leads_toI by blast
qed

lemma lead_Accepted_fail:
  assumes P: "platform_ok P" and W: "world_inv P [] w" and m: "mirrors i [] {} w d"
    and I: "crew_inv N d" and i: "i < N" and a: "accepts (ops w c) > 0" and ec: "ec \<noteq> Success"
  shows "led N P i (Accepted c ec) w (exec P (Accepted c ec) w) d"
proof -
  let ?v = "begun c (\<lambda>q. q\<lparr>accepts := accepts q - 1\<rparr>) w"
  obtain x where x: "heap w c = Some x" by (rule pending_accept [OF W a])
  have "\<exists>d1. taken N (parting P w) i (Accept_Failed c) (work_code (handler_work (Accept_Failed c) (queue x))) ?v d d1"
    by (rule begin_segment [OF m I i invD(2) [OF W], of _ c x _ x])
       (use a x invD(2) [OF W] in \<open>simp_all add: world_simps op_count_def\<close>)
  then show ?thesis
    using taken_release [OF P inv_begun_accept [OF W a] _ i] ec
    by (auto simp: exec_Accepted_fail [OF P W a ec] world_simps)
qed

lemma lead_Received_fail:
  assumes P: "platform_ok P" and W: "world_inv P [] w" and m: "mirrors i [] {} w d"
    and I: "crew_inv N d" and i: "i < N" and a: "reads (ops w c) > 0" and ec: "ec \<noteq> Success"
  shows "led N P i (Received c ec s junk) w (exec P (Received c ec s junk) w) d"
proof -
  obtain x where x: "heap w c = Some x" by (rule pending_read [OF W a])
  have "\<exists>d1. taken N (parting P w) i (Read_Failed c) (work_code (handler_work (Read_Failed c) (queue x)))
      (arrived c s w) d d1"
    by (rule begin_segment [OF m I i invD(2) [OF W], of _ c x _ "x\<lparr>buffer := buffer x @ s\<rparr>"])
       (use a x invD(2) [OF W] in \<open>simp_all add: world_simps op_count_def\<close>)
  then show ?thesis
    using taken_release [OF P inv_arrived [OF W a] _ i] ec
    by (auto simp: exec_Received_fail [OF P W a ec] world_simps)
qed

lemma lead_Written_fail:
  assumes P: "platform_ok P" and W: "world_inv P [] w" and m: "mirrors i [] {} w d"
    and I: "crew_inv N d" and i: "i < N" and a: "writes (ops w c) \<noteq> []" and ec: "ec \<noteq> Success"
  shows "led N P i (Written c ec) w (exec P (Written c ec) w) d"
proof -
  let ?v = "begun c (\<lambda>q. q\<lparr>writes := tl (writes q)\<rparr>) w"
  obtain x t where x: "heap w c = Some x" "writes (ops w c) = [t]" by (rule pending_write [OF W a])
  have "\<exists>d1. taken N (parting P w) i (Write_Failed c) (work_code (handler_work (Write_Failed c) (queue x))) ?v d d1"
    by (rule begin_segment [OF m I i invD(2) [OF W], of _ c x _ x])
       (use a x invD(2) [OF W] in \<open>simp_all add: world_simps op_count_def\<close>)
  then show ?thesis
    using taken_release [OF P exec_Written_fail(2) [OF P W a ec] _ i] ec
    by (auto simp: exec_Written_fail(1) [OF P W a ec] world_simps)
qed

text \<open>A handler that starts its next read and ends.\<close>

lemma read_segment:
  assumes m: "mirrors i [Start c, Release c, Leave_Strand c] {c} w d" and I: "crew_inv N d" and i: "i < N"
    and st: "stack w = [c]" and j: "job d i = Next_Read"
  shows "\<exists>d'. goes N bye i d d' \<and>
    mirrors i [] {} (pop_stack c (set_ops c (\<lambda>q. q\<lparr>reads := Suc (reads q)\<rparr>) w)) d'"
proof -
  let ?u = "set_ops c (\<lambda>q. q\<lparr>reads := Suc (reads q)\<rparr>) w"
  have "use_count w c > 0" using st by (simp add: use_count_def)
  then obtain d1 where d1: "goes N bye i d d1" "mirrors i [Release c, Leave_Strand c] {c} ?u d1"
    using start_segment(1) [OF m I i _ j] by blast
  have "stack ?u = [c]" "ops ?u c \<noteq> no_ops" using st by (simp_all add: world_simps no_ops_iff)
  then obtain d2 where "goes N bye i d1 d2" "mirrors i [] {} (pop_stack c ?u) d2"
    using end_alive [OF d1(2) _ i] goesD [OF d1(1)] by blast
  then show ?thesis using goes_trans [OF d1(1)] by blast
qed

lemma lead_Accepted_ok:
  assumes P: "platform_ok P" and W: "world_inv P [] w" and m: "mirrors i [] {} w d"
    and I: "crew_inv N d" and i: "i < N" and a: "accepts (ops w c) > 0"
  shows "led N P i (Accepted c Success) w (exec P (Accepted c Success) w) d"
proof -
  let ?b = "begun c (\<lambda>q. q\<lparr>accepts := accepts q - 1\<rparr>) w"
  obtain x where x: "heap w c = Some x" and c: "c \<notin> set (clients w)" by (rule pending_accept [OF W a])
  obtain t where t: "system_text P Connect (random_uuid P (conn_index c)) (ticks w) = Inr t"
    and e: "exec P (Accepted c Success) w = pop_stack c (set_ops c (\<lambda>q. q\<lparr>reads := Suc (reads q)\<rparr>)
      (joined P c t ?b))" by (rule exec_Accepted_ok [OF P W a])
  have B: "world_inv P [c] ?b" by (rule inv_begun_accept [OF W a])
  let ?k = "[Start c, Release c, Leave_Strand c]"
  let ?m = "Lock_Exclusive # Insert c # Unlock_Exclusive # ?k"
  have "\<exists>d1. taken N (parting P w) i (Accept_Ok c t) (work_code (handler_work (Accept_Ok c t) (queue x))) ?b d d1"
    by (rule begin_segment [OF m I i invD(2) [OF W], of _ c x _ x])
       (use a x invD(2) [OF W] in \<open>simp_all add: world_simps op_count_def\<close>)
  then obtain d1 where r: "crew_run N (parting P w) [C_Begin i (Accept_Ok c t)] d = Some d1"
    and d1: "crew_inv N d1" "job d1 i = Next_Read" "mirrors i (Send c t # broadcast_code t @ ?m) {c} ?b d1"
    by (auto simp: taken_def connect_code_def simp del: crew_run.simps)
  let ?s = "post_all {c} t ?b" and ?A = "set (clients w)"
  have "use_count ?b c > 0" by (simp add: use_count_def world_simps)
  then obtain d2 where d2: "goes N (parting P w) i d1 d2" "mirrors i (broadcast_code t @ ?m) {c} ?s d2"
    using send_segment [OF d1(3,1) i] by blast
  have "audience ?s = audience ?b" using c by (auto simp: audience_def world_simps use_count_post_all)
  then have "audience ?s = ?A" using inv_audience [OF B] by (simp add: world_simps)
  moreover have "crew_inv N d2" using goesD [OF d2(1)] by simp
  ultimately obtain d3 where d3: "goes N (parting P w) i d2 d3" "mirrors i ?m {c} (post_all ?A t ?s) d3"
    using broadcast_segment [OF d2(2) _ i, of "parting P w"] by auto
  have ds: "distinct (clients (post_all ?A t ?s))" using invD(12) [OF B] by (simp add: world_simps)
  obtain d4 where d4: "goes N (parting P w) i d3 d4"
    "mirrors i ?k {c} (clients_insert P c (post_all ?A t ?s)) d4"
    using insert_segment [OF P ds i _ d3(2)] goesD [OF d3(1)] by blast
  have "mirrors i ?k {c} (joined P c t ?b) d4 = mirrors i ?k {c} (clients_insert P c (post_all ?A t ?s)) d4"
    using c clients_insert_set(1) [OF P ds] clients_insert_set(1) [OF P, of "post_all (insert c ?A) t (tick ?b)" c]
      invD(12) [OF B]
    by (intro mirrors_cong) (auto simp: joined_def world_simps fun_eq_iff)
  then have m4: "mirrors i ?k {c} (joined P c t ?b) d4" using d4(2) by simp
  have g: "goes N (parting P w) i d1 d4" using d2(1) d3(1) d4(1) goes_trans by blast
  have "stack (joined P c t ?b) = [c]" using invD(2) [OF W] by (simp add: world_simps)
  moreover have "crew_inv N d4" "job d4 i = Next_Read" using goesD [OF g] d1(2) by simp_all
  ultimately obtain d5 where "goes N (parting P w) i d4 d5"
    "mirrors i [] {} (exec P (Accepted c Success) w) d5"
    unfolding e using read_segment [OF m4 _ i] by blast
  then show ?thesis using leads_toI [OF r goes_trans [OF g]] t by simp
qed

lemma lead_Received_ok:
  assumes P: "platform_ok P" and W: "world_inv P [] w" and m: "mirrors i [] {} w d"
    and I: "crew_inv N d" and i: "i < N" and a: "reads (ops w c) > 0"
  shows "led N P i (Received c Success s junk) w (exec P (Received c Success s junk) w) d"
proof -
  let ?a = "arrived c s w" and ?k = "[Start c, Release c, Leave_Strand c]"
  obtain x where x: "heap w c = Some x" by (rule pending_read [OF W a])
  have A: "world_inv P [c] ?a" by (rule inv_arrived [OF W a])
  have tk: "\<exists>d1. taken N (parting P w) i h (work_code (handler_work h (queue x))) ?a d d1"
    if "h = Read_Good c t \<or> h = Read_Bad c t" for h t
    by (rule begin_segment [OF m I i invD(2) [OF W], of _ c x _ "x\<lparr>buffer := buffer x @ s\<rparr>"])
       (use that a x invD(2) [OF W] in \<open>auto simp: world_simps op_count_def\<close>)
  have L: "json_laws (json P)" using P by (simp add: platform_ok_def)
  have "\<exists>h d1 d2. lead i P (Received c Success s junk) w = Inr (C_Begin i h) \<and>
      crew_run N (parting P w) [C_Begin i h] d = Some d1 \<and> job d1 i = Next_Read \<and>
      goes N (parting P w) i d1 d2 \<and> mirrors i ?k {c} (reply P junk c s ?a) d2"
  proof (cases "message_of_string (json P) junk s")
    case (Inl e)
    have "ascii ''bad message''" by (simp add: ascii_def)
    then obtain t where t: "system_text P Error ''bad message'' (ticks w) = Inr t"
      using system_text_ok [OF P, of Error] by (metis named.simps(5))
    obtain d1 where d1: "taken N (parting P w) i (Read_Bad c t) (Send c t # ?k) ?a d d1"
      using tk [of "Read_Bad c t" t] by auto
    have "use_count ?a c > 0" by (simp add: use_count_def world_simps)
    then obtain d2 where d2: "goes N (parting P w) i d1 d2" "mirrors i ?k {c} (post_all {c} t ?a) d2"
      using send_segment [of i c t ?k "{c}" ?a d1 N] d1 i by (auto simp: taken_def)
    have "mirrors i ?k {c} (post_all {c} t (tick ?a)) d2"
      using d2(2) by (subst mirrors_cong [of _ "post_all {c} t ?a"]) (auto simp: world_simps fun_eq_iff)
    moreover have "std_exception e" using message_of_string_error [OF L Inl] by auto
    ultimately show ?thesis using Inl t d1 d2(1) by (auto simp: taken_def reply_def world_simps)
  next
    case (Inr msg)
    obtain t where t: "serialize (json P) msg = Inr t" using codec.encode_decoded [OF L Inr] by blast
    obtain d1 where d1: "taken N (parting P w) i (Read_Good c t) (broadcast_code t @ ?k) ?a d d1"
      using tk [of "Read_Good c t" t] by auto
    then obtain d2 where d2: "goes N (parting P w) i d1 d2" "mirrors i ?k {c} (post_all (audience ?a) t ?a) d2"
      using broadcast_segment [of i t ?k "{c}" ?a d1 N] i by (auto simp: taken_def)
    then show ?thesis
      using Inr t d1 inv_audience [OF A] by (auto simp: taken_def reply_def world_simps)
  qed
  then obtain h d1 d2 where h: "lead i P (Received c Success s junk) w = Inr (C_Begin i h)"
    and d1: "crew_run N (parting P w) [C_Begin i h] d = Some d1" "job d1 i = Next_Read"
    and d2: "goes N (parting P w) i d1 d2" "mirrors i ?k {c} (reply P junk c s ?a) d2" by blast
  let ?r = "set_conn c (\<lambda>y. y\<lparr>buffer := ''''\<rparr>) (reply P junk c s ?a)"
  have "mirrors i ?k {c} ?r d2 = mirrors i ?k {c} (reply P junk c s ?a) d2"
    by (rule mirrors_cong) (auto simp: world_simps option.map_comp comp_def)
  moreover have "stack ?r = [c]" using invD(2) [OF W] by (simp add: world_simps)
  moreover have "crew_inv N d2" "job d2 i = Next_Read" using goesD [OF d2(1)] d1(2) by simp_all
  ultimately obtain d3 where "goes N (parting P w) i d2 d3"
    "mirrors i [] {} (exec P (Received c Success s junk) w) d3"
    unfolding exec_Received_ok(1) [OF P W a] using read_segment [of i c ?r d2 N] d2(2) i by blast
  then show ?thesis using leads_toI [OF d1(1) goes_trans [OF d2(1)]] h by simp
qed

text \<open>A handler that starts the write of the front of the queue and ends.\<close>

lemma write_segment:
  assumes P: "platform_ok P" and m: "mirrors i [Start c, Release c, Leave_Strand c] {c} v d"
    and I: "crew_inv N d" and i: "i < N" and j: "job d i = Next_Write"
    and x: "heap v c = Some x" "stack v = [c]" and t: "ticks v = ticks w"
    and u: "u = set_ops c (\<lambda>q. q\<lparr>writes := writes q @ [hd (queue x)]\<rparr>) v" and W: "world_inv P [c] u"
  shows "\<exists>d'. goes N (parting P w) i d d' \<and> mirrors i [] {} (release P c u) d'"
proof -
  have "use_count v c > 0" using x(2) by (simp add: use_count_def)
  then obtain d1 where d1: "goes N (parting P w) i d d1" "mirrors i [Release c, Leave_Strand c] {c} u d1"
    using start_segment(2) [OF m I i _ j x(1)] u by blast
  have "ticks u = ticks w" using t u by (simp add: world_simps)
  then obtain d2 where "goes N (parting P w) i d1 d2" "mirrors i [] {} (release P c u) d2"
    using release_segment [OF P W _ d1(2) _ i] goesD [OF d1(1)] by blast
  then show ?thesis using goes_trans [OF d1(1)] by blast
qed

lemma lead_Written_ok:
  assumes P: "platform_ok P" and W: "world_inv P [] w" and m: "mirrors i [] {} w d"
    and I: "crew_inv N d" and i: "i < N" and a: "writes (ops w c) \<noteq> []"
  shows "led N P i (Written c Success) w (exec P (Written c Success) w) d"
proof -
  obtain x t ts where x: "heap w c = Some x" and q: "writes (ops w c) = [t]" "queue x = t # ts"
    by (rule pending_write [OF W a])
  note e = exec_Written_ok [OF P W x q]
  have st: "stack w = []" by (rule invD(2) [OF W])
  let ?v = "push_stack c (w\<lparr>heap := (heap w)(c \<mapsto> x\<lparr>queue := ts\<rparr>),
    ops := (ops w)(c := (ops w c)\<lparr>writes := []\<rparr>), wire := (wire w)(c := wire w c @ [t])\<rparr>)"
  let ?u = "push_stack c (written c t ts w)"
  have "\<exists>d1. taken N (parting P w) i (Write_Ok c) (work_code (handler_work (Write_Ok c) (queue x))) ?v d d1"
    by (rule begin_segment [OF m I i st, of _ c x _ "x\<lparr>queue := ts\<rparr>"])
       (use x q st in \<open>simp_all add: push_stack_def op_count_def\<close>)
  then obtain d1 where d1: "taken N (parting P w) i (Write_Ok c)
      (work_code (if ts \<noteq> [] then Going_On c else Finishing c)) ?v d d1"
    using q by auto
  show ?thesis
  proof (cases ts)
    case Nil
    then have "?v = ?u" using x by (intro world.equality) (simp_all add: written_def push_stack_def)
    then show ?thesis
      using taken_release [OF P e(2) _ i, of w "Write_Ok c" d d1] d1 Nil e(1) by (simp add: world_simps)
  next
    case (Cons y ys)
    have "?u = set_ops c (\<lambda>q. q\<lparr>writes := writes q @ [hd (queue (x\<lparr>queue := ts\<rparr>))]\<rparr>) ?v"
      using x Cons by (intro world.equality) (simp_all add: written_def push_stack_def set_ops_def)
    then obtain d2 where "goes N (parting P w) i d1 d2" "mirrors i [] {} (release P c ?u) d2"
      using write_segment [OF P _ _ i, of c ?v d1 "x\<lparr>queue := ts\<rparr>" w ?u] d1 Cons e(2) st
      by (auto simp: taken_def push_stack_def)
    then show ?thesis using taken_goes [OF d1] e(1) by simp
  qed
qed

lemma lead_Posted:
  assumes P: "platform_ok P" and W: "world_inv P [] w" and m: "mirrors i [] {} w d"
    and I: "crew_inv N d" and i: "i < N" and a: "posts (ops w c) \<noteq> []"
  shows "led N P i (Posted c) w (exec P (Posted c) w) d"
proof -
  obtain x where x: "heap w c = Some x" and n: "queue x = [] \<longrightarrow> writes (ops w c) = []"
    using pending_post [OF W a] by blast
  obtain t ps where p: "posts (ops w c) = t # ps" using a by (cases "posts (ops w c)") auto
  note e = exec_Posted [OF P W x p]
  have st: "stack w = []" by (rule invD(2) [OF W])
  let ?x = "x\<lparr>queue := queue x @ [t]\<rparr>"
  let ?v = "push_stack c (w\<lparr>heap := (heap w)(c \<mapsto> ?x), ops := (ops w)(c := (ops w c)\<lparr>posts := ps\<rparr>)\<rparr>)"
  let ?u = "push_stack c (queued c t ps x w)"
  have "\<exists>d1. taken N (parting P w) i (Run_Post c) (work_code (handler_work (Run_Post c) (queue x))) ?v d d1"
    by (rule begin_segment [OF m I i st, of _ c x _ ?x])
       (use x p st in \<open>simp_all add: push_stack_def op_count_def\<close>)
  then obtain d1 where d1: "taken N (parting P w) i (Run_Post c)
      (if queue x = [] then [Start c, Release c, Leave_Strand c] else [Release c, Leave_Strand c]) ?v d d1"
    by (cases "queue x") auto
  show ?thesis
  proof (cases "queue x = []")
    case False
    then have eq: "?v = ?u"
      by (intro world.equality) (simp_all add: queued_def push_stack_def fun_eq_iff conn_ops.equality)
    show ?thesis
      using taken_release [OF P e(2) _ i, of w "Run_Post c" d d1] d1 [unfolded eq] False e(1)
      by (simp add: world_simps)
  next
    case True
    have "?u = set_ops c (\<lambda>q. q\<lparr>writes := writes q @ [hd (queue ?x)]\<rparr>) ?v"
      using True n by (intro world.equality) (simp_all add: queued_def push_stack_def set_ops_def)
    then obtain d2 where "goes N (parting P w) i d1 d2" "mirrors i [] {} (release P c ?u) d2"
      using write_segment [OF P _ _ i, of c ?v d1 ?x w ?u] d1 True e(2) st
      by (auto simp: taken_def push_stack_def)
    then show ?thesis using taken_goes [OF d1] e(1) by simp
  qed
qed

section \<open>Every event\<close>

lemma lockstep:
  assumes P: "platform_ok P" and W: "world_inv P [] w" and e: "enabled e w"
    and m: "mirrors i [] {} w d" and I: "crew_inv N d" and i: "i < N"
  shows "led N P i e w (exec P e w) d"
proof (cases e)
  case Open
  then show ?thesis using lead_Open [OF W m I] by simp
next
  case (Accepted c ec)
  then show ?thesis
    using e lead_Accepted_ok [OF P W m I i] lead_Accepted_fail [OF P W m I i] by (cases "ec = Success") auto
next
  case (Received c ec s junk)
  then show ?thesis
    using e lead_Received_ok [OF P W m I i] lead_Received_fail [OF P W m I i] by (cases "ec = Success") auto
next
  case (Written c ec)
  then show ?thesis
    using e lead_Written_ok [OF P W m I i] lead_Written_fail [OF P W m I i] by (cases "ec = Success") auto
next
  case (Posted c)
  then show ?thesis using e lead_Posted [OF P W m I i] by simp
qed

text \<open>
  The disconnect messages depend on the time, so here each step may have its own.
\<close>

abbreviation crew_reaches :: "nat \<Rightarrow> crew \<Rightarrow> bool" where
  "crew_reaches N d \<equiv> reach (\<lambda>d. d = crew0) (\<lambda>d (bye, e) d'. crew_step N bye d e d') d"

interpretation timed: invariant_system "\<lambda>d. d = crew0" "\<lambda>d (bye, e) d'. crew_step N bye d e d'"
  "crew_inv N" for N :: nat
  by unfold_locales (auto simp: crew_inv0 crew_step_inv)

lemma crew_run_reaches: "crew_run N bye es d = Some d' \<Longrightarrow> crew_reaches N d \<Longrightarrow> crew_reaches N d'"
proof (induction es arbitrary: d)
  case Nil
  then show ?case by simp
next
  case (Cons e es)
  have "crew_step N bye d e (crew_exec bye e d)"
    using Cons.prems(1) by (simp add: crew_step_iff split: if_splits)
  then have "crew_reaches N (crew_exec bye e d)"
    using reach_step [OF Cons.prems(2), of "(bye, e)"] by simp
  then show ?case using Cons by (simp split: if_splits)
qed

text \<open>So the pool can do whatever the chat can do.\<close>

lemma chat_in_crew:
  assumes P: "platform_ok P" and r: "reachable P w" and i: "i < N"
  shows "\<exists>d. crew_reaches N d \<and> mirrors i [] {} w d"
  using r
proof (induction rule: reach.induct)
  case (reach_init w)
  have "mirrors i [] {} world0 crew0"
    by (auto simp: mirrors_def crew0_def pool0_def pool_of_def world0_def use_count_def fun_eq_iff)
  then show ?case using reach_init reach.reach_init [of "\<lambda>d. d = crew0"] by blast
next
  case (reach_step w e w')
  then obtain d where d: "crew_reaches N d" "mirrors i [] {} w d" by blast
  have e: "enabled e w" "w' = exec P e w" using reach_step(2) by (auto simp: step_iff)
  obtain b css d' where "crew_run N (parting P w) (b # map (C_Step i) css) d = Some d'"
    and "mirrors i [] {} w' d'"
    using lockstep [OF P reachable_inv [OF P reach_step(1)] e(1) d(2) timed.reach_inv [OF d(1)] i] e(2)
    by (auto simp: leads_to_def simp del: crew_run.simps)
  then show ?case using crew_run_reaches d(1) by blast
qed

end
