(* ===== verification/Joined.thy ===== *)
theory Joined
  imports Stopping Lockstep Shutdown
begin

text \<open>
  After the joins. When all threads of the pool have come to their end, what they leave is a state of the
  chat in which no handler runs, so that what \<open>Shutdown\<close> shows of the destruction of the event loop
  holds however many threads ran it.
\<close>

text \<open>
  The world that \<open>main\<close> finds: \<open>cs\<close> is the order in which \<open>clients_\<close> is iterated, and \<open>n\<close> is beyond the
  addresses in use.
\<close>

definition world_of :: "'j platform \<Rightarrow> conn list \<Rightarrow> nat \<Rightarrow> crew \<Rightarrow> world" where
  "world_of P cs n d =
     \<lparr>heap = (\<lambda>c. if c \<in> store (core d)
        then Some \<lparr>buffer = '''', queue = s_queue (strands d c), uuid = random_uuid P (conn_index c)\<rparr> else None),
      ops = (\<lambda>c. s_ops (strands d c)), stack = [], clients = cs, ticks = 0, next_conn = n,
      sent = outbox (core d), wire = (\<lambda>c. s_wire (strands d c)), crash = None\<rparr>"

lemma world_of_simps [simp]:
  "heap (world_of P cs n d) c = (if c \<in> store (core d)
     then Some \<lparr>buffer = '''', queue = s_queue (strands d c), uuid = random_uuid P (conn_index c)\<rparr> else None)"
  "ops (world_of P cs n d) = (\<lambda>c. s_ops (strands d c))" "stack (world_of P cs n d) = []"
  "clients (world_of P cs n d) = cs" "next_conn (world_of P cs n d) = n"
  "sent (world_of P cs n d) = outbox (core d)" "wire (world_of P cs n d) = (\<lambda>c. s_wire (strands d c))"
  "crash (world_of P cs n d) = None"
  by (simp_all add: world_of_def)

text \<open>No thread holds a lock, a strand or a pointer.\<close>

lemma joined_idle:
  assumes I: "crew_inv N d" and f: "fault (core d) = None" and j: "all_joined d"
  shows "busy (core d) = {}" and "readers (core d) = {}" and "owner (core d) = None"
    and "refs (core d) c = op_count (s_ops (strands d c))"
    and "pending (core d) c = op_count (s_ops (strands d c))"
proof -
  have P: "pool_inv N (core d)" and S: "strand_inv N (core d)" and D: "data_inv d"
    using I f by (auto simp: crew_inv_def workers_inv_def)
  have k: "code (core d) i = []" for i using j by (simp add: all_joined_def)
  then have t: "total N (core d) x = 0" for x by (simp add: total_def)
  have "c \<notin> busy (core d)" for c
    using strand_invD(1) [OF S, of c] t [of "Leave_Strand c"] by (simp split: if_splits)
  then show "busy (core d) = {}" by blast
  have o: "owner (core d) \<noteq> Some i \<and> i \<notin> readers (core d)" for i
    using pool_invD(1) [OF P, of i] by (auto simp: shaped_def k owning_def reading_def destructor_code_def split: if_splits)
  show "readers (core d) = {}" using o by blast
  show "owner (core d) = None" using o by (cases "owner (core d)") auto
  show p: "pending (core d) c = op_count (s_ops (strands d c))"
    using data_invD [OF D, of c] by (simp add: conn_ok_def)
  show "refs (core d) c = op_count (s_ops (strands d c))" using pool_invD(5) [OF P, of c] t p by simp
qed

lemma joined_mirrors:
  assumes I: "crew_inv N d" and f: "fault (core d) = None" and j: "all_joined d"
    and cs: "set cs = client_set (core d)"
  shows "mirrors i [] {} (world_of P cs n d) d"
proof -
  note idle = joined_idle [OF I f j]
  have "code (core d) = (\<lambda>_. [])(i := [])" using j by (auto simp: all_joined_def)
  then have core: "core d = pool_of i [] {} (world_of P cs n d)"
    using idle cs f by (intro pool.equality) (auto simp: pool_of_def use_count_def)
  show ?thesis unfolding mirrors_def
  proof (intro conjI allI impI)
    show "core d = pool_of i [] {} (world_of P cs n d)" by (rule core)
  qed (auto split: if_splits)
qed

lemma joined_memory:
  assumes I: "crew_inv N d" and f: "fault (core d) = None" and j: "all_joined d"
    and L: "no_leak N (core d)" and cs: "set cs = client_set (core d)" "distinct cs"
    and n: "\<And>c. c \<in> store (core d) \<Longrightarrow> conn_index c < n"
  shows "memory_inv P (world_of P cs n d)"
proof (rule memory_invI)
  have R: "pool_inv N (core d)" using I f by (auto simp: crew_inv_def workers_inv_def)
  have k: "code (core d) i = []" for i using j by (simp add: all_joined_def)
  note r = joined_idle(4) [OF I f j]
  show "no_dangling (world_of P cs n d)" using cs pool_invD(11) [OF R] by (auto simp: no_dangling_def)
  have s: "c \<in> store (core d) \<longleftrightarrow> s_ops (strands d c) \<noteq> no_ops" for c
  proof
    assume "c \<in> store (core d)"
    then show "s_ops (strands d c) \<noteq> no_ops" using L f k r [of c] by (auto simp: no_leak_def)
  next
    assume "s_ops (strands d c) \<noteq> no_ops"
    then have "refs (core d) c > 0" using r [of c] op_count_0_iff by (metis neq0_conv)
    then show "c \<in> store (core d)" by (rule pool_invD(6) [OF R])
  qed
  fix c
  show "heap (world_of P cs n d) c = None \<Longrightarrow> ops (world_of P cs n d) c = no_ops"
    using s [of c] by (simp split: if_splits)
  fix x
  assume x: "heap (world_of P cs n d) c = Some x"
  then show "uuid x = random_uuid P (conn_index c)" by (auto split: if_splits)
  show "ops (world_of P cs n d) c \<noteq> no_ops" using x s [of c] by (simp split: if_splits)
  show "conn_index c < next_conn (world_of P cs n d)" using x n [of c] by (simp split: if_splits)
qed simp_all

text \<open>So the loop is destroyed as after a chat with one worker.\<close>

lemma joined_drop_inv:
  assumes "crew_reachable N bye d" and "fault (core d) = None" and "all_joined d"
    and "set cs = client_set (core d)" and "distinct cs" and "\<forall>c \<in> store (core d). conn_index c < n"
    and "chat s = world_of P cs n d" and "http_inv s"
  shows "drop_inv P s" and "mirrors i [] {} (chat s) d"
proof -
  have I: "crew_inv N d" by (rule crew.reach_inv [OF assms(1)])
  have "no_leak N (core d)" by (rule leak.reach_inv [OF crew.reach_image [OF assms(1)]])
  from joined_memory [OF I assms(2,3) this assms(4,5), of n P] have "memory_inv P (chat s)"
    unfolding assms(7) using assms(6) by blast
  then show "drop_inv P s" using assms(8) by (simp add: drop_inv_def)
  show "mirrors i [] {} (chat s) d" unfolding assms(7) by (rule joined_mirrors [OF I assms(2-4)])
qed

end
