(* ===== verification/Stopping_Properties.thy ===== *)
theory Stopping_Properties
  imports Joined Crew_Properties Demo
begin

text \<open>
  The properties of the end of \<open>main\<close> with several workers, with instances at runs of \<open>Crew_Properties\<close>: one
  thread is inside the loop of a broadcast; two clients have joined at the same time.
\<close>

lemma crew_fault:
  assumes "crew_reachable N bye d"
  shows "fault (core d) = None \<or> fault (core d) = Some Relock \<and> N \<noteq> 1"
proof -
  have "fault (core d) = None \<or> fault (core d) = Some Relock"
    using crew_facts(1) [OF assms] by (auto simp: crew_inv_def workers_inv_def)
  moreover have "fault (core d) = None" if "N = 1"
    using alone.reach_inv [of bye "core d"] crew_facts(2) [OF assms] that by (simp add: alone_inv_def)
  ultimately show ?thesis by blast
qed

lemma threads_end:
  assumes "crew_reachable N bye d" and "fault (core d) = None"
  obtains fs d' where "\<forall>e \<in> set fs. \<exists>i cs. e = C_Step i cs" and "crew_run N bye fs d = Some d'"
    and "all_joined d' \<and> fault (core d') = None \<or> fault (core d') = Some Relock \<and> N \<noteq> 1"
proof -
  have "finite (store (core d))" using stored.reach_inv crew_facts(2) assms(1) by blast
  from stop_completes [OF crew_facts(1) [OF assms(1)] this order_refl assms(2), of bye]
  obtain fs d' where fs: "\<forall>e \<in> set fs. \<exists>i cs. e = C_Step i cs" "crew_run N bye fs d = Some d'"
    "fault (core d') = None \<longrightarrow> all_joined d'" by (elim exE conjE) (rule that)
  have "all_joined d' \<and> fault (core d') = None \<or> fault (core d') = Some Relock \<and> N \<noteq> 1"
    using crew_fault [OF crew_run_reachable [OF fs(2) assms(1)]] fs(3) by auto
  with fs(1,2) show thesis by (rule that)
qed

text \<open>C18: What \<open>main\<close> waits for when it joins its threads is bounded: when the event loop is stopped and
  no handler begins any more, then in whatever order the threads go on, they make at most as many steps
  as the instructions before them and the destructors of the connections still owned amount to. From
  wherever they are, some order of their remaining steps either brings all of them to the end of their
  code without a fault, and with one worker it always does, or, with more than one, has a destructor
  lock the mutex that its own thread holds.\<close>

theorem threads_join:
  assumes "crew_reachable N bye d" and "crew_run N bye es d = Some d'"
    and "\<forall>e \<in> set es. \<exists>i cs. e = C_Step i cs" and "fault (core d') = None"
  shows "length es \<le> stop_bound N d \<and>
    (\<exists>fs d''. (\<forall>e \<in> set fs. \<exists>i cs. e = C_Step i cs) \<and> crew_run N bye fs d' = Some d'' \<and>
      (all_joined d'' \<and> fault (core d'') = None \<or> fault (core d'') = Some Relock \<and> N \<noteq> 1))"
proof -
  have "finite (store (core d))" using stored.reach_inv crew_facts(2) assms(1) by blast
  then have "length es \<le> stop_bound N d"
    using stop_run [OF crew_facts(1) [OF assms(1)] _ order_refl assms(2-4)] by (simp add: stop_bound_def)
  moreover have "crew_reachable N bye d'" by (rule crew_run_reachable [OF assms(2,1)])
  ultimately show ?thesis using threads_end [OF _ assms(4), of N bye] by metis
qed

theorem threads_join_witness:
  "\<exists>d es d'. crew_reachable 2 goodbye d \<and> crew_run 2 goodbye es d = Some d' \<and> es \<noteq> [] \<and>
     (\<forall>e \<in> set es. \<exists>i cs. e = C_Step i cs) \<and> code (core d) 0 =
       [Release ann, Unlock_Shared, Start ann, Release ann, Leave_Strand ann] \<and> (all_joined d' \<or> fault (core d') = Some Relock)"
proof -
  obtain d where d: "crew_reachable 2 goodbye d" "fault (core d) = None"
    "code (core d) 0 = [Release ann, Unlock_Shared, Start ann, Release ann, Leave_Strand ann]" by (rule ann_crew)
  have "crew_run 2 goodbye [] d = Some d" by simp
  from threads_join [OF d(1) this _ d(2)] obtain fs d'' where fs: "\<forall>e \<in> set fs. \<exists>i cs. e = C_Step i cs"
    "crew_run 2 goodbye fs d = Some d''" "all_joined d'' \<or> fault (core d'') = Some Relock" by auto
  have "fs \<noteq> []" using fs(2,3) d(2,3) by (auto simp: all_joined_def)
  then show ?thesis using d(1,3) fs by blast
qed

text \<open>After the joins \<open>main\<close> ends well however many threads there were: what they leave is a state of
  the chat with the same members, objects, queues, operations and histories; in whatever order the
  handlers that were never called are then destroyed, the destructors that run throw nothing and touch
  no destroyed connection, nothing more is written, and it takes a bounded number of steps; and it can
  always go on until no connection, no session and no accept is left.\<close>

lemma shutdown_after_joins:
  assumes "platform_ok P" and "crew_reachable N bye d" and "fault (core d) = None" and "all_joined d"
    and "set cs = client_set (core d)" and "distinct cs" and "\<forall>c \<in> store (core d). conn_index c < n"
    and "chat s = world_of P cs n d" and "http_inv s" and "stopped s"
  shows "mirrors 0 [] {} (chat s) d \<and>
    (\<forall>ds s'. drop_run P ds s = Some s' \<longrightarrow> length ds \<le> drop_bound s \<and> crash (chat s') = None \<and>
       no_dangling (chat s') \<and> (\<forall>c. wire (chat s') c = s_wire (strands d c))) \<and>
    (\<exists>ds s'. drop_run P ds s = Some s' \<and> nothing_left s')"
proof (intro conjI allI impI)
  have I: "drop_inv P s" by (rule joined_drop_inv(1) [OF assms(2-9)])
  show "mirrors 0 [] {} (chat s) d" by (rule joined_drop_inv(2) [OF assms(2-9)])
  show "\<exists>ds s'. drop_run P ds s = Some s' \<and> nothing_left s'" by (rule drop_completes [OF assms(1) I assms(10)])
  fix ds s' assume r: "drop_run P ds s = Some s'"
  note k = drop_run_inv [OF assms(1) r I]
  then have "memory_inv P (chat s')" by (simp add: drop_inv_def)
  then show "crash (chat s') = None" "no_dangling (chat s')" using memory_invD(1,3) by blast+
  show "length ds \<le> drop_bound s" "wire (chat s') c = s_wire (strands d c)" for c
    using k assms(8) by simp_all
qed

text \<open>Ann and Ben have joined, each on a thread of its own, and the loop is stopped.\<close>

lemma both_joined:
  obtains d where "crew_reachable 2 goodbye d" and "fault (core d) = None" and "all_joined d"
    and "client_set (core d) = {ann, ben}" and "store (core d) = {ann, ben}"
proof -
  obtain d where d: "crew_run 2 goodbye crew_blind crew0 = Some d"
    using crew_blind_run by (cases "crew_run 2 goodbye crew_blind crew0") auto
  have r: "crew_reachable 2 goodbye d" by (rule crew_run_reachable [OF d reach_init]) simp
  have f: "fault (core d) = None" "code (core d) 0 = []" "code (core d) 1 = []" "client_set (core d) = {ann, ben}"
    "store (core d) = {ann, ben}" using crew_blind_run d by simp_all
  have "code (core d) i = []" for i
  proof (cases "i < 2")
    case True
    then show ?thesis using f(2,3) by (auto simp: less_2_cases_iff)
  next
    case False
    have "strand_inv 2 (core d)" using crew_facts(1) [OF r] by (simp add: crew_inv_def)
    then show ?thesis using strand_invD(3) False by simp
  qed
  then show thesis using that [OF r f(1) _ f(4,5)] by (simp add: all_joined_def)
qed

lemma shutdown_after_joins_instance:
  "\<exists>d s ds s'. client_set (core d) = {ann, ben} \<and> chat s = world_of demo [ann, ben] 2 d \<and>
     drop_run demo ds s = Some s' \<and> nothing_left s'"
proof -
  obtain d where d: "crew_reachable 2 goodbye d" "fault (core d) = None" "all_joined d"
    "client_set (core d) = {ann, ben}" "store (core d) = {ann, ben}" by (rule both_joined)
  let ?s = "\<lparr>chat = world_of demo [ann, ben] 2 d, sessions = (\<lambda>_. None), next_sess = 0, listening = True,
    listener_accepts = 1, accept_exec = Strand 0, next_strand = 1, conn_exec = (\<lambda>_. Io_Context), cerr = [], stopped = True, gone = []\<rparr>"
  have "http_inv ?s" by (simp add: http_inv_def)
  from shutdown_after_joins [OF demo_ok d(1-3) _ _ _ _ this, of "[ann, ben]" 2]
  have "\<exists>ds s'. drop_run demo ds ?s = Some s' \<and> nothing_left s'" using d(4,5) by simp
  then show ?thesis using d(4) by (intro exI [of _ d] exI [of _ ?s]) simp
qed

end
