(* ===== verification/Lockstep_Properties.thy ===== *)
theory Lockstep_Properties
  imports Lockstep Demo
begin

text \<open>
  The property that relates the two models of the server, with an instance at the demo run.
\<close>

text \<open>C10: The two models of the server agree: from a state of the worker pool with the members, objects,
  queues, operations and histories of the chat, a thread that takes any event of the chat has no exception
  to let out, and if it is not interrupted it can execute the code of its handler, broadcasts and
  destructors included, to its end; and whenever it has executed it to its end, in whatever order its
  loops visited the set, the pool agrees in all of these with what the handler makes of the chat.\<close>

theorem handler_uninterrupted:
  assumes "platform_ok P" and "reachable P w" and "enabled e w"
    and "crew_reaches N d" and "mirrors i [] {} w d" and "i < N"
  shows "\<exists>b. lead i P e w = Inr b \<and>
    (\<exists>css d'. crew_run N (parting P w) (b # map (C_Step i) css) d = Some d' \<and> code (core d') i = []) \<and>
    (\<forall>css d'. crew_run N (parting P w) (b # map (C_Step i) css) d = Some d' \<longrightarrow>
      code (core d') i = [] \<longrightarrow> crew_reaches N d' \<and> mirrors i [] {} (exec P e w) d')"
proof -
  have I: "crew_inv N d" by (rule timed.reach_inv [OF assms(4)])
  obtain b css d' where b: "lead i P e w = Inr b" and r: "crew_run N (parting P w) (b # map (C_Step i) css) d = Some d'"
    and m: "mirrors i [] {} (exec P e w) d'"
    using lockstep [OF assms(1) reachable_inv [OF assms(1,2)] assms(3,5) I assms(6)]
    unfolding leads_to_def by blast
  have c: "code (core d') i = []" using mirrorsD(1) [OF m] by simp
  have "d'' = d'" if "crew_run N (parting P w) (b # map (C_Step i) css') d = Some d''"
    and "code (core d'') i = []" for css' d''
    by (rule solo_after [OF I r c that])
  then show ?thesis using b r m c crew_run_reaches [OF _ assms(4)] by blast
qed

theorem handler_uninterrupted_witness:
  "\<exists>d. crew_reaches 2 d \<and> outbox (core d) alice = [text_a] \<and>
     (\<exists>css d'. crew_run 2 (parting demo (opened demo demo2))
        (C_Begin 1 (Accept_Ok bob text_b) # map (C_Step 1) css) d = Some d' \<and> code (core d') 1 = []) \<and>
     (\<forall>css d'. crew_run 2 (parting demo (opened demo demo2))
        (C_Begin 1 (Accept_Ok bob text_b) # map (C_Step 1) css) d = Some d' \<longrightarrow> code (core d') 1 = [] \<longrightarrow>
        outbox (core d') alice = [text_a, text_b] \<and> client_set (core d') = {alice, bob})"
proof -
  have i: "(1 :: nat) < 2" by simp
  let ?w = "opened demo demo2"
  obtain d where d: "crew_reaches 2 d" "mirrors 1 [] {} ?w d"
    using chat_in_crew [OF demo_ok reach3 i] by blast
  have e: "enabled (Accepted bob Success) ?w" by (simp add: world_simps)
  have b: "lead 1 demo (Accepted bob Success) ?w = Inr (C_Begin 1 (Accept_Ok bob text_b))"
    using text_b by (simp add: world_simps)
  note u = handler_uninterrupted [OF demo_ok reach3 e d i, unfolded b exec4 sum.inject]
  have "outbox (core d') alice = [text_a, text_b] \<and> client_set (core d') = {alice, bob}"
    if "mirrors 1 [] {} demo4 d'" for d'
    using mirrorsD(1) [OF that] by (auto simp: world_simps)
  moreover have "outbox (core d) alice = [text_a]" using mirrorsD(1) [OF d(2)] by (auto simp: world_simps)
  ultimately show ?thesis using u d(1) by blast
qed

end
