(* ===== verification/Sockets.thy ===== *)
theory Sockets
  imports Sessions
begin

text \<open>
  The strands of the sockets. \<open>Listener\<close> calls \<open>net::make_strand\<close> for every socket it is going to accept,
  and the socket keeps its executor as it passes from the listener to a session and on to a connection.
  So everything that completes on one socket completes on a strand of its own.
\<close>

section \<open>Who holds a socket\<close>

datatype holder = Acceptor | Session sess | Connection conn

text \<open>The executor of the socket of a holder; the acceptor holds the one to come.\<close>

fun executor_of :: "holder \<Rightarrow> system \<Rightarrow> executor option" where
  "executor_of Acceptor s = (if listener_accepts s > 0 then Some (accept_exec s) else None)"
| "executor_of (Session h) s = map_option socket_exec (sessions s h)"
| "executor_of (Connection c) s =
     (if conn_index c < next_conn (chat s) then Some (conn_exec s c) else None)"

definition own_strands :: "system \<Rightarrow> bool" where
  "own_strands s \<longleftrightarrow> (\<forall>a x. executor_of a s = Some x \<longrightarrow> (\<exists>k < next_strand s. x = Strand k)) \<and>
     (\<forall>a b x. executor_of a s = Some x \<longrightarrow> executor_of b s = Some x \<longrightarrow> a = b)"

lemma own_strandsD:
  assumes "own_strands s" and "executor_of a s = Some x"
  shows "\<exists>k < next_strand s. x = Strand k" and "executor_of b s = Some x \<Longrightarrow> a = b"
  using assms by (auto simp: own_strands_def)

text \<open>Sockets change hands, and the acceptor may get a new strand.\<close>

lemma own_strands_move:
  assumes I: "own_strands s" and g: "inj g" and n: "next_strand s \<le> next_strand t"
    and h: "\<And>a x. executor_of a t = Some x \<Longrightarrow> executor_of (g a) s = Some x \<or>
      a = Acceptor \<and> x = Strand (next_strand s) \<and> next_strand s < next_strand t"
  shows "own_strands t"
  unfolding own_strands_def
proof (intro conjI allI impI)
  show "\<exists>k < next_strand t. x = Strand k" if "executor_of a t = Some x" for a x
    using h [OF that] own_strandsD(1) [OF I, of "g a" x] n by fastforce
  show "a = b" if "executor_of a t = Some x" "executor_of b t = Some x" for a b x
  proof (cases "x = Strand (next_strand s)")
    case True
    have "executor_of c s \<noteq> Some x" for c using own_strandsD(1) [OF I, of c x] True by auto
    then show ?thesis using h [OF that(1)] h [OF that(2)] by blast
  next
    case False
    then have "g a = g b" using h [OF that(1)] h [OF that(2)] own_strandsD(2) [OF I] by blast
    then show ?thesis using g by (simp add: inj_eq)
  qed
qed

lemma own_strands_less:
  assumes "own_strands s" and "next_strand t = next_strand s"
    and "\<And>a x. executor_of a t = Some x \<Longrightarrow> executor_of a s = Some x"
  shows "own_strands t"
  by (rule own_strands_move [OF assms(1), of id]) (use assms(2,3) in auto)

section \<open>The steps of the process\<close>

lemma gone_strands: "own_strands s \<Longrightarrow> own_strands (gone_as h x s)"
  by (erule own_strands_less, simp add: world_simps)
     (rename_tac a y, case_tac a, auto simp: world_simps split: if_splits)

lemma put_strands:
  assumes "own_strands s" and "map_option socket_exec (sessions s h) = Some (socket_exec x)"
  shows "own_strands (put_session h x s)"
  by (rule own_strands_less [OF assms(1)], simp add: world_simps)
     (use assms(2) in \<open>rename_tac a y, case_tac a, auto simp: world_simps split: if_splits\<close>)

lemma log_strands: "own_strands (log_fail ec w s) = own_strands s"
proof -
  have "executor_of a (log_fail ec w s) = executor_of a s" for a by (cases a) (simp_all add: world_simps)
  then show ?thesis by (simp add: own_strands_def world_simps)
qed

lemma swap_inj: "inj (\<lambda>a. if a = c then d else if a = d then c else a)"
  by (auto simp: inj_def split: if_splits)

lemma accepted_strands:
  assumes I: "own_strands s" and H: "http_inv s" and e: "sys_enabled (Listener_Accepted ec) s"
  shows "own_strands (sys_exec P (Listener_Accepted ec) s)"
proof (cases "ec = Success")
  case True
  let ?n = "Session (Sess (next_sess s))" and ?t = "sys_exec P (Listener_Accepted ec) s"
  show ?thesis
  proof (rule own_strands_move [OF I swap_inj [of Acceptor ?n]])
    show "next_strand s \<le> next_strand ?t" by (simp add: True sys_exec_accepted world_simps)
    show "executor_of (if a = Acceptor then ?n else if a = ?n then Acceptor else a) s = Some x \<or>
        a = Acceptor \<and> x = Strand (next_strand s) \<and> next_strand s < next_strand ?t"
      if "executor_of a ?t = Some x" for a x
      using that e True by (cases a) (auto simp: sys_exec_accepted world_simps split: if_splits)
  qed
next
  case False
  show ?thesis
    by (rule own_strands_less [OF I], simp_all add: False sys_exec_accepted world_simps)
       (rename_tac a x, case_tac a, auto simp: False sys_exec_accepted world_simps split: if_splits)
qed

lemma read_strands:
  assumes P: "platform_ok P" and W: "world_inv P [] (chat s)" and I: "own_strands s" and H: "http_inv s"
    and e: "sys_enabled (Http_Read h ec req) s"
  shows "own_strands (sys_exec P (Http_Read h ec req) s)"
proof -
  obtain k where f: "sessions s h = Some (fresh_session k)" by (rule read_enabled [OF H e])
  note ex = sys_exec_read [OF f, where P = P]
  let ?t = "sys_exec P (Http_Read h ec req) s"
  have nx: "next_conn (exec P Open (chat s)) = Suc (next_conn (chat s))"
    using exec_next_conn [OF P W, of Open] by simp
  show ?thesis
  proof (cases "ec = Success \<and> is_upgrade req")
    case True
    let ?n = "Connection (Conn (next_conn (chat s)))"
    have t: "?t = (gone_as h ((fresh_session k)\<lparr>parser := Some Moved_From, http_reads := 0, released := True\<rparr>) s)
        \<lparr>chat := exec P Open (chat s), conn_exec := (conn_exec s)(Conn (next_conn (chat s)) := k)\<rparr>"
      using True ex(1) by simp
    show ?thesis
    proof (rule own_strands_move [OF I swap_inj [of ?n "Session h"]])
      show "next_strand s \<le> next_strand ?t" by (simp add: t world_simps)
      show "executor_of (if a = ?n then Session h else if a = Session h then ?n else a) s = Some x \<or>
          a = Acceptor \<and> x = Strand (next_strand s) \<and> next_strand s < next_strand ?t"
        if "executor_of a ?t = Some x" for a x
      proof (cases a)
        case (Connection c)
        then show ?thesis using that f nx unfolding t
          by (cases c) (auto simp: world_simps simp del: exec.simps split: if_splits)
      qed (use that f in \<open>auto simp: t world_simps split: if_splits\<close>)
    qed
  next
    case False
    consider "ec = Success" "\<not> is_upgrade req" | "ec = End_Of_Stream" | "ec \<noteq> Success" "ec \<noteq> End_Of_Stream"
      using False by blast
    then show ?thesis
      by cases (simp_all add: ex f put_strands [OF I] gone_strands log_strands I)
  qed
qed

lemma written_strands:
  assumes I: "own_strands s" and H: "http_inv s" and e: "sys_enabled (Http_Written h ec) s"
  shows "own_strands (sys_exec P (Http_Written h ec) s)"
proof -
  obtain k req where f: "sessions s h = Some ((fresh_session k)\<lparr>parser := Some Moved_From, http_reads := 0,
    http_writes := [(handle_request req, keep_alive req)]\<rparr>)" by (rule write_enabled [OF H e])
  show ?thesis
    by (cases "ec = Success")
       (simp_all add: sys_exec_written [OF f] f put_strands [OF I] gone_strands log_strands I)
qed

lemma ws_strands:
  assumes P: "platform_ok P" and W: "world_inv P [] (chat s)" and I: "own_strands s"
    and e: "sys_enabled (Ws f) s"
  shows "own_strands (sys_exec P (Ws f) s)"
proof (rule own_strands_less [OF I])
  have "next_conn (exec P f (chat s)) = next_conn (chat s)" using exec_next_conn [OF P W, of f] e by simp
  then show "executor_of a (sys_exec P (Ws f) s) = Some x \<Longrightarrow> executor_of a s = Some x" for a x
    by (cases a) (simp_all del: exec.simps split: if_splits)
qed (simp del: exec.simps)

lemma sys_exec_strands:
  assumes "platform_ok P" and "world_inv P [] (chat s)" and "http_inv s" and "own_strands s"
    and "sys_enabled e s"
  shows "own_strands (sys_exec P e s)"
proof (cases e)
  case Signal
  then show ?thesis using assms(4) by (auto intro!: own_strands_less [OF assms(4)] elim: executor_of.elims)
qed (use assms accepted_strands read_strands written_strands ws_strands in \<open>auto simp del: sys_exec.simps sys_enabled.simps\<close>)

lemma booted_strands: "own_strands (booted o_ec s_ec b_ec l_ec)"
proof -
  let ?b = "booted o_ec s_ec b_ec l_ec"
  have b: "accept_exec ?b = Strand 0 \<and> next_strand ?b = 1 \<and> sessions ?b = (\<lambda>_. None)"
    by (simp add: booted_def listener_defs listener_new_def listener_fail_def log_fail_def)
  have "executor_of a ?b = Some x \<Longrightarrow> a = Acceptor \<and> x = Strand 0" for a x
    by (cases a) (auto simp: b world_simps world0_def split: if_splits)
  with b show ?thesis unfolding own_strands_def by (metis zero_less_one)
qed

interpretation sockets: invariant_system boot_state "sys_step P"
  "\<lambda>s. platform_ok P \<longrightarrow> world_inv P [] (chat s) \<and> http_inv s \<and> linked s \<and> own_strands s" for P :: "'j platform"
proof
  fix s e t
  show "boot_state s \<Longrightarrow> platform_ok P \<longrightarrow> world_inv P [] (chat s) \<and> http_inv s \<and> linked s \<and> own_strands s"
    using whole.inv_init [of s P] booted_strands by (auto simp: boot_state_def)
  assume "platform_ok P \<longrightarrow> world_inv P [] (chat s) \<and> http_inv s \<and> linked s \<and> own_strands s"
    and st: "sys_step P s e t"
  then show "platform_ok P \<longrightarrow> world_inv P [] (chat t) \<and> http_inv t \<and> linked t \<and> own_strands t"
    using whole.inv_step [of P s e t] sys_exec_strands [of P s e] by (auto simp: sys_step_iff)
qed

end
