(* ===== verification/Main_Workers.thy ===== *)
theory Main_Workers
  imports Joined Boot Traffic Sockets
begin

text \<open>
  The whole process with several worker threads: the listener and the HTTP sessions of \<open>Program\<close> and the
  connections and threads of \<open>Crew\<close> run side by side, and meet where a session hands its socket to a new
  connection. Then \<open>main\<close> with its threads, from its arguments to its exit status.
\<close>

section \<open>State and steps\<close>

text \<open>
  \<open>front\<close> is the listener and the sessions; of the connections its \<open>chat\<close> only knows those that were made,
  each as it was then. What becomes of them is in \<open>team\<close>. \<open>escaped\<close> is an exception that left a handler of
  a connection or a destructor, which ends the process.
\<close>

record multi_system =
  front :: system
  team :: crew
  escaped :: "exn option"

text \<open>
  An idle thread runs a handler of the listener or of a session, or the signal handler (\<open>Front\<close>): it
  shares nothing with other handlers that run, so it is one step. An idle thread begins the handler of
  a completed operation of a connection (\<open>Work\<close>), for which the clock shows \<open>t\<close>; or a busy one makes a
  step (\<open>Go\<close>).
\<close>

datatype multi_event =
    Front nat sys_event
  | Work nat event nat
  | Go nat "conn list"

fun hands_over :: "sys_event \<Rightarrow> bool" where
  "hands_over (Http_Read h ec req) \<longleftrightarrow> ec = Success \<and> is_upgrade req"
| "hands_over _ \<longleftrightarrow> False"

fun is_ws :: "sys_event \<Rightarrow> bool" where
  "is_ws (Ws f) \<longleftrightarrow> True"
| "is_ws _ \<longleftrightarrow> False"

text \<open>The connection of an event and the operation that completes; a new connection completes none.\<close>

fun event_conn :: "event \<Rightarrow> conn" where
  "event_conn Open = Conn 0"
| "event_conn (Accepted c ec) = c"
| "event_conn (Received c ec s junk) = c"
| "event_conn (Written c ec) = c"
| "event_conn (Posted c) = c"

fun completes :: "event \<Rightarrow> conn_ops \<Rightarrow> bool" where
  "completes Open q \<longleftrightarrow> False"
| "completes (Accepted c ec) q \<longleftrightarrow> accepts q > 0"
| "completes (Received c ec s junk) q \<longleftrightarrow> reads q > 0"
| "completes (Written c ec) q \<longleftrightarrow> writes q \<noteq> []"
| "completes (Posted c) q \<longleftrightarrow> posts q \<noteq> []"

text \<open>
  The handlers of a connection, the calls its \<open>send\<close> posts included, run on the executor of its socket: a
  strand keeps back a handler while another one runs on it, the \<open>io_context\<close> does not.
\<close>

definition executor_free :: "conn \<Rightarrow> multi_system \<Rightarrow> bool" where
  "executor_free c m \<longleftrightarrow> (case conn_exec (front m) c of
       Io_Context \<Rightarrow> True
     | Strand k \<Rightarrow> (\<forall>b \<in> busy (core (team m)). conn_exec (front m) b \<noteq> Strand k))"

text \<open>
  The disconnect message of \<open>c\<close>, whose destructor reads the clock at \<open>\<tau> c\<close>. The destructor runs when a
  thread gives up the last shared pointer; what is thrown out of it ends the program.
\<close>

definition farewells :: "'j platform \<Rightarrow> (conn \<Rightarrow> nat) \<Rightarrow> conn \<Rightarrow> string" where
  "farewells P \<tau> c = text_of (farewell_text P c (\<tau> c))"

definition destructor_escape :: "'j platform \<Rightarrow> (conn \<Rightarrow> nat) \<Rightarrow> nat \<Rightarrow> crew \<Rightarrow> exn option" where
  "destructor_escape P \<tau> i d = (case code (core d) i of
       Release c # k \<Rightarrow>
         if refs (core d) c = 1
         then (case farewell_text P c (\<tau> c) of Inl e \<Rightarrow> Some e | Inr u \<Rightarrow> None)
         else None
     | _ \<Rightarrow> None)"

text \<open>A stopped event loop begins no handler, but those that run go on.\<close>

fun multi_enabled :: "nat \<Rightarrow> 'j platform \<Rightarrow> multi_event \<Rightarrow> multi_system \<Rightarrow> bool" where
  "multi_enabled N P (Front i e) m \<longleftrightarrow> \<not> stopped (front m) \<and> i < N \<and> code (core (team m)) i = [] \<and>
     \<not> is_ws e \<and> sys_enabled e (front m)"
| "multi_enabled N P (Work i f t) m \<longleftrightarrow> \<not> stopped (front m) \<and> i < N \<and> code (core (team m)) i = [] \<and>
     completes f (s_ops (strands (team m) (event_conn f))) \<and> executor_free (event_conn f) m"
| "multi_enabled N P (Go i cs) m \<longleftrightarrow> crew_enabled N (C_Step i cs) (team m)"

fun multi_exec :: "'j platform \<Rightarrow> (conn \<Rightarrow> nat) \<Rightarrow> multi_event \<Rightarrow> multi_system \<Rightarrow> multi_system" where
  "multi_exec P \<tau> (Front i e) m = m\<lparr>front := sys_exec P e (front m),
     team := (if hands_over e
       then crew_exec (farewells P \<tau>) (C_New (Conn (next_conn (chat (front m))))) (team m)
       else team m)\<rparr>"
| "multi_exec P \<tau> (Work i f t) m =
     (case lead_at i P f t (next_conn (chat (front m))) of
        Inl e \<Rightarrow> m\<lparr>escaped := Some e\<rparr>
      | Inr b \<Rightarrow> m\<lparr>team := crew_exec (farewells P \<tau>) b (team m)\<rparr>)"
| "multi_exec P \<tau> (Go i cs) m =
     (case destructor_escape P \<tau> i (team m) of
        Some e \<Rightarrow> m\<lparr>escaped := Some e\<rparr>
      | None \<Rightarrow> m\<lparr>team := crew_exec (farewells P \<tau>) (C_Step i cs) (team m)\<rparr>)"

definition multi_ok :: "multi_system \<Rightarrow> bool" where
  "multi_ok m \<longleftrightarrow> crash (chat (front m)) = None \<and> escaped m = None \<and>
     fault (core (team m)) = None \<and> \<not> misuse (team m)"

inductive multi_step :: "nat \<Rightarrow> 'j platform \<Rightarrow> (conn \<Rightarrow> nat) \<Rightarrow> multi_system \<Rightarrow> multi_event \<Rightarrow> multi_system \<Rightarrow> bool"
  for N P \<tau> where
  multi_stepI: "multi_ok m \<Longrightarrow> multi_enabled N P e m \<Longrightarrow> multi_step N P \<tau> m e (multi_exec P \<tau> e m)"

inductive_simps multi_step_iff: "multi_step N P \<tau> m e m'"

definition multi_boot :: "multi_system \<Rightarrow> bool" where
  "multi_boot m \<longleftrightarrow> boot_state (front m) \<and> team m = crew0 \<and> escaped m = None"

abbreviation multi_reachable :: "nat \<Rightarrow> 'j platform \<Rightarrow> (conn \<Rightarrow> nat) \<Rightarrow> multi_system \<Rightarrow> bool" where
  "multi_reachable N P \<tau> m \<equiv> reach multi_boot (multi_step N P \<tau>) m"

fun multi_run :: "nat \<Rightarrow> 'j platform \<Rightarrow> (conn \<Rightarrow> nat) \<Rightarrow> multi_event list \<Rightarrow> multi_system \<Rightarrow> multi_system option" where
  "multi_run N P \<tau> [] m = Some m"
| "multi_run N P \<tau> (e # es) m =
     (if multi_ok m \<and> multi_enabled N P e m then multi_run N P \<tau> es (multi_exec P \<tau> e m) else None)"

section \<open>The program\<close>

text \<open>
  Starting a thread fails when the system has none left: the constructor of \<open>std::thread\<close> throws, in the
  loop of \<open>main\<close> or in the growth of the vector, and \<open>main\<close> catches nothing. \<open>thread_ec\<close> gives the outcome
  for each thread in turn; the threads that were started may have run handlers by then.
\<close>

definition thread_failure :: "(nat \<Rightarrow> error_code) \<Rightarrow> int \<Rightarrow> exn option" where
  "thread_failure thread_ec workers =
     (if list_all (\<lambda>j. thread_ec j = Success) [0..<spawn_threads (workers - 1) 0] then None
      else Some (Library_Error ''std::thread''))"

text \<open>
  \<open>main\<close> with its threads. \<open>None\<close> when the events are not a complete execution, as in \<open>main_program\<close>, and
  when a thread has not come to its end: \<open>main\<close> waits for it, for ever if it waits for a mutex it holds.
  \<open>cs\<close> is the order of \<open>clients_\<close> during the destruction.
\<close>

definition multi_start :: "system_calls \<Rightarrow> multi_system" where
  "multi_start E = \<lparr>front = main_listener E, team = crew0, escaped = None\<rparr>"

definition after_joins :: "'j platform \<Rightarrow> conn list \<Rightarrow> multi_system \<Rightarrow> system" where
  "after_joins P cs m = (front m)\<lparr>chat := world_of P cs (next_conn (chat (front m))) (team m)\<rparr>"

text \<open>The first exception that left a handler, of a session or of a connection, or a destructor.\<close>

definition uncaught :: "multi_system \<Rightarrow> exn option" where
  "uncaught m = (case crash (chat (front m)) of Some e \<Rightarrow> Some e | None \<Rightarrow> escaped m)"

definition main_workers_program :: "'j platform \<Rightarrow> (string \<Rightarrow> exn + 'ip) \<Rightarrow> (conn \<Rightarrow> nat) \<Rightarrow> system_calls \<Rightarrow>
    (nat \<Rightarrow> error_code) \<Rightarrow> multi_event list \<Rightarrow> conn list \<Rightarrow> drop_event list \<Rightarrow> string list \<Rightarrow>
    'ip ending option" where
  "main_workers_program P mk \<tau> E thread_ec es cs ds argv =
     (case main_start mk argv of
        Die msg \<Rightarrow> Some (die msg)
      | Escape e \<Rightarrow> Some (Terminated e)
      | Start ip port workers \<Rightarrow>
        (case thread_failure thread_ec workers of
           Some e \<Rightarrow> Some (Terminated e)
         | None \<Rightarrow>
          (case multi_run (running_threads workers) P \<tau> es (multi_start E) of
             None \<Rightarrow> None
           | Some m \<Rightarrow>
             (case uncaught m of
                Some e \<Rightarrow> Some (Terminated e)
              | None \<Rightarrow>
                if fault (core (team m)) \<noteq> None \<or> \<not> stopped (front m) \<or>
                   (\<exists>i \<in> set [0..<running_threads workers]. code (core (team m)) i \<noteq> []) \<or>
                   \<not> distinct cs \<or> set cs \<noteq> client_set (core (team m))
                then None
                else main_end P ds ip port (running_threads workers) [listening_on (argv ! 1)]
                  (after_joins P cs m)))))"

end
