(* ===== verification/Main_Workers_Safety.thy ===== *)
theory Main_Workers_Safety
  imports Main_Workers Hearing
begin

text \<open>
  The invariant of the process with several workers: that of the sessions and of the crew, that the
  connections in memory are among those that were handed over, and that every text is one the codec
  wrote. Its two parts simulate the systems they were taken from.
\<close>

section \<open>Texts\<close>

fun instr_text :: "instr \<Rightarrow> string option" where
  "instr_text (Send c s) = Some s"
| "instr_text (Loop s) = Some s"
| "instr_text (Visit s c) = Some s"
| "instr_text _ = None"

definition typed_code :: "(string \<Rightarrow> bool) \<Rightarrow> instr list \<Rightarrow> bool" where
  "typed_code T k \<longleftrightarrow> (\<forall>x \<in> set k. pred_option T (instr_text x))"

definition typed_pool :: "(string \<Rightarrow> bool) \<Rightarrow> pool \<Rightarrow> bool" where
  "typed_pool T p \<longleftrightarrow> (\<forall>i. typed_code T (code p i)) \<and> (\<forall>c. \<forall>s \<in> set (outbox p c). T s)"

lemma typed_code_simps [simp]:
  "typed_code T []" "typed_code T (x # k) \<longleftrightarrow> pred_option T (instr_text x) \<and> typed_code T k"
  "typed_code T (k @ l) \<longleftrightarrow> typed_code T k \<and> typed_code T l"
  by (auto simp: typed_code_def)

lemma typed_visits: "T s \<Longrightarrow> typed_code T (map (Visit s) cs)"
  by (auto simp: typed_code_def)

lemma typed_destructor: "T s \<Longrightarrow> typed_code T (destructor_code c s)"
  by (simp add: destructor_code_def disconnect_code_def broadcast_code_def)

lemma typed_handler: "pred_option T (completion_text h) \<Longrightarrow> typed_code T (work_code (handler_work h q))"
  by (cases h) (auto simp: connect_code_def broadcast_code_def)

lemma typed_instr:
  assumes "typed_pool T p" and "code p i = x # k" and "\<And>c. T (bye c)"
  shows "typed_pool T (instr_step bye i cs x k p)"
proof -
  have "typed_code T (x # k)" using assms(1,2) unfolding typed_pool_def by metis
  then show ?thesis
    using assms(1,3) by (cases x) (auto simp: typed_pool_def typed_visits typed_destructor)
qed

lemma typed_crew_step:
  assumes t: "typed_pool T (core d)" and st: "crew_step N bye d e d'" and b: "\<And>c. T (bye c)"
    and e: "pred_option T (event_text e)"
  shows "typed_pool T (core d')"
proof (cases e)
  case (C_New c)
  then show ?thesis using t st by (auto simp: crew_step_iff typed_pool_def)
next
  case (C_Begin i h)
  then show ?thesis using t st e typed_handler [of T h]
    by (auto simp: crew_step_iff typed_pool_def Let_def)
next
  case (C_Step i cs)
  then obtain x k where x: "code (core d) i = x # k" using st by (auto simp: crew_step_iff split: list.splits)
  have "core d' = instr_step bye i cs x k (core d)" using st C_Step x by (simp add: crew_step_iff)
  then show ?thesis using typed_instr [OF t x b] by simp
qed

text \<open>What a handler is given to send, and what a destructor announces, was written by the codec.\<close>

lemma uuid_ascii: "platform_ok P \<Longrightarrow> ascii (random_uuid P n)"
  by (simp add: platform_ok_def)

lemma farewell_ok:
  assumes P: "platform_ok P"
  obtains u where "farewell_text P c t = Inr u" and "chat_text P u"
proof -
  obtain u where "system_text P Disconnect (random_uuid P (conn_index c)) t = Inr u"
    by (rule system_text_ok [OF P _ uuid_ascii [OF P], where a = Disconnect]) simp_all
  then show thesis using that chat_text_system [OF P] by (simp add: farewell_text_def)
qed

lemma farewell_typed: "platform_ok P \<Longrightarrow> chat_text P (farewells P \<tau> c)"
  using farewell_ok [of P c "\<tau> c"] by (metis farewells_def text_of_Inr)

text \<open>No destructor throws, and no handler lets an exception out.\<close>

lemma destructor_silent: "platform_ok P \<Longrightarrow> destructor_escape P \<tau> i d = None"
  using farewell_ok [of P]
  by (auto simp: destructor_escape_def split: list.splits instr.splits sum.splits) (metis sum.distinct(1))

lemma lead_ok:
  assumes P: "platform_ok P"
  shows "\<exists>b. lead_at i P f t n = Inr b \<and> pred_option (chat_text P) (event_text b)"
proof (cases f)
  case (Accepted c ec)
  obtain s where "system_text P Connect (random_uuid P (conn_index c)) t = Inr s"
    by (rule system_text_ok [OF P _ uuid_ascii [OF P], where a = Connect]) simp_all
  then show ?thesis using Accepted chat_text_system [OF P] by simp
next
  case (Received c ec s junk)
  have L: "json_laws (json P)" using P by (simp add: platform_ok_def)
  obtain u where bad: "system_text P Error ''bad message'' t = Inr u"
    by (rule system_text_ok [OF P]) (auto simp: ascii_def)
  show ?thesis
  proof (cases "message_of_string (json P) junk s")
    case (Inl e)
    then have "std_exception e" using message_of_string_error [OF L Inl] by auto
    then show ?thesis using Received Inl bad chat_text_system [OF P bad] by simp
  next
    case (Inr m)
    obtain t' where t': "serialize (json P) m = Inr t'" using codec.encode_decoded [OF L Inr] by blast
    then have "chat_text P t'" using chat_text_iff [OF P] by blast
    then show ?thesis using Received Inr t' by simp
  qed
qed simp_all

text \<open>The completion that a handler begins with is that of its event.\<close>

lemma lead_begin:
  assumes "lead_at i P f t n = Inr b" and "f \<noteq> Open"
  obtains h where "b = C_Begin i h" and "completion_conn h = event_conn f"
    and "\<And>q. outstanding h q \<longleftrightarrow> completes f q"
  using assms by (cases f) (auto split: if_splits sum.splits)

section \<open>The connections that were made\<close>

lemma crew_store:
  assumes "crew_step N bye d e d'"
  shows "store (core d') \<subseteq> store (core d) \<union> {c. e = C_New c}"
proof (cases e)
  case (C_Step i cs)
  then obtain x k where x: "code (core d) i = x # k" using assms by (auto simp: crew_step_iff split: list.splits)
  have "core d' = instr_step bye i cs x k (core d)" using assms C_Step x by (simp add: crew_step_iff)
  then show ?thesis by (cases x) auto
qed (use assms in \<open>auto simp: crew_step_iff Let_def\<close>)

lemma crew_busy:
  assumes "crew_step N bye d e d'"
  shows "busy (core d') \<subseteq> busy (core d) \<union> {c. \<exists>i h. e = C_Begin i h \<and> c = completion_conn h}"
proof (cases e)
  case (C_Step i cs)
  then obtain x k where x: "code (core d) i = x # k" using assms by (auto simp: crew_step_iff split: list.splits)
  have "core d' = instr_step bye i cs x k (core d)" using assms C_Step x by (simp add: crew_step_iff)
  then show ?thesis by (cases x) auto
qed (use assms in \<open>auto simp: crew_step_iff Let_def handler_work_conn\<close>)

lemma front_chat:
  "http_inv s \<Longrightarrow> \<not> is_ws e \<Longrightarrow> sys_enabled e s \<Longrightarrow>
     chat (sys_exec P e s) = (if hands_over e then exec P Open (chat s) else chat s)"
  by (cases e) (simp_all add: sys_exec_chat del: exec.simps sys_exec.simps)

text \<open>A connection with an operation outstanding is in memory.\<close>

lemma outstanding_stored:
  assumes I: "crew_inv N d" and f: "fault (core d) = None" and q: "op_count (s_ops (strands d c)) > 0"
  shows "c \<in> store (core d)"
proof -
  have R: "pool_inv N (core d)" and D: "data_inv d" using I f by (auto simp: crew_inv_def workers_inv_def)
  have "pending (core d) c > 0" using data_invD [OF D, of c] q by (simp add: conn_ok_def)
  then have "refs (core d) c > 0" using pool_invD(5) [OF R, of c] by simp
  then show ?thesis by (rule pool_invD(6) [OF R])
qed

lemma completes_count: "completes f q \<Longrightarrow> op_count q > 0"
  by (cases f) (auto simp: op_count_def)

section \<open>The invariant\<close>

definition multi_inv :: "nat \<Rightarrow> 'j platform \<Rightarrow> multi_system \<Rightarrow> bool" where
  "multi_inv N P m \<longleftrightarrow> platform_ok P \<and> world_inv P [] (chat (front m)) \<and> http_inv (front m) \<and>
     linked (front m) \<and> own_strands (front m) \<and> escaped m = None \<and>
     crew_inv N (team m) \<and> typed_pool (chat_text P) (core (team m)) \<and>
     (\<forall>c \<in> store (core (team m)) \<union> busy (core (team m)). conn_index c < next_conn (chat (front m)))"

lemma multi_invD:
  assumes "multi_inv N P m"
  shows "platform_ok P" and "world_inv P [] (chat (front m))" and "http_inv (front m)" and "linked (front m)"
    and "crew_inv N (team m)" and "typed_pool (chat_text P) (core (team m))"
    and "c \<in> store (core (team m)) \<Longrightarrow> conn_index c < next_conn (chat (front m))"
    and "own_strands (front m)" and "escaped m = None"
    and "c \<in> busy (core (team m)) \<Longrightarrow> conn_index c < next_conn (chat (front m))"
  using assms by (simp_all add: multi_inv_def)

text \<open>Every connection that was made has a strand of its own.\<close>

lemma conn_strand:
  assumes "multi_inv N P m" and "conn_index c < next_conn (chat (front m))"
  obtains k where "conn_exec (front m) c = Strand k"
    and "\<And>b. conn_index b < next_conn (chat (front m)) \<Longrightarrow> conn_exec (front m) b = Strand k \<Longrightarrow> b = c"
proof -
  note O = multi_invD(8) [OF assms(1)]
  have x: "executor_of (Connection c) (front m) = Some (conn_exec (front m) c)" using assms(2) by simp
  obtain k where k: "conn_exec (front m) c = Strand k" using own_strandsD(1) [OF O x] by blast
  show thesis
  proof (rule that [OF k])
    fix b assume "conn_index b < next_conn (chat (front m))" and "conn_exec (front m) b = Strand k"
    then have "executor_of (Connection b) (front m) = Some (conn_exec (front m) c)" using k by simp
    from own_strandsD(2) [OF O x this] show "b = c" by simp
  qed
qed

text \<open>So a handler begins exactly when no other handler of its connection runs.\<close>

lemma executor_free_iff:
  assumes "multi_inv N P m" and "conn_index c < next_conn (chat (front m))"
  shows "executor_free c m \<longleftrightarrow> c \<notin> busy (core (team m))"
proof -
  obtain k where k: "conn_exec (front m) c = Strand k"
    and u: "\<And>b. conn_index b < next_conn (chat (front m)) \<Longrightarrow> conn_exec (front m) b = Strand k \<Longrightarrow> b = c"
    by (rule conn_strand [OF assms]) blast
  show ?thesis using k u multi_invD(10) [OF assms(1)] by (auto simp: executor_free_def)
qed

text \<open>What each event is to the two parts.\<close>

lemma multi_front:
  assumes "multi_step N P \<tau> m e m'"
  shows "front m' = front m \<or> (\<exists>f. sys_step P (front m) f (front m'))"
  using assms by (cases e) (auto simp: multi_step_iff multi_ok_def sys_step_iff split: sum.splits option.splits)

lemma work_step:
  assumes I: "multi_inv N P m" and st: "multi_step N P \<tau> m (Work i f t) m'"
  obtains h where "lead_at i P f t (next_conn (chat (front m))) = Inr (C_Begin i h)"
    and "crew_step N (farewells P \<tau>) (team m) (C_Begin i h) (team m')" and "completion_conn h = event_conn f"
    and "pred_option (chat_text P) (event_text (C_Begin i h))" and "m' = m\<lparr>team := team m'\<rparr>"
    and "event_conn f \<in> store (core (team m))"
proof -
  have ok: "fault (core (team m)) = None" "\<not> misuse (team m)" and en: "multi_enabled N P (Work i f t) m"
    and m': "m' = multi_exec P \<tau> (Work i f t) m" using st by (auto simp: multi_step_iff multi_ok_def)
  have c: "completes f (s_ops (strands (team m) (event_conn f)))" and x: "executor_free (event_conn f) m"
    and i: "i < N" "code (core (team m)) i = []" using en by simp_all
  have f: "f \<noteq> Open" using c by auto
  obtain b where b: "lead_at i P f t (next_conn (chat (front m))) = Inr b" "pred_option (chat_text P) (event_text b)"
    using lead_ok [OF multi_invD(1) [OF I]] by metis
  obtain h where h: "b = C_Begin i h" "completion_conn h = event_conn f" "\<And>q. outstanding h q \<longleftrightarrow> completes f q"
    by (rule lead_begin [OF b(1) f]) (rule that)
  have s: "event_conn f \<in> store (core (team m))"
    by (rule outstanding_stored [OF multi_invD(5) [OF I] ok(1) completes_count [OF c]])
  have "event_conn f \<notin> busy (core (team m))"
    using x executor_free_iff [OF I multi_invD(7) [OF I s]] by simp
  then have "crew_enabled N (C_Begin i h) (team m)" using i c h(2,3) by simp
  then have "crew_step N (farewells P \<tau>) (team m) (C_Begin i h) (team m')"
    using ok m' b(1) h(1) by (simp add: crew_step_iff)
  then show thesis using that b h s m' by simp
qed

lemma multi_team:
  assumes I: "multi_inv N P m" and st: "multi_step N P \<tau> m e m'"
  shows "escaped m' = None" and
    "team m' = team m \<and> chat (front m') = chat (front m) \<or>
     crew_step N (farewells P \<tau>) (team m) (C_New (Conn (next_conn (chat (front m))))) (team m') \<and>
       chat (front m') = exec P Open (chat (front m)) \<or>
     (\<exists>b. crew_step N (farewells P \<tau>) (team m) b (team m') \<and> front m' = front m \<and> (\<forall>c. b \<noteq> C_New c) \<and>
       pred_option (chat_text P) (event_text b) \<and>
       (\<forall>i h. b = C_Begin i h \<longrightarrow> completion_conn h \<in> store (core (team m))))"
proof -
  note D = multi_invD [OF I]
  have ok: "fault (core (team m)) = None" "\<not> misuse (team m)" and en: "multi_enabled N P e m"
    and m': "m' = multi_exec P \<tau> e m" using st by (auto simp: multi_step_iff multi_ok_def)
  have "escaped m' = None \<and> (team m' = team m \<and> chat (front m') = chat (front m) \<or>
     crew_step N (farewells P \<tau>) (team m) (C_New (Conn (next_conn (chat (front m))))) (team m') \<and>
       chat (front m') = exec P Open (chat (front m)) \<or>
     (\<exists>b. crew_step N (farewells P \<tau>) (team m) b (team m') \<and> front m' = front m \<and> (\<forall>c. b \<noteq> C_New c) \<and>
       pred_option (chat_text P) (event_text b) \<and>
       (\<forall>i h. b = C_Begin i h \<longrightarrow> completion_conn h \<in> store (core (team m)))))"
  proof (cases e)
    case (Front i f)
    show ?thesis
    proof (cases "hands_over f")
      case True
      let ?n = "next_conn (chat (front m))"
      have "Conn ?n \<notin> store (core (team m))" using D(7) [of "Conn ?n"] by auto
      then have "crew_step N (farewells P \<tau>) (team m) (C_New (Conn ?n)) (team m')"
        using ok m' Front True by (simp add: crew_step_iff)
      moreover have "chat (front m') = exec P Open (chat (front m))"
        using en m' Front True front_chat [OF D(3), of f P] by simp
      ultimately show ?thesis using D(9) m' Front by simp
    next
      case False
      then show ?thesis using en m' Front D(9) front_chat [OF D(3), of f P] by simp
    qed
  next
    case (Work i f t)
    obtain h where "crew_step N (farewells P \<tau>) (team m) (C_Begin i h) (team m')"
      and "completion_conn h = event_conn f" and "pred_option (chat_text P) (event_text (C_Begin i h))"
      and same: "m' = m\<lparr>team := team m'\<rparr>" and "event_conn f \<in> store (core (team m))"
      by (rule work_step [OF I st [unfolded Work]])
    moreover have "front m' = front m" "escaped m' = None"
      using same D(9) by (metis multi_system.select_convs(1,3) multi_system.surjective multi_system.update_convs(2))+
    ultimately show ?thesis by (intro conjI disjI2 exI [of _ "C_Begin i h"]) auto
  next
    case (Go i cs)
    have m'': "m' = m\<lparr>team := crew_exec (farewells P \<tau>) (C_Step i cs) (team m)\<rparr>"
      using m' Go destructor_silent [OF D(1)] by simp
    then have "crew_step N (farewells P \<tau>) (team m) (C_Step i cs) (team m')"
      using ok en Go by (simp add: crew_step_iff)
    then show ?thesis using m'' D(9) by (intro conjI disjI2 exI [of _ "C_Step i cs"]) simp_all
  qed
  then show "escaped m' = None" and "team m' = team m \<and> chat (front m') = chat (front m) \<or>
     crew_step N (farewells P \<tau>) (team m) (C_New (Conn (next_conn (chat (front m))))) (team m') \<and>
       chat (front m') = exec P Open (chat (front m)) \<or>
     (\<exists>b. crew_step N (farewells P \<tau>) (team m) b (team m') \<and> front m' = front m \<and> (\<forall>c. b \<noteq> C_New c) \<and>
       pred_option (chat_text P) (event_text b) \<and>
       (\<forall>i h. b = C_Begin i h \<longrightarrow> completion_conn h \<in> store (core (team m))))" by blast+
qed

lemma multi_step_inv:
  assumes I: "multi_inv N P m" and st: "multi_step N P \<tau> m e m'"
  shows "multi_inv N P m'"
proof -
  note D = multi_invD [OF I]
  have "platform_ok P \<longrightarrow> world_inv P [] (chat (front m')) \<and> http_inv (front m') \<and> linked (front m') \<and>
      own_strands (front m')"
    using multi_front [OF st] sockets.inv_step [of P "front m"] D(2-4,8) by auto
  then have F: "world_inv P [] (chat (front m'))" "http_inv (front m')" "linked (front m')" "own_strands (front m')"
    using D(1) by simp_all
  have nx: "next_conn (exec P Open (chat (front m))) = Suc (next_conn (chat (front m)))"
    using exec_next_conn [OF D(1,2), of Open] by simp
  have "crew_inv N (team m') \<and> typed_pool (chat_text P) (core (team m')) \<and>
    (\<forall>c \<in> store (core (team m')) \<union> busy (core (team m')). conn_index c < next_conn (chat (front m')))"
    using multi_team(2) [OF I st]
  proof (elim disjE exE conjE)
    assume "team m' = team m" and "chat (front m') = chat (front m)"
    then show ?thesis using D(5-7,10) by auto
  next
    assume c: "crew_step N (farewells P \<tau>) (team m) (C_New (Conn (next_conn (chat (front m))))) (team m')"
      and w: "chat (front m') = exec P Open (chat (front m))"
    have "typed_pool (chat_text P) (core (team m'))"
      by (rule typed_crew_step [OF D(6) c farewell_typed [OF D(1)]]) simp
    moreover have "conn_index b < next_conn (chat (front m'))"
      if "b \<in> store (core (team m')) \<union> busy (core (team m'))" for b
      using that crew_store [OF c] crew_busy [OF c] D(7,10) [of b] unfolding w nx by (auto simp: less_Suc_eq)
    ultimately show ?thesis using crew_step_inv [OF D(5) c] by blast
  next
    fix b
    assume c: "crew_step N (farewells P \<tau>) (team m) b (team m')" and w: "front m' = front m"
      and b: "\<forall>c. b \<noteq> C_New c" "pred_option (chat_text P) (event_text b)"
        "\<forall>i h. b = C_Begin i h \<longrightarrow> completion_conn h \<in> store (core (team m))"
    have "conn_index a < next_conn (chat (front m'))"
      if "a \<in> store (core (team m')) \<union> busy (core (team m'))" for a
      using that crew_store [OF c] crew_busy [OF c] D(7,10) [of a] b(1,3) w by auto
    then show ?thesis
      using crew_step_inv [OF D(5) c] typed_crew_step [OF D(6) c farewell_typed [OF D(1)] b(2)] by blast
  qed
  then show ?thesis using D(1) F multi_team(1) [OF I st] by (simp add: multi_inv_def)
qed

lemma multi_boot_inv:
  assumes P: "platform_ok P" and b: "multi_boot m"
  shows "multi_inv N P m"
proof -
  have "world_inv P [] (chat (front m)) \<and> http_inv (front m) \<and> linked (front m) \<and> own_strands (front m)"
    using sockets.inv_init [of "front m" P] b P by (simp add: multi_boot_def)
  moreover have "typed_pool (chat_text P) (core crew0)" "store (core crew0) = {}" "busy (core crew0) = {}"
    by (simp_all add: typed_pool_def crew0_def pool0_def)
  ultimately show ?thesis using P b crew_inv0 by (simp add: multi_inv_def multi_boot_def)
qed

interpretation multi_front: simulation "\<lambda>m. platform_ok P \<and> multi_boot m" "multi_step N P \<tau>" "multi_inv N P"
  boot_state "sys_step P" front for N :: nat and P :: "'j platform" and \<tau> :: "conn \<Rightarrow> nat"
  by unfold_locales (auto simp: multi_boot_inv multi_boot_def dest: multi_step_inv multi_front)

interpretation multi_team: simulation "\<lambda>m. platform_ok P \<and> multi_boot m" "multi_step N P \<tau>" "multi_inv N P"
  "\<lambda>d. d = crew0" "crew_step N (farewells P \<tau>)" team
  for N :: nat and P :: "'j platform" and \<tau> :: "conn \<Rightarrow> nat"
proof
  fix m e m'
  show "platform_ok P \<and> multi_boot m \<Longrightarrow> team m = crew0" by (simp add: multi_boot_def)
  show "multi_inv N P m \<Longrightarrow> multi_step N P \<tau> m e m' \<Longrightarrow>
      team m' = team m \<or> (\<exists>f. crew_step N (farewells P \<tau>) (team m) f (team m'))"
    using multi_team(2) by blast
qed

text \<open>So a reachable process consists of reachable parts.\<close>

lemma multi_parts:
  assumes "platform_ok P" and "multi_reachable N P \<tau> m"
  shows "multi_inv N P m" and "sys_reachable P (front m)" and "crew_reachable N (farewells P \<tau>) (team m)"
  using assms multi_front.reach_inv [of P N \<tau> m] multi_front.reach_image [of P N \<tau> m]
    multi_team.reach_image [of P N \<tau> m] by simp_all

section \<open>Runs\<close>

lemma multi_run_reachable:
  "multi_run N P \<tau> es m = Some m' \<Longrightarrow> multi_reachable N P \<tau> m \<Longrightarrow> multi_reachable N P \<tau> m'"
proof (induction es arbitrary: m)
  case Nil
  then show ?case by simp
next
  case (Cons e es)
  then have "multi_step N P \<tau> m e (multi_exec P \<tau> e m)" by (simp add: multi_step_iff split: if_splits)
  then have "multi_reachable N P \<tau> (multi_exec P \<tau> e m)" using Cons.prems(2) reach_step by fastforce
  then show ?case using Cons by (simp split: if_splits)
qed

lemma multi_run_append:
  "multi_run N P \<tau> (es @ fs) m = Option.bind (multi_run N P \<tau> es m) (multi_run N P \<tau> fs)"
  by (induction es arbitrary: m) auto

lemma multi_start_reachable: "multi_reachable N P \<tau> (multi_start E)"
  by (rule reach_init) (auto simp: multi_boot_def multi_start_def boot_state_def main_listener_def)

text \<open>The threads of the process go on as those of the crew do.\<close>

lemma multi_goes:
  assumes "platform_ok P" and "crash (chat (front m)) = None" and "escaped m = None" and "crew_run N (farewells P \<tau>) fs (team m) = Some d"
    and "\<forall>e \<in> set fs. \<exists>i cs. e = C_Step i cs"
  shows "\<exists>es. (\<forall>e \<in> set es. \<exists>i cs. e = Go i cs) \<and> multi_run N P \<tau> es m = Some (m\<lparr>team := d\<rparr>)"
  using assms
proof (induction fs arbitrary: m)
  case Nil
  then show ?case by (intro exI [of _ "[]"]) simp
next
  case (Cons e fs)
  then obtain i cs where e: "e = C_Step i cs" by auto
  let ?m = "multi_exec P \<tau> (Go i cs) m"
  have x: "?m = m\<lparr>team := crew_exec (farewells P \<tau>) e (team m)\<rparr>"
    using destructor_silent [OF Cons.prems(1)] e by simp
  have en: "multi_ok m" "multi_enabled N P (Go i cs) m"
    and r: "crew_run N (farewells P \<tau>) fs (team ?m) = Some d"
    using Cons.prems(2-4) e x by (auto simp: multi_ok_def split: if_splits)
  have c: "crash (chat (front ?m)) = None" "escaped ?m = None" unfolding x using Cons.prems(2,3) by simp_all
  obtain es where "\<forall>e \<in> set es. \<exists>i cs. e = Go i cs" "multi_run N P \<tau> es ?m = Some (?m\<lparr>team := d\<rparr>)"
    using Cons.IH [OF Cons.prems(1) c r] Cons.prems(5) by auto
  then have "\<forall>e \<in> set (Go i cs # es). \<exists>i cs. e = Go i cs"
    and "multi_run N P \<tau> (Go i cs # es) m = Some (m\<lparr>team := d\<rparr>)" using en by (simp_all add: x del: multi_exec.simps multi_enabled.simps)
  then show ?case by blast
qed

section \<open>The program\<close>

text \<open>What is left of \<open>main\<close> when all threads came to their end.\<close>

lemma after_joins_inv:
  assumes "platform_ok P" and "multi_reachable N P \<tau> m" and "fault (core (team m)) = None"
    and "all_joined (team m)" and "distinct cs" and "set cs = client_set (core (team m))"
  shows "drop_inv P (after_joins P cs m)"
proof -
  note parts = multi_parts [OF assms(1,2)]
  note D = multi_invD [OF parts(1)]
  show ?thesis
    by (rule joined_drop_inv(1) [OF parts(3) assms(3,4,6,5), of "next_conn (chat (front m))"])
       (use D(3,7) in \<open>auto simp: after_joins_def http_inv_def\<close>)
qed

lemma threads_joined:
  assumes "crew_inv N d"
  shows "all_joined d \<longleftrightarrow> (\<forall>i \<in> set [0..<N]. code (core d) i = [])"
  using assms strand_invD(3) [of N "core d"] not_less by (auto simp: crew_inv_def all_joined_def)

text \<open>Every thread can be started, or \<open>main\<close> ends there.\<close>

lemma thread_failure_None:
  "thread_failure th workers = None \<longleftrightarrow> (\<forall>j < nat (workers - 1). th j = Success)"
  by (auto simp: thread_failure_def spawn_threads_eq list_all_iff)

lemma main_workers_Some:
  assumes P: "platform_ok P" and st: "main_start mk argv = Start ip port workers"
    and th: "thread_failure th workers = None"
  defines "N \<equiv> running_threads workers"
  shows "main_workers_program P mk \<tau> E th es cs ds argv = Some r \<longleftrightarrow>
    (\<exists>m s'. multi_run N P \<tau> es (multi_start E) = Some m \<and> stopped (front m) \<and>
       fault (core (team m)) = None \<and> all_joined (team m) \<and> distinct cs \<and> set cs = client_set (core (team m)) \<and>
       drop_run P ds (after_joins P cs m) = Some s' \<and> nothing_left s' \<and>
       r = Returned 0 ip port N [listening_on (argv ! 1)] s')"
proof (cases "multi_run N P \<tau> es (multi_start E)")
  case None
  then show ?thesis using st th by (simp add: main_workers_program_def N_def)
next
  case (Some m)
  have R: "multi_reachable N P \<tau> m" by (rule multi_run_reachable [OF Some multi_start_reachable])
  note D = multi_invD [OF multi_parts(1) [OF P R]]
  have c: "uncaught m = None" using invD(1) [OF D(2)] D(9) by (simp add: uncaught_def)
  show ?thesis
  proof (cases "stopped (front m) \<and> fault (core (team m)) = None \<and> all_joined (team m) \<and> distinct cs \<and>
      set cs = client_set (core (team m))")
    case False
    then show ?thesis
      using Some st th c threads_joined [OF D(5)] by (auto simp: main_workers_program_def N_def)
  next
    case True
    then have "main_workers_program P mk \<tau> E th es cs ds argv =
        main_end P ds ip port N [listening_on (argv ! 1)] (after_joins P cs m)"
      using Some st th c threads_joined [OF D(5)] by (auto simp: main_workers_program_def N_def)
    then show ?thesis
      using True Some by (simp add: main_end_Some [OF P after_joins_inv [OF P R]])
  qed
qed

lemma main_workers_failed:
  "main_start mk argv = Start ip port workers \<Longrightarrow> thread_failure th workers = Some e \<Longrightarrow>
     main_workers_program P mk \<tau> E th es cs ds argv = Some (Terminated e)"
  by (simp add: main_workers_program_def)

end
