(* ===== verification/One_Worker.thy ===== *)
theory One_Worker
  imports Main_Workers_Safety
begin

text \<open>
  The two models of \<open>main\<close> agree on one worker: whatever the process of \<open>Program\<close>, whose handlers run
  from start to end, can do, the process of \<open>Main_Workers\<close> with one thread can do. What is chosen when is
  when a destructor reads the clock: it is known only when it runs, but a connection is destroyed once,
  so one choice for each connection serves for the whole run.
\<close>

section \<open>The texts of destructors\<close>

text \<open>A run of the threads only uses the farewell of a connection that it destroys.\<close>

lemma instr_step_bye:
  "(\<And>c. x = Release c \<Longrightarrow> refs p c = 1 \<Longrightarrow> bye c = bye' c) \<Longrightarrow>
     instr_step bye i cs x k p = instr_step bye' i cs x k p"
  by (cases x) auto

lemma crew_exec_bye:
  assumes "crew_enabled N e d"
    and "\<And>i c k. code (core d) i = Release c # k \<Longrightarrow> refs (core d) c = 1 \<Longrightarrow> bye c = bye' c \<or> (\<forall>cs. e \<noteq> C_Step i cs)"
  shows "crew_exec bye e d = crew_exec bye' e d"
proof (cases e)
  case (C_Step i cs)
  then obtain x k where x: "code (core d) i = x # k" using assms(1) by (auto split: list.splits)
  have "instr_step bye i cs x k (core d) = instr_step bye' i cs x k (core d)"
    using assms(2) [of i] x C_Step by (intro instr_step_bye) auto
  then show ?thesis using C_Step x by simp
qed (simp_all add: Let_def)

lemma released_gone:
  assumes "code (core d) i = Release c # k" and "refs (core d) c = 1"
  shows "refs (core (crew_exec bye (C_Step i cs) d)) c = 0"
  using assms by simp

lemma gone_step:
  assumes "crew_enabled N e d" and "\<And>b. e \<noteq> C_New b" and "refs (core d) c = 0"
  shows "refs (core (crew_exec bye e d)) c = 0"
proof (cases e)
  case (C_Step i cs)
  then obtain x k where x: "code (core d) i = x # k" using assms(1) by (auto split: list.splits)
  then show ?thesis using C_Step assms(3) by (cases x) auto
qed (use assms in \<open>auto simp: Let_def\<close>)

lemma gone_run:
  "crew_run N bye es d = Some d' \<Longrightarrow> \<forall>e \<in> set es. \<forall>b. e \<noteq> C_New b \<Longrightarrow> refs (core d) c = 0 \<Longrightarrow>
     refs (core d') c = 0"
proof (induction es arbitrary: d)
  case (Cons e es)
  then have "refs (core (crew_exec bye e d)) c = 0" using gone_step [of N e d c bye] by (auto split: if_splits)
  then show ?case using Cons by (auto split: if_splits)
qed simp

lemma crew_run_bye:
  assumes "crew_inv N d" and "crew_run N bye es d = Some d'" and "\<forall>e \<in> set es. \<forall>b. e \<noteq> C_New b"
    and "\<forall>c \<in> store (core d). refs (core d') c = 0 \<longrightarrow> bye' c = bye c"
  shows "crew_run N bye' es d = Some d'"
  using assms
proof (induction es arbitrary: d)
  case Nil
  then show ?case by simp
next
  case (Cons e es)
  let ?d = "crew_exec bye e d"
  have ok: "fault (core d) = None" "\<not> misuse d" "crew_enabled N e d" and r: "crew_run N bye es ?d = Some d'"
    using Cons.prems(2) by (auto split: if_splits)
  have st: "crew_step N bye d e ?d" using ok by (rule crew_stepI)
  have P: "pool_inv N (core d)" using Cons.prems(1) ok(1) by (simp add: crew_inv_def workers_inv_def)
  have "bye c = bye' c" if "e = C_Step i cs" "code (core d) i = Release c # k" "refs (core d) c = 1" for i cs c k
  proof -
    have "refs (core d') c = 0"
      using gone_run [OF r] released_gone [OF that(2,3)] that(1) Cons.prems(3) by simp
    moreover have "c \<in> store (core d)" by (rule pool_invD(6) [OF P]) (simp add: that(3))
    ultimately show ?thesis using Cons.prems(4) by simp
  qed
  then have "crew_exec bye' e d = ?d" by (intro crew_exec_bye [OF ok(3)]) metis
  moreover have "store (core ?d) \<subseteq> store (core d)" using crew_store [OF st] Cons.prems(3) by auto
  then have "crew_run N bye' es ?d = Some d'"
    using Cons.IH [OF crew_step_inv [OF Cons.prems(1) st] r] Cons.prems(3,4) by auto
  ultimately show ?case using ok by simp
qed

text \<open>And the whole process only those of the connections that are there or are still to come.\<close>

lemma multi_grows:
  assumes I: "multi_inv N P m" and st: "multi_step N P \<tau> m e m'"
  shows "next_conn (chat (front m)) \<le> next_conn (chat (front m'))"
    and "c \<in> store (core (team m')) \<Longrightarrow> c \<in> store (core (team m)) \<or> next_conn (chat (front m)) \<le> conn_index c"
proof -
  note D = multi_invD [OF I]
  have nx: "next_conn (exec P Open (chat (front m))) = Suc (next_conn (chat (front m)))"
    using exec_next_conn [OF D(1,2), of Open] by simp
  have "next_conn (chat (front m)) \<le> next_conn (chat (front m')) \<and> (c \<in> store (core (team m')) \<longrightarrow>
      c \<in> store (core (team m)) \<or> next_conn (chat (front m)) \<le> conn_index c)" for c
    using multi_team(2) [OF I st]
  proof (elim disjE exE conjE)
    assume "crew_step N (farewells P \<tau>) (team m) (C_New (Conn (next_conn (chat (front m))))) (team m')"
      and "chat (front m') = exec P Open (chat (front m))"
    then show ?thesis using crew_store nx by fastforce
  next
    fix b
    assume "crew_step N (farewells P \<tau>) (team m) b (team m')" and "front m' = front m" and "\<forall>c. b \<noteq> C_New c"
    then show ?thesis using crew_store by fastforce
  qed simp
  then show "next_conn (chat (front m)) \<le> next_conn (chat (front m'))"
    and "c \<in> store (core (team m')) \<Longrightarrow> c \<in> store (core (team m)) \<or> next_conn (chat (front m)) \<le> conn_index c"
    by blast+
qed

lemma multi_exec_tau:
  assumes I: "multi_inv N P m" and ok: "multi_ok m" and en: "multi_enabled N P e m"
    and t: "\<And>c. c \<in> store (core (team m)) \<Longrightarrow> \<tau>' c = \<tau> c"
  shows "multi_exec P \<tau>' e m = multi_exec P \<tau> e m"
proof -
  have R: "pool_inv N (core (team m))"
    using multi_invD(5) [OF I] ok by (simp add: crew_inv_def workers_inv_def multi_ok_def)
  have b: "farewells P \<tau> c = farewells P \<tau>' c" if "refs (core (team m)) c = 1" for c
    using t [of c] pool_invD(6) [OF R, of c] that by (simp add: farewells_def)
  have x: "crew_exec (farewells P \<tau>) f (team m) = crew_exec (farewells P \<tau>') f (team m)"
    if "crew_enabled N f (team m)" for f
    by (rule crew_exec_bye [OF that disjI1 [OF b]])
  show ?thesis
  proof (cases e)
    case (Work i f n)
    have "multi_step N P \<tau> m (Work i f n) (multi_exec P \<tau> (Work i f n) m)"
      using ok en Work by (simp add: multi_stepI del: multi_exec.simps multi_enabled.simps)
    then obtain h where h: "lead_at i P f n (next_conn (chat (front m))) = Inr (C_Begin i h)"
      by (rule work_step [OF I])
    show ?thesis by (simp add: Work h Let_def)
  next
    case (Go i cs)
    then have g: "crew_enabled N (C_Step i cs) (team m)" using en by (simp only: multi_enabled.simps)
    show ?thesis
      by (simp only: Go multi_exec.simps x [OF g] destructor_silent [OF multi_invD(1) [OF I]])
  qed simp
qed

lemma multi_run_tau:
  assumes "multi_inv N P m" and "multi_run N P \<tau> es m = Some m'"
    and "\<And>c. c \<in> store (core (team m)) \<or> next_conn (chat (front m)) \<le> conn_index c \<Longrightarrow> \<tau>' c = \<tau> c"
  shows "multi_run N P \<tau>' es m = Some m'"
  using assms
proof (induction es arbitrary: m)
  case Nil
  then show ?case by simp
next
  case (Cons e es)
  let ?m = "multi_exec P \<tau> e m"
  have ok: "multi_ok m" "multi_enabled N P e m" and r: "multi_run N P \<tau> es ?m = Some m'"
    using Cons.prems(2) by (auto split: if_splits)
  have st: "multi_step N P \<tau> m e ?m" using ok by (rule multi_stepI)
  have "\<tau>' c = \<tau> c" if "c \<in> store (core (team ?m)) \<or> next_conn (chat (front ?m)) \<le> conn_index c" for c
  proof (rule Cons.prems(3))
    show "c \<in> store (core (team m)) \<or> next_conn (chat (front m)) \<le> conn_index c"
      using that multi_grows(2) [OF Cons.prems(1) st, of c]
        le_trans [OF multi_grows(1) [OF Cons.prems(1) st], of "conn_index c"] by blast
  qed
  then have r': "multi_run N P \<tau>' es ?m = Some m'" by (rule Cons.IH [OF multi_step_inv [OF Cons.prems(1) st] r])
  have "multi_exec P \<tau>' e m = ?m" by (rule multi_exec_tau [OF Cons.prems(1) ok]) (simp add: Cons.prems(3))
  then show ?case using r' ok by simp
qed

section \<open>Event by event\<close>

text \<open>Listener and sessions are equal, and the crew mirrors the chat.\<close>

definition alike :: "system \<Rightarrow> multi_system \<Rightarrow> bool" where
  "alike s m \<longleftrightarrow> front m = s\<lparr>chat := chat (front m)\<rparr> \<and> next_conn (chat (front m)) = next_conn (chat s) \<and>
     mirrors 0 [] {} (chat s) (team m)"

lemma front_same:
  assumes I: "http_inv s" and en: "sys_enabled e s" and e: "\<not> is_ws e"
    and w: "next_conn w = next_conn (chat s)"
  shows "sys_exec P e (s\<lparr>chat := w\<rparr>) =
    (sys_exec P e s)\<lparr>chat := (if hands_over e then exec P Open w else w)\<rparr>"
proof (cases e)
  case (Listener_Accepted ec)
  then show ?thesis
    by (cases "ec = Success") (simp_all add: sys_exec_accepted put_session_def log_fail_def)
next
  case (Http_Read h ec req)
  then obtain k where f: "sessions s h = Some (fresh_session k)" using read_enabled [OF I] en by metis
  then have g: "sessions (s\<lparr>chat := w\<rparr>) h = Some (fresh_session k)" by simp
  note x = sys_exec_read [OF f, where P = P] sys_exec_read [OF g, where P = P]
  consider "ec = Success" | "ec = End_Of_Stream" | "ec \<noteq> Success" "ec \<noteq> End_Of_Stream" by blast
  then show ?thesis
    by cases (simp_all add: Http_Read x w gone_as_def put_session_def log_fail_def)
next
  case (Http_Written h ec)
  then obtain k req where f: "sessions s h = Some ((fresh_session k)\<lparr>parser := Some Moved_From, http_reads := 0,
    http_writes := [(handle_request req, keep_alive req)]\<rparr>)"
    using write_enabled [OF I] en by metis
  then have g: "sessions (s\<lparr>chat := w\<rparr>) h = Some ((fresh_session k)\<lparr>parser := Some Moved_From, http_reads := 0,
    http_writes := [(handle_request req, keep_alive req)]\<rparr>)" by simp
  show ?thesis
    by (cases "ec = Success")
       (simp_all add: Http_Written sys_exec_written [OF f] sys_exec_written [OF g] gone_as_def put_session_def log_fail_def)
qed (use e in simp_all)

lemma front_enabled: "\<not> is_ws e \<Longrightarrow> sys_enabled e (s\<lparr>chat := w\<rparr>) = sys_enabled e s"
  by (cases e) simp_all

lemma opened_alone:
  assumes P: "platform_ok P" and W: "world_inv P [] w" and m: "mirrors 0 [] {} w d" and I: "crew_inv 1 d"
  shows "mirrors 0 [] {} (exec P Open w) (crew_exec bye (C_New (Conn (next_conn w))) d)"
proof -
  have "led 1 P 0 Open w (exec P Open w) d" by (rule lead_Open [OF W m I])
  then obtain css d' where r: "crew_run 1 (parting P w) (C_New (Conn (next_conn w)) # map (C_Step 0) css) d = Some d'"
    and d': "mirrors 0 [] {} (exec P Open w) d'" by (auto simp: leads_to_def simp del: crew_run.simps)
  have "code (core d) 0 = []" using mirrorsD(1) [OF m] by simp
  then have "css = []" using r by (cases css) (auto split: if_splits)
  then have "d' = crew_exec bye (C_New (Conn (next_conn w))) d" using r by (auto split: if_splits)
  then show ?thesis using d' by simp
qed

lemma farewells_parting: "farewells P (\<lambda>_. ticks w) = parting P w"
  by (simp add: fun_eq_iff farewells_def parting_def)

lemma alike_ok:
  assumes "multi_inv N P m" and "alike s m"
  shows "multi_ok m" and "code (core (team m)) = (\<lambda>_. [])" and "stopped (front m) = stopped s"
proof -
  have "core (team m) = pool_of 0 [] {} (chat s)" using assms(2) mirrorsD(1) by (simp add: alike_def)
  then show "multi_ok m" "code (core (team m)) = (\<lambda>_. [])"
    using multi_invD(5,9) [OF assms(1)] invD(1) [OF multi_invD(2) [OF assms(1)]]
    by (auto simp: multi_ok_def crew_inv_def)
  have "front m = s\<lparr>chat := chat (front m)\<rparr>" using assms(2) by (simp add: alike_def)
  from arg_cong [OF this, of stopped] show "stopped (front m) = stopped s" by simp
qed

text \<open>One event of the listener, a session or a signal.\<close>

lemma alike_front:
  assumes P: "platform_ok P" and W: "world_inv P [] (chat s)" and H: "http_inv s" and I: "multi_inv 1 P m"
    and a: "alike s m" and e: "\<not> stopped s" "sys_enabled e s" "\<not> is_ws e"
  shows "multi_run 1 P \<tau> [Front 0 e] m = Some (multi_exec P \<tau> (Front 0 e) m)"
    and "alike (sys_exec P e s) (multi_exec P \<tau> (Front 0 e) m)"
proof -
  let ?w = "chat (front m)"
  have f: "front m = s\<lparr>chat := ?w\<rparr>" and n: "next_conn ?w = next_conn (chat s)"
    and m: "mirrors 0 [] {} (chat s) (team m)" using a by (simp_all add: alike_def)
  note ok = alike_ok [OF I a]
  have en: "sys_enabled e (front m)" using e(2) front_enabled [OF e(3), where s = s and w = ?w] f by metis
  then have "multi_enabled 1 P (Front 0 e) m" using ok e(1,3) by simp
  then show "multi_run 1 P \<tau> [Front 0 e] m = Some (multi_exec P \<tau> (Front 0 e) m)" using ok(1) by simp
  have x: "sys_exec P e (front m) = (sys_exec P e s)\<lparr>chat := (if hands_over e then exec P Open ?w else ?w)\<rparr>"
    using front_same [OF H e(2,3), where P = P and w = ?w] f n by metis
  have c: "chat (sys_exec P e s) = (if hands_over e then exec P Open (chat s) else chat s)"
    by (rule front_chat [OF H e(3,2)])
  have k: "next_conn (exec P Open ?w) = next_conn (exec P Open (chat s))"
    using exec_next_conn [OF P multi_invD(2) [OF I], of Open] exec_next_conn [OF P W, of Open] n by simp
  show "alike (sys_exec P e s) (multi_exec P \<tau> (Front 0 e) m)"
    using x c k n m opened_alone [OF P W m multi_invD(5) [OF I], of "farewells P \<tau>"]
    by (auto simp: alike_def simp del: exec.simps)
qed

text \<open>One event of a connection.\<close>

lemma goes_on:
  "platform_ok P \<Longrightarrow> crash (chat (front m)) = None \<Longrightarrow> escaped m = None \<Longrightarrow> crew_run N (farewells P \<tau>) (map (C_Step i) css) (team m) = Some d \<Longrightarrow>
     multi_run N P \<tau> (map (Go i) css) m = Some (m\<lparr>team := d\<rparr>)"
proof (induction css arbitrary: m)
  case (Cons cs css)
  let ?m = "multi_exec P \<tau> (Go i cs) m"
  have x: "?m = m\<lparr>team := crew_exec (farewells P \<tau>) (C_Step i cs) (team m)\<rparr>"
    using destructor_silent [OF Cons.prems(1)] by simp
  have en: "multi_ok m" "multi_enabled N P (Go i cs) m"
    and r: "crew_run N (farewells P \<tau>) (map (C_Step i) css) (team ?m) = Some d"
    using Cons.prems(2-4) x by (auto simp: multi_ok_def split: if_splits)
  have "multi_run N P \<tau> (map (Go i) css) ?m = Some (?m\<lparr>team := d\<rparr>)"
    using Cons.IH [OF Cons.prems(1) _ _ r] Cons.prems(2,3) unfolding x by simp
  then show ?case using en by (simp add: x del: multi_exec.simps multi_enabled.simps)
qed simp

lemma alike_ws:
  assumes P: "platform_ok P" and W: "world_inv P [] (chat s)" and I: "multi_inv 1 P m"
    and a: "alike s m" and e: "\<not> stopped s" "enabled f (chat s)" "f \<noteq> Open"
  shows "\<exists>es m'. alike (s\<lparr>chat := exec P f (chat s)\<rparr>) m' \<and> chat (front m') = chat (front m) \<and>
    (\<forall>\<tau>. (\<forall>c \<in> store (core (team m)) - store (core (team m')). \<tau> c = ticks (chat s)) \<longrightarrow>
      multi_run 1 P \<tau> es m = Some m')"
proof -
  let ?w = "chat s" and ?d = "team m"
  have f: "front m = s\<lparr>chat := chat (front m)\<rparr>" and n: "next_conn (chat (front m)) = next_conn ?w"
    and m: "mirrors 0 [] {} ?w ?d" using a by (simp_all add: alike_def)
  note ok = alike_ok [OF I a]
  obtain b css d' where b: "lead 0 P f ?w = Inr b"
    and r: "crew_run 1 (parting P ?w) (b # map (C_Step 0) css) ?d = Some d'"
    and d': "mirrors 0 [] {} (exec P f ?w) d'"
    using lockstep [OF P W e(2) m multi_invD(5) [OF I]] unfolding leads_to_def by auto
  obtain h where h: "b = C_Begin 0 h" "completion_conn h = event_conn f" "\<And>q. outstanding h q \<longleftrightarrow> completes f q"
    by (rule lead_begin [OF b e(3)]) (rule that)
  let ?m = "m\<lparr>team := d'\<rparr>"
  have W': "world_inv P [] (exec P f ?w)" by (rule exec_inv [OF P W e(2)])
  have k: "next_conn (exec P f ?w) = next_conn ?w" using exec_next_conn [OF P W e(2)] e(3) by simp
  have "front m = s\<lparr>chat := exec P f ?w\<rparr>\<lparr>chat := chat (front m)\<rparr>" using f by simp
  then have "alike (s\<lparr>chat := exec P f ?w\<rparr>) ?m" using d' n k by (simp add: alike_def del: exec.simps)
  moreover have "multi_run 1 P \<tau> (Work 0 f (ticks ?w) # map (Go 0) css) m = Some ?m"
    if t: "\<forall>c \<in> store (core ?d) - store (core d'). \<tau> c = ticks ?w" for \<tau>
  proof -
    have "c \<notin> store (core d')" if "refs (core d') c = 0" for c
      using that invD(5) [OF W', of c] mirrorsD(1) [OF d'] by (cases "heap (exec P f ?w) c") auto
    then have "\<forall>c \<in> store (core ?d). refs (core d') c = 0 \<longrightarrow> farewells P \<tau> c = parting P ?w c"
      using t by (simp add: farewells_def parting_def)
    then have q: "crew_run 1 (farewells P \<tau>) (b # map (C_Step 0) css) ?d = Some d'"
      by (intro crew_run_bye [OF multi_invD(5) [OF I] r]) (use h(1) in auto)
    let ?n = "multi_exec P \<tau> (Work 0 f (ticks ?w)) m"
    have n': "?n = m\<lparr>team := crew_exec (farewells P \<tau>) b ?d\<rparr>" using b n by simp
    have en: "crew_enabled 1 b ?d" and q': "crew_run 1 (farewells P \<tau>) (map (C_Step 0) css) (team ?n) = Some d'"
      using q unfolding n' by (auto simp del: crew_enabled.simps crew_exec.simps split: if_splits)
    have c: "completes f (s_ops (strands ?d (event_conn f)))" using en h by simp
    have "busy (core ?d) = {}" using mirrorsD(1) [OF m] by simp
    then have "executor_free (event_conn f) m" by (simp add: executor_free_def split: executor.splits)
    then have "multi_enabled 1 P (Work 0 f (ticks ?w)) m" using c ok(2,3) e(1) by simp
    moreover have "multi_run 1 P \<tau> (map (Go 0) css) ?n = Some (?n\<lparr>team := d'\<rparr>)"
      by (rule goes_on [OF P _ _ q'])
         (use ok(1) in \<open>simp_all add: n' multi_ok_def del: multi_exec.simps\<close>)
    ultimately show ?thesis using ok(1) by (simp add: n' del: multi_exec.simps multi_enabled.simps)
  qed
  ultimately show ?thesis by (intro exI [of _ "Work 0 f (ticks ?w) # map (Go 0) css"] exI [of _ ?m]) simp
qed

lemma alike_step:
  assumes P: "platform_ok P" and W: "world_inv P [] (chat s)" and H: "http_inv s" and I: "multi_inv 1 P m"
    and a: "alike s m" and e: "\<not> stopped s" "sys_enabled e s"
  shows "\<exists>es m'. alike (sys_exec P e s) m' \<and> next_conn (chat (front m)) \<le> next_conn (chat (front m')) \<and>
    (\<forall>\<tau>. (\<forall>c \<in> store (core (team m)) - store (core (team m')). \<tau> c = ticks (chat s)) \<longrightarrow>
      multi_run 1 P \<tau> es m = Some m')"
proof (cases "is_ws e")
  case True
  then obtain f where f: "e = Ws f" by (cases e) auto
  then have "enabled f (chat s)" "f \<noteq> Open" using e(2) by simp_all
  moreover have eq: "sys_exec P e s = s\<lparr>chat := exec P f (chat s)\<rparr>" by (simp only: f sys_exec.simps(4))
  ultimately obtain es m'
    where "alike (sys_exec P e s) m'" and "chat (front m') = chat (front m)"
      and "\<forall>\<tau>. (\<forall>c \<in> store (core (team m)) - store (core (team m')). \<tau> c = ticks (chat s)) \<longrightarrow>
        multi_run 1 P \<tau> es m = Some m'"
    using alike_ws [OF P W I a e(1), of f, folded eq] by blast
  then show ?thesis by (intro exI [of _ es] exI [of _ m'] conjI) simp_all
next
  case False
  note fr = alike_front [OF P W H I a e False]
  let ?m = "multi_exec P (\<lambda>_. 0) (Front 0 e) m"
  have same: "multi_exec P \<tau> (Front 0 e) m = ?m" for \<tau> by simp
  have run: "multi_run 1 P \<tau> [Front 0 e] m = Some ?m" for \<tau> by (rule fr(1) [of \<tau>, unfolded same [of \<tau>]])
  have "multi_step 1 P (\<lambda>_. 0) m (Front 0 e) ?m"
    using run [of "\<lambda>_. 0"] by (simp add: multi_step_iff split: if_splits)
  then have "next_conn (chat (front m)) \<le> next_conn (chat (front ?m))" by (rule multi_grows(1) [OF I])
  with fr(2) run show ?thesis by blast
qed

lemma multi_run_inv: "multi_run N P \<tau> es m = Some m' \<Longrightarrow> multi_inv N P m \<Longrightarrow> multi_inv N P m'"
proof (induction es arbitrary: m)
  case (Cons e es)
  then have "multi_step N P \<tau> m e (multi_exec P \<tau> e m)" by (simp add: multi_step_iff split: if_splits)
  then show ?case using Cons multi_step_inv [OF Cons.prems(2)] by (auto split: if_splits)
qed simp

text \<open>A whole run: the clock is read for a farewell when the connection is destroyed.\<close>

lemma alike_run:
  assumes P: "platform_ok P"
  shows "sys_run P es s = Some s' \<Longrightarrow> world_inv P [] (chat s) \<and> http_inv s \<and> linked s \<Longrightarrow> multi_inv 1 P m \<Longrightarrow>
    alike s m \<Longrightarrow> \<exists>\<tau> fs m'. multi_run 1 P \<tau> fs m = Some m' \<and> alike s' m'"
proof (induction es arbitrary: s m)
  case Nil
  have "multi_run 1 P (\<lambda>_. 0) [] m = Some m" and "alike s' m" using Nil.prems by simp_all
  then show ?case by blast
next
  case (Cons e es)
  let ?s = "sys_exec P e s" and ?\<tau> = "\<lambda>_ :: conn. ticks (chat s)"
  have st: "sys_step P s e ?s" and e: "\<not> stopped s" "sys_enabled e s" and r: "sys_run P es ?s = Some s'"
    using Cons.prems(1) by (auto simp: sys_step_iff split: if_splits)
  have inv: "world_inv P [] (chat ?s) \<and> http_inv ?s \<and> linked ?s"
    using whole.inv_step [OF _ st] Cons.prems(2) P by blast
  obtain fs1 m1 where a: "alike ?s m1" and n: "next_conn (chat (front m)) \<le> next_conn (chat (front m1))"
    and t: "\<And>\<tau>. (\<forall>c \<in> store (core (team m)) - store (core (team m1)). \<tau> c = ticks (chat s)) \<Longrightarrow>
      multi_run 1 P \<tau> fs1 m = Some m1"
    using alike_step [OF P _ _ Cons.prems(3,4) e] Cons.prems(2) by blast
  have I1: "multi_inv 1 P m1" by (rule multi_run_inv [OF t [of ?\<tau>] Cons.prems(3)]) simp
  obtain \<tau>' fs2 m2 where r2: "multi_run 1 P \<tau>' fs2 m1 = Some m2" and a2: "alike s' m2"
    using Cons.IH [OF r inv I1 a] by blast
  let ?t = "\<lambda>c. if c \<in> store (core (team m1)) \<or> next_conn (chat (front m1)) \<le> conn_index c then \<tau>' c
    else ticks (chat s)"
  have "?t c = ticks (chat s)" if "c \<in> store (core (team m)) - store (core (team m1))" for c
    using that multi_invD(7) [OF Cons.prems(3), of c] n by auto
  then have "multi_run 1 P ?t fs1 m = Some m1" by (intro t) blast
  moreover have "multi_run 1 P ?t fs2 m1 = Some m2" by (rule multi_run_tau [OF I1 r2]) simp
  ultimately have "multi_run 1 P ?t (fs1 @ fs2) m = Some m2" by (simp add: multi_run_append)
  then show ?case using a2 by blast
qed

text \<open>And then \<open>main\<close> ends the same.\<close>

lemma alike_start: "platform_ok P \<Longrightarrow> multi_inv 1 P (multi_start E) \<and> alike (main_listener E) (multi_start E)"
proof
  assume "platform_ok P"
  then show "multi_inv 1 P (multi_start E)"
    by (rule multi_boot_inv) (auto simp: multi_boot_def multi_start_def boot_state_def main_listener_def)
  have "mirrors 0 [] {} world0 crew0"
    by (auto simp: mirrors_def crew0_def pool0_def pool_of_def world0_def use_count_def fun_eq_iff)
  moreover have "chat (main_listener E) = world0" by (simp add: main_listener_def world_simps)
  ultimately show "alike (main_listener E) (multi_start E)" by (simp add: alike_def multi_start_def)
qed

lemma one_worker_ends:
  assumes P: "platform_ok P" and st: "main_start mk argv = Start ip port 1"
    and r: "main_program P mk E es ds argv = Some r"
  shows "\<exists>\<tau> fs cs gs s s'. r = Returned 0 ip port 1 [listening_on (argv ! 1)] s \<and>
    main_workers_program P mk \<tau> E th fs cs gs argv = Some (Returned 0 ip port 1 [listening_on (argv ! 1)] s') \<and>
    wire (chat s') = wire (chat s)"
proof -
  have one: "running_threads 1 = 1" by (simp add: running_threads_def spawn_threads_eq)
  have nt: "thread_failure th 1 = None" by (simp add: thread_failure_None)
  obtain s s0 where s: "sys_run P es (main_listener E) = Some s" "stopped s"
    and s0: "wire (chat s0) = wire (chat s)" "r = Returned 0 ip port 1 [listening_on (argv ! 1)] s0"
    by (rule main_program_start [OF P st r]) (simp add: one)
  have w: "world_inv P [] (chat (main_listener E)) \<and> http_inv (main_listener E) \<and> linked (main_listener E)"
    using whole.reach_inv [OF main_listener_reach] P by blast
  obtain \<tau> fs m where m: "multi_run 1 P \<tau> fs (multi_start E) = Some m" "alike s m"
    using alike_run [OF P s(1) w] alike_start [OF P] by blast
  have R: "multi_reachable 1 P \<tau> m" by (rule multi_run_reachable [OF m(1) multi_start_reachable])
  have I: "multi_inv 1 P m" by (rule multi_parts(1) [OF P R])
  note ok = alike_ok [OF I m(2)]
  have mir: "mirrors 0 [] {} (chat s) (team m)" using m(2) by (simp add: alike_def)
  have W: "world_inv P [] (chat s)" by (rule main_run_invs(2) [OF P s(1)])
  let ?cs = "clients (chat s)"
  have c: "fault (core (team m)) = None" "all_joined (team m)" "distinct ?cs" "set ?cs = client_set (core (team m))"
    using ok invD(3) [OF W] mirrorsD(1) [OF mir] by (simp_all add: multi_ok_def all_joined_def no_dangling_def)
  have D: "drop_inv P (after_joins P ?cs m)" by (rule after_joins_inv [OF P R c])
  have S: "stopped (after_joins P ?cs m)" using ok(3) s(2) by (simp add: after_joins_def)
  obtain gs s' where d: "drop_run P gs (after_joins P ?cs m) = Some s'" "nothing_left s'"
    using drop_completes [OF P D S] by blast
  have "wire (chat s') = wire (chat s)"
    using drop_run_inv [OF P d(1) D] mirrorsD(3) [OF mir] by (simp add: after_joins_def fun_eq_iff)
  moreover have "main_workers_program P mk \<tau> E th fs ?cs gs argv = Some (Returned 0 ip port 1 [listening_on (argv ! 1)] s')"
    unfolding main_workers_Some [OF P st nt] unfolding one
    using m(1) c d ok(3) s(2) by (intro exI [of _ m] exI [of _ s']) simp
  ultimately show ?thesis using s0
    by (intro exI [of _ \<tau>] exI [of _ fs] exI [of _ ?cs] exI [of _ gs] exI [of _ s0] exI [of _ s']) simp
qed

end
