(* ===== verification/Crew_In_Process.thy ===== *)
theory Crew_In_Process
  imports Main_Workers_Safety Crew_Properties
begin

text \<open>
  What the threads can do, the process can do: a run of the crew whose texts are those of the codec is
  the run of its threads in a run of the whole process. So runs of two workers in which guarantees
  of the single worker fail are runs of the program, on any platform; and one of them leads to a state
  that \<open>main\<close> never leaves.
\<close>

section \<open>Runs of the crew in the process\<close>

text \<open>A completion that some event of a connection begins with.\<close>

definition plausible :: "'j platform \<Rightarrow> completion \<Rightarrow> bool" where
  "plausible P h \<longleftrightarrow> (\<exists>f t. f \<noteq> Open \<and> (\<forall>i n. lead_at i P f t n = Inr (C_Begin i h)))"

lemma plausible_failures:
  "plausible P (Read_Failed c)" "plausible P (Write_Failed c)" "plausible P (Run_Post c)" "plausible P (Write_Ok c)"
proof -
  show "plausible P (Read_Failed c)" unfolding plausible_def
    by (rule exI [of _ "Received c End_Of_Stream [] undefined"]) simp
  show "plausible P (Write_Failed c)" unfolding plausible_def
    by (rule exI [of _ "Written c End_Of_Stream"]) simp
  show "plausible P (Run_Post c)" unfolding plausible_def by (rule exI [of _ "Posted c"]) simp
  show "plausible P (Write_Ok c)" unfolding plausible_def by (rule exI [of _ "Written c Success"]) simp
qed

lemma plausible_join:
  "system_text P Connect (random_uuid P (conn_index c)) t = Inr s \<Longrightarrow> plausible P (Accept_Ok c s)"
  unfolding plausible_def by (intro exI [of _ "Accepted c Success"] exI [of _ t]) simp

lemma plausible_say:
  assumes "platform_ok P" and "chat_text P s"
  shows "plausible P (Read_Good c s)"
proof -
  obtain m where m: "serialize (json P) m = Inr s" "\<forall>junk. message_of_string (json P) junk s = Inr m"
    using chat_text_reads [OF assms] by blast
  then show ?thesis unfolding plausible_def
    by (intro exI [of _ "Received c Success s fixed_junk"] exI [of _ 0]) simp
qed

text \<open>A process that serves: it was not stopped and its listener waits for the next client.\<close>

definition serving :: "nat \<Rightarrow> 'j platform \<Rightarrow> multi_system \<Rightarrow> bool" where
  "serving N P m \<longleftrightarrow> multi_inv N P m \<and> \<not> stopped (front m) \<and> listening (front m) \<and> listener_accepts (front m) = 1"

lemma serving_ok: "serving N P m \<Longrightarrow> fault (core (team m)) = None \<Longrightarrow> \<not> misuse (team m) \<Longrightarrow> multi_ok m"
  using invD(1) [OF multi_invD(2)] multi_invD(9) by (auto simp: serving_def multi_ok_def)

text \<open>An idle thread lets a client in: it accepts the connection and reads the request to upgrade it.\<close>

lemma enters:
  assumes S: "serving N P m" and ok: "multi_ok m" and i: "i < N" "code (core (team m)) i = []"
    and r: "is_upgrade req"
  shows "\<exists>m'. multi_run N P \<tau> [Front i (Listener_Accepted Success),
      Front i (Http_Read (Sess (next_sess (front m))) Success req)] m = Some m' \<and> serving N P m' \<and>
    team m' = crew_exec (farewells P \<tau>) (C_New (Conn (next_conn (chat (front m))))) (team m) \<and>
    next_conn (chat (front m')) = Suc (next_conn (chat (front m)))"
proof -
  let ?s = "front m" and ?h = "Sess (next_sess (front m))" and ?k = "accept_exec (front m)"
  note D = multi_invD [of N P m]
  have I: "multi_inv N P m" and st: "\<not> stopped ?s" "listening ?s" "listener_accepts ?s = 1"
    using S by (simp_all add: serving_def)
  let ?m1 = "multi_exec P \<tau> (Front i (Listener_Accepted Success)) m"
  have en1: "multi_enabled N P (Front i (Listener_Accepted Success)) m" using st i by simp
  have m1: "front ?m1 = put_session ?h (fresh_session ?k) (?s\<lparr>next_sess := Suc (next_sess ?s),
      listener_accepts := 1, accept_exec := Strand (next_strand ?s), next_strand := Suc (next_strand ?s)\<rparr>)"
    "team ?m1 = team m" "escaped ?m1 = escaped m" using st by (simp_all add: sys_exec_accepted)
  have I1: "multi_inv N P ?m1" by (rule multi_step_inv [OF I multi_stepI [OF ok en1, of \<tau>]])
  have c1: "chat (front ?m1) = chat ?s" unfolding m1(1) by (simp add: world_simps)
  have ok1: "multi_ok ?m1" using ok unfolding multi_ok_def c1 m1(2,3) .
  let ?e = "Front i (Http_Read ?h Success req)"
  have f: "sessions (front ?m1) ?h = Some (fresh_session ?k)" unfolding m1(1) by (simp add: world_simps)
  have en2: "multi_enabled N P ?e ?m1" using i st f unfolding multi_enabled.simps m1(2)
    by (simp del: multi_exec.simps) (simp add: m1(1) world_simps del: multi_exec.simps)
  let ?m2 = "multi_exec P \<tau> ?e ?m1"
  have I2: "multi_inv N P ?m2" by (rule multi_step_inv [OF I1 multi_stepI [OF ok1 en2, of \<tau>]])
  have g: "front ?m2 = (gone_as ?h ((fresh_session ?k)\<lparr>parser := Some Moved_From, http_reads := 0, released := True\<rparr>)
      (front ?m1))\<lparr>chat := exec P Open (chat ?s),
        conn_exec := (conn_exec (front ?m1))(Conn (next_conn (chat ?s)) := ?k)\<rparr>"
    using sys_exec_read(1) [OF f, of P req] r c1 by simp
  have n: "next_conn (exec P Open (chat ?s)) = Suc (next_conn (chat ?s))"
    using exec_next_conn [OF multi_invD(1,2) [OF I], of Open] by simp
  have "serving N P ?m2"
    using I2 st unfolding serving_def g by (simp add: m1(1) world_simps del: multi_exec.simps exec.simps)
  moreover have "team ?m2 = crew_exec (farewells P \<tau>) (C_New (Conn (next_conn (chat ?s)))) (team m)"
    using r c1 m1(2) by simp
  moreover have "next_conn (chat (front ?m2)) = Suc (next_conn (chat ?s))"
    unfolding g using n by (simp del: exec.simps)
  moreover have "multi_run N P \<tau> [Front i (Listener_Accepted Success), ?e] m = Some ?m2"
    using ok en1 ok1 en2 by (simp del: multi_exec.simps multi_enabled.simps)
  ultimately show ?thesis by blast
qed

text \<open>And goes on as a thread of the crew does.\<close>

lemma works:
  assumes "serving N P m" and "crew_run N (farewells P \<tau>) fs (team m) = Some d"
    and "\<forall>e \<in> set fs. (\<exists>i cs. e = C_Step i cs) \<or> (\<exists>i h. e = C_Begin i h \<and> plausible P h)"
  shows "\<exists>es. multi_run N P \<tau> es m = Some (m\<lparr>team := d\<rparr>)"
  using assms
proof (induction fs arbitrary: m)
  case Nil
  then show ?case by (intro exI [of _ "[]"]) simp
next
  case (Cons e fs)
  have I: "multi_inv N P m" and st: "\<not> stopped (front m)" using Cons.prems(1) by (simp_all add: serving_def)
  have f: "fault (core (team m)) = None" "\<not> misuse (team m)" "crew_enabled N e (team m)"
    and r: "crew_run N (farewells P \<tau>) fs (crew_exec (farewells P \<tau>) e (team m)) = Some d"
    using Cons.prems(2) by (auto split: if_splits)
  have ok: "multi_ok m" by (rule serving_ok [OF Cons.prems(1) f(1,2)])
  obtain a where a: "multi_enabled N P a m"
    "multi_exec P \<tau> a m = m\<lparr>team := crew_exec (farewells P \<tau>) e (team m)\<rparr>"
  proof (cases "\<exists>i cs. e = C_Step i cs")
    case True
    then obtain i cs where e: "e = C_Step i cs" by blast
    show thesis
      by (rule that [of "Go i cs"]) (use f(3) e destructor_silent [OF multi_invD(1) [OF I]] in simp_all)
  next
    case False
    then obtain i h where e: "e = C_Begin i h" "plausible P h" using Cons.prems(3) by auto
    then obtain g t where g: "g \<noteq> Open" "lead_at i P g t (next_conn (chat (front m))) = Inr (C_Begin i h)"
      unfolding plausible_def by blast
    have h: "completion_conn h = event_conn g" "\<And>q. outstanding h q \<longleftrightarrow> completes g q"
      using lead_begin [OF g(2,1)] by auto
    have c: "completes g (s_ops (strands (team m) (event_conn g)))" and b: "event_conn g \<notin> busy (core (team m))"
      using f(3) e(1) h by simp_all
    have s: "event_conn g \<in> store (core (team m))"
      by (rule outstanding_stored [OF multi_invD(5) [OF I] f(1) completes_count [OF c]])
    have "executor_free (event_conn g) m" using executor_free_iff [OF I multi_invD(7) [OF I s]] b by simp
    then show thesis
      by (intro that [of "Work i g t"]) (use f(3) e(1) c st g(2) in \<open>simp_all del: crew_exec.simps\<close>)
  qed
  let ?m = "m\<lparr>team := crew_exec (farewells P \<tau>) e (team m)\<rparr>"
  have "multi_inv N P ?m" using multi_step_inv [OF I multi_stepI [OF ok a(1), of \<tau>]] unfolding a(2) .
  then have "serving N P ?m" using Cons.prems(1) by (simp add: serving_def del: crew_exec.simps)
  then obtain es where "multi_run N P \<tau> es ?m = Some (?m\<lparr>team := d\<rparr>)"
    using Cons.IH [of ?m] r Cons.prems(3) by (auto simp del: crew_exec.simps)
  then have "multi_run N P \<tau> (a # es) m = Some (m\<lparr>team := d\<rparr>)" using ok a by simp
  then show ?case by blast
qed

lemma crew_run_mono:
  "crew_run N bye es d = Some d' \<Longrightarrow> N \<le> M \<Longrightarrow> crew_run M bye es d = Some d'"
proof (induction es arbitrary: d)
  case (Cons e es)
  have "crew_enabled N e d \<Longrightarrow> crew_enabled M e d" using Cons.prems(2) by (cases e) auto
  then show ?case using Cons by (auto simp del: crew_exec.simps crew_enabled.simps split: if_splits)
qed simp

text \<open>The first two clients of a server, whatever becomes of them.\<close>

definition any_upgrade :: http_request where
  "any_upgrade = \<lparr>target = ''/'', version = 11, keep_alive = True, is_upgrade = True\<rparr>"

lemma crew_in_process:
  assumes P: "platform_ok P" and N: "N \<ge> 2"
    and r: "crew_run 2 (farewells P \<tau>) ([C_New ann, C_New ben] @ fs) crew0 = Some d"
    and fs: "\<forall>e \<in> set fs. (\<exists>i cs. e = C_Step i cs) \<or> (\<exists>i h. e = C_Begin i h \<and> plausible P h)"
    and E: "listening (main_listener E)"
  obtains es m where "multi_run N P \<tau> es (multi_start E) = Some m" and "team m = d" and "serving N P m"
proof -
  let ?m = "multi_start E" and ?bye = "farewells P \<tau>"
  have I: "multi_inv N P ?m" using multi_parts(1) [OF P multi_start_reachable] .
  have b: "chat (main_listener E) = world0" "\<not> stopped (main_listener E)" "listener_accepts (main_listener E) = 1"
    by (simp_all add: main_listener_def world_simps)
       (simp_all add: booted_def listener_defs listener_new_def listener_fail_def log_fail_def)
  have S: "serving N P ?m" using I b E by (simp add: serving_def multi_start_def)
  have z: "next_conn (chat (front ?m)) = 0" "team ?m = crew0" by (simp_all add: multi_start_def b world0_def)
  have ok: "multi_ok ?m" by (rule serving_ok [OF S]) (simp_all add: z crew0_def pool0_def)
  have N0: "0 < N" and u: "is_upgrade any_upgrade" using N by (simp_all add: any_upgrade_def)
  have "code (core (team ?m)) 0 = []" by (simp add: z crew0_def pool0_def)
  from enters [OF S ok N0 this u] obtain es1 m1 where m1: "multi_run N P \<tau> es1 ?m = Some m1" "serving N P m1"
    "team m1 = crew_exec ?bye (C_New ann) crew0" "next_conn (chat (front m1)) = 1"
    unfolding z by (metis One_nat_def)
  have d1: "fault (core (team m1)) = None" "\<not> misuse (team m1)" "code (core (team m1)) 0 = []"
    by (simp_all add: m1(3) crew0_def pool0_def)
  from enters [OF m1(2) serving_ok [OF m1(2) d1(1,2)] N0 d1(3) u] obtain es2 m2
    where m2: "multi_run N P \<tau> es2 m1 = Some m2" "serving N P m2"
      "team m2 = crew_exec ?bye (C_New ben) (team m1)"
    unfolding m1(4) by metis
  have "crew_run N ?bye ([C_New ann, C_New ben] @ fs) crew0 = Some d" by (rule crew_run_mono [OF r N])
  then have "crew_run N ?bye fs (team m2) = Some d"
    unfolding m2(3) m1(3) by (auto simp del: crew_exec.simps crew_enabled.simps split: if_splits)
  from works [OF m2(2) this fs] obtain es3 where m3: "multi_run N P \<tau> es3 m2 = Some (m2\<lparr>team := d\<rparr>)" by blast
  have m: "multi_run N P \<tau> (es1 @ es2 @ es3) ?m = Some (m2\<lparr>team := d\<rparr>)"
    by (simp add: multi_run_append m1(1) m2(1) m3)
  have "multi_inv N P (m2\<lparr>team := d\<rparr>)"
    by (rule multi_parts(1) [OF P multi_run_reachable [OF m multi_start_reachable]])
  then have "serving N P (m2\<lparr>team := d\<rparr>)" using m2(2) by (simp add: serving_def)
  then show thesis using that [OF m] by simp
qed

section \<open>What goes wrong with two workers\<close>

text \<open>
  The three runs of \<open>Worker_Properties\<close> with any texts. In the first, Ben joins while Ann's write and read
  fail: the thread that tells her of Ben is left with the last pointer to her. In the others both join
  at the same time, and both speak at the same time.
\<close>

definition last_pointer :: "string \<Rightarrow> string \<Rightarrow> crew_event list" where
  "last_pointer s t = [C_Begin 0 (Accept_Ok ann s)] @ crew_steps 0 10 [] @
     [C_Begin 0 (Run_Post ann)] @ crew_steps 0 3 [] @
     [C_Begin 0 (Accept_Ok ben t)] @ crew_steps 0 2 [] @ crew_steps 0 3 [ann] @
     concat (map (\<lambda>h. C_Begin 1 h # crew_steps 1 2 []) [Write_Failed ann, Read_Failed ann, Run_Post ann])"

definition both_at_once :: "string \<Rightarrow> string \<Rightarrow> crew_event list" where
  "both_at_once s t = [C_Begin 0 (Accept_Ok ann s), C_Begin 1 (Accept_Ok ben t)] @
     crew_steps 0 4 [] @ crew_steps 1 4 [] @ crew_steps 0 6 [] @ crew_steps 1 6 []"

definition crossing :: "string \<Rightarrow> string \<Rightarrow> string \<Rightarrow> string \<Rightarrow> crew_event list" where
  "crossing s t u v = [C_Begin 0 (Accept_Ok ann s)] @ crew_steps 0 10 [] @
     [C_Begin 0 (Accept_Ok ben t)] @ crew_steps 0 13 [ann] @
     [C_Begin 0 (Read_Good ann u), C_Begin 1 (Read_Good ben v)] @
     crew_steps 0 5 [ann, ben] @ crew_steps 1 12 [ann, ben] @ crew_steps 0 7 []"

lemma script_runs:
  "map_option (\<lambda>d. (fault (core d), readers (core d), refs (core d) ann, take 2 (code (core d) 0)))
     (crew_run 2 bye ([C_New ann, C_New ben] @ last_pointer s t) crew0) =
     Some (None, {0}, 1, [Release ann, Unlock_Shared])"
  "map_option (\<lambda>d. (fault (core d), code (core d) 0, code (core d) 1, client_set (core d),
       outbox (core d) ann, outbox (core d) ben))
     (crew_run 2 bye ([C_New ann, C_New ben] @ both_at_once s t) crew0) = Some (None, [], [], {ann, ben}, [s], [t])"
  "map_option (\<lambda>d. (fault (core d), code (core d) 0, code (core d) 1, client_set (core d),
       outbox (core d) ann, outbox (core d) ben))
     (crew_run 2 bye ([C_New ann, C_New ben] @ crossing s t u v) crew0) =
     Some (None, [], [], {ann, ben}, [s, t, u, v], [t, v, u])"
  by code_simp+

lemma script_ok:
  assumes "plausible P (Accept_Ok ann s)" and "plausible P (Accept_Ok ben t)"
    and "plausible P (Read_Good ann u)" and "plausible P (Read_Good ben v)"
  shows "\<forall>e \<in> set (last_pointer s t) \<union> set (both_at_once s t) \<union> set (crossing s t u v).
    (\<exists>i cs. e = C_Step i cs) \<or> (\<exists>i h. e = C_Begin i h \<and> plausible P h)"
  using assms plausible_failures
  by (auto simp: last_pointer_def both_at_once_def crossing_def crew_steps_def)

text \<open>The texts of the scripts: two connect messages and two messages that differ.\<close>

lemma script_texts:
  assumes P: "platform_ok P"
  obtains s t u v where "system_text P Connect (random_uuid P 0) 0 = Inr s"
    and "system_text P Connect (random_uuid P 1) 0 = Inr t"
    and "plausible P (Read_Good ann u)" and "plausible P (Read_Good ben v)" and "u \<noteq> v"
proof -
  obtain s where s: "system_text P Connect (random_uuid P 0) 0 = Inr s"
    by (rule system_text_ok [OF P _ uuid_ascii [OF P], where a = Connect]) simp_all
  obtain t where t: "system_text P Connect (random_uuid P 1) 0 = Inr t"
    by (rule system_text_ok [OF P _ uuid_ascii [OF P], where a = Connect]) simp_all
  have a: "ascii ''hi''" "ascii ''ho''" by (simp_all add: ascii_def)
  obtain u where u: "system_text P Chat ''hi'' 0 = Inr u"
    by (rule system_text_ok [OF P _ a(1), where a = Chat]) simp_all
  obtain v where v: "system_text P Chat ''ho'' 0 = Inr v"
    by (rule system_text_ok [OF P _ a(2), where a = Chat]) simp_all
  have "message_system Chat ''hi'' (clock P 0) \<noteq> message_system Chat ''ho'' (clock P 0)"
    by (simp add: message_system_def)
  then have "u \<noteq> v" using system_text_decodes [OF P u] system_text_decodes [OF P v] by (metis sum.inject(2))
  then show thesis
    using that s t plausible_say [OF P chat_text_system [OF P u]] plausible_say [OF P chat_text_system [OF P v]]
    by blast
qed

lemma script_in_process:
  assumes P: "platform_ok P" and N: "N \<ge> 2" and E: "listening (main_listener E)"
    and s: "system_text P Connect (random_uuid P 0) 0 = Inr s"
    and t: "system_text P Connect (random_uuid P 1) 0 = Inr t"
    and uv: "plausible P (Read_Good ann u)" "plausible P (Read_Good ben v)"
    and fs: "fs \<in> {last_pointer s t, both_at_once s t, crossing s t u v}"
    and r: "map_option g (crew_run 2 (farewells P \<tau>) ([C_New ann, C_New ben] @ fs) crew0) = Some x"
  obtains es m where "multi_run N P \<tau> es (multi_start E) = Some m" and "g (team m) = x" and "serving N P m"
proof -
  obtain d where d: "crew_run 2 (farewells P \<tau>) ([C_New ann, C_New ben] @ fs) crew0 = Some d" "g d = x"
    using r by blast
  have "plausible P (Accept_Ok ann s)" "plausible P (Accept_Ok ben t)"
    using plausible_join [of P ann 0 s] plausible_join [of P ben 0 t] s t by simp_all
  then have "\<forall>e \<in> set fs. (\<exists>i cs. e = C_Step i cs) \<or> (\<exists>i h. e = C_Begin i h \<and> plausible P h)"
    using script_ok [of P s t u v] uv fs by blast
  from crew_in_process [OF P N d(1) this E] show thesis using that d(2) by metis
qed

text \<open>
  Two clients that join at the same time are members and were never told of each other; and two messages
  sent at the same time reach the members in different orders.
\<close>

lemma workers_anomalies:
  assumes P: "platform_ok P" and N: "N \<ge> 2" and E: "listening (main_listener E)"
  shows "\<exists>es m s t. multi_run N P \<tau> es (multi_start E) = Some m \<and> fault (core (team m)) = None \<and>
      client_set (core (team m)) = {ann, ben} \<and> code (core (team m)) 0 = [] \<and> code (core (team m)) 1 = [] \<and>
      outbox (core (team m)) ann = [s] \<and> outbox (core (team m)) ben = [t] \<and>
      system_text P Connect (random_uuid P 0) 0 = Inr s \<and> system_text P Connect (random_uuid P 1) 0 = Inr t"
    and "\<exists>es m s t u v. multi_run N P \<tau> es (multi_start E) = Some m \<and> fault (core (team m)) = None \<and>
      client_set (core (team m)) = {ann, ben} \<and> code (core (team m)) 0 = [] \<and> code (core (team m)) 1 = [] \<and>
      outbox (core (team m)) ann = [s, t, u, v] \<and> outbox (core (team m)) ben = [t, v, u] \<and> u \<noteq> v"
proof -
  obtain s t u v where x: "system_text P Connect (random_uuid P 0) 0 = Inr s"
    "system_text P Connect (random_uuid P 1) 0 = Inr t" "plausible P (Read_Good ann u)"
    "plausible P (Read_Good ben v)" "u \<noteq> v" by (rule script_texts [OF P])
  have k: "both_at_once s t \<in> {last_pointer s t, both_at_once s t, crossing s t u v}"
    "crossing s t u v \<in> {last_pointer s t, both_at_once s t, crossing s t u v}" by simp_all
  obtain es m where "multi_run N P \<tau> es (multi_start E) = Some m"
    "(fault (core (team m)), code (core (team m)) 0, code (core (team m)) 1, client_set (core (team m)),
       outbox (core (team m)) ann, outbox (core (team m)) ben) = (None, [], [], {ann, ben}, [s], [t])"
    by (rule script_in_process [OF P N E x(1-4) k(1) script_runs(2)])
  then show "\<exists>es m s t. multi_run N P \<tau> es (multi_start E) = Some m \<and> fault (core (team m)) = None \<and>
      client_set (core (team m)) = {ann, ben} \<and> code (core (team m)) 0 = [] \<and> code (core (team m)) 1 = [] \<and>
      outbox (core (team m)) ann = [s] \<and> outbox (core (team m)) ben = [t] \<and>
      system_text P Connect (random_uuid P 0) 0 = Inr s \<and> system_text P Connect (random_uuid P 1) 0 = Inr t"
    using x(1,2) by blast
  obtain es m where "multi_run N P \<tau> es (multi_start E) = Some m"
    "(fault (core (team m)), code (core (team m)) 0, code (core (team m)) 1, client_set (core (team m)),
       outbox (core (team m)) ann, outbox (core (team m)) ben) = (None, [], [], {ann, ben}, [s, t, u, v], [t, v, u])"
    by (rule script_in_process [OF P N E x(1-4) k(2) script_runs(3)])
  then show "\<exists>es m s t u v. multi_run N P \<tau> es (multi_start E) = Some m \<and> fault (core (team m)) = None \<and>
      client_set (core (team m)) = {ann, ben} \<and> code (core (team m)) 0 = [] \<and> code (core (team m)) 1 = [] \<and>
      outbox (core (team m)) ann = [s, t, u, v] \<and> outbox (core (team m)) ben = [t, v, u] \<and> u \<noteq> v"
    using x(5) by blast
qed

section \<open>A thread that locks the mutex it holds\<close>

text \<open>The thread stays where it is, whatever the others do, or the lock was tried.\<close>

definition stuck :: "nat \<Rightarrow> crew \<Rightarrow> bool" where
  "stuck i d \<longleftrightarrow> fault (core d) \<noteq> None \<or>
     i \<in> readers (core d) \<and> code (core d) i \<noteq> [] \<and> hd (code (core d) i) = Lock_Shared"

lemma stuck_step:
  assumes "stuck i d" and "crew_step N bye d e d'"
  shows "stuck i d'"
proof -
  have f: "fault (core d) = None" "crew_enabled N e d" and d': "d' = crew_exec bye e d"
    using assms(2) by (simp_all add: crew_step_iff)
  have s: "i \<in> readers (core d)" "code (core d) i \<noteq> []" "hd (code (core d) i) = Lock_Shared"
    using assms(1) f(1) by (simp_all add: stuck_def)
  show ?thesis
  proof (cases e)
    case (C_Step j cs)
    then obtain x k where x: "code (core d) j = x # k" using f(2) by (auto split: list.splits)
    have c: "core d' = instr_step bye j cs x k (core d)" using d' C_Step x by simp
    show ?thesis
    proof (cases "j = i")
      case True
      then have "x = Lock_Shared" using s(3) x by simp
      then show ?thesis using c s(1) True by (simp add: stuck_def)
    next
      case False
      then show ?thesis using c s by (cases x) (auto simp: stuck_def)
    qed
  qed (use s f d' in \<open>auto simp: stuck_def Let_def\<close>)
qed

lemma stuck_run:
  "multi_run N P \<tau> es m = Some m' \<Longrightarrow> multi_inv N P m \<Longrightarrow> stuck i (team m) \<Longrightarrow> stuck i (team m')"
proof (induction es arbitrary: m)
  case (Cons e es)
  let ?m = "multi_exec P \<tau> e m"
  have st: "multi_step N P \<tau> m e ?m" and r: "multi_run N P \<tau> es ?m = Some m'"
    using Cons.prems(1) by (auto simp: multi_step_iff simp del: multi_exec.simps multi_enabled.simps split: if_splits)
  have "team ?m = team m \<or> (\<exists>b. crew_step N (farewells P \<tau>) (team m) b (team ?m))"
    using multi_team(2) [OF Cons.prems(2) st] by blast
  then have "stuck i (team ?m)" using stuck_step Cons.prems(3) by metis
  then show ?case by (rule Cons.IH [OF r multi_step_inv [OF Cons.prems(2) st]])
qed simp

lemma stuck_main:
  assumes P: "platform_ok P" and st: "main_start mk argv = Start ip port workers"
    and th: "thread_failure th workers = None"
    and m: "multi_run (running_threads workers) P \<tau> es (multi_start E) = Some m" and s: "stuck i (team m)"
  shows "main_workers_program P mk \<tau> E th (es @ fs) cs ds argv = None"
proof (rule ccontr)
  let ?N = "running_threads workers"
  assume "main_workers_program P mk \<tau> E th (es @ fs) cs ds argv \<noteq> None"
  then obtain r where "main_workers_program P mk \<tau> E th (es @ fs) cs ds argv = Some r" by blast
  then obtain m' where r: "multi_run ?N P \<tau> (es @ fs) (multi_start E) = Some m'"
    and j: "fault (core (team m')) = None" "all_joined (team m')"
    unfolding main_workers_Some [OF P st th] by blast
  have I: "multi_inv ?N P m" by (rule multi_parts(1) [OF P multi_run_reachable [OF m multi_start_reachable]])
  have "multi_run ?N P \<tau> fs m = Some m'" using r m by (simp add: multi_run_append)
  from stuck_run [OF this I s] show False using j by (simp add: stuck_def all_joined_def)
qed

text \<open>A destructor that a thread runs inside a broadcast begins with another broadcast.\<close>

lemma last_pointer_stuck:
  assumes "code (core d) i = Release c # k" and "refs (core d) c = 1" and "i \<in> readers (core d)"
  shows "stuck i (crew_exec bye (C_Step i cs) d)"
  using assms by (simp add: stuck_def destructor_code_def disconnect_code_def broadcast_code_def)

end
