(* ===== verification/Main_Workers_Properties.thy ===== *)
theory Main_Workers_Properties
  imports One_Worker Crew_In_Process Stopping_Properties Shutdown_Properties
begin

text \<open>
  The properties of the whole process with several workers and of \<open>main\<close> with its threads, with instances
  at a run of two workers in which the signal comes while one of them is in a handler.
\<close>

section \<open>A run for the witnesses\<close>

abbreviation "tau0 \<equiv> (\<lambda>_. 9) :: conn \<Rightarrow> nat"

text \<open>Alice is let in by one thread; the other has begun the handler of her handshake when the signal comes.\<close>

definition early_run :: "multi_event list" where
  "early_run = [Front 0 (Listener_Accepted Success), Front 1 (Http_Read first Success upgrade),
     Work 1 (Accepted alice Success) 7, Front 0 Signal]"

definition early_text :: string where
  "early_text = text_of (system_text demo Connect (nat_text 0) 7)"

lemma early_text: "system_text demo Connect (nat_text 0) 7 = Inr early_text"
proof -
  obtain u where "system_text demo Connect (random_uuid demo 0) 7 = Inr u"
    by (rule system_text_ok [OF demo_ok _ uuid_ascii [OF demo_ok], where a = Connect]) simp_all
  then show ?thesis by (simp add: early_text_def)
qed

definition early :: multi_system where
  "early = \<lparr>front = halted, team = crew_exec (farewells demo tau0)
     (C_Begin 1 (Accept_Ok alice early_text)) (crew_exec (farewells demo tau0) (C_New alice) crew0),
     escaped = None\<rparr>"

lemma early_run: "multi_run 2 demo tau0 early_run (multi_start calls_ok) = Some early"
proof -
  let ?b = "booted Success Success Success Success" and ?u = "sys_exec demo (Http_Read first Success upgrade) served"
  have b: "sys_exec demo (Listener_Accepted Success) ?b = served"
    using served_step by (simp add: sys_step_iff)
  have u: "chat ?u = opened demo world0" using halted_chat by (simp add: halted_def)
  have "\<not> stopped ?u"
    using sys_exec_read(1) [of served first "Strand 0" demo upgrade] by (simp add: upgrade_def world_simps)
  then show ?thesis
    using b u halted_def early_text
    by (simp add: early_run_def early_def multi_start_def main_listener_ok multi_ok_def world_simps world0_def
        crew0_def pool0_def new_strand_def upgrade_def Let_def executor_free_def split: executor.splits)
qed

lemma early_fault: "fault (core (team early)) = None" "stopped (front early)"
  "code (core (team early)) 1 \<noteq> []" "store (core (team early)) = {alice}"
  using short_run(2)
  by (simp_all add: early_def crew0_def pool0_def new_strand_def Let_def connect_code_def)

section \<open>The process\<close>

text \<open>C9: The whole process is sound under any number of workers, however the listener, the sessions and
  the threads interleave: no handler of a session or of a connection lets an exception out, no destructor
  throws, and nothing is taken from an empty queue; the one thing that can go wrong is, with more than one
  worker, a thread that locks the mutex it holds; the set only points to connections in memory, which all
  came from sessions that gave their sockets away; and every live session has one operation outstanding
  and its own socket.\<close>

theorem workers_process_sound:
  assumes "platform_ok P" and "multi_reachable N P \<tau> m"
  shows "crash (chat (front m)) = None \<and> escaped m = None \<and> \<not> misuse (team m) \<and>
    (fault (core (team m)) = None \<and> client_set (core (team m)) \<subseteq> store (core (team m)) \<or>
     fault (core (team m)) = Some Relock \<and> N \<noteq> 1) \<and>
    store (core (team m)) \<subseteq> Conn ` {..<length (filter (released \<circ> snd) (gone (front m)))} \<and>
    (\<forall>h x. sessions (front m) h = Some x \<longrightarrow> http_reads x + length (http_writes x) = 1 \<and> \<not> released x)"
proof -
  note parts = multi_parts [OF assms]
  note D = multi_invD [OF parts(1)]
  have "client_set (core (team m)) \<subseteq> store (core (team m))" if "fault (core (team m)) = None"
    using D(5) that pool_invD(11) by (auto simp: crew_inv_def workers_inv_def)
  then have f: "fault (core (team m)) = None \<and> client_set (core (team m)) \<subseteq> store (core (team m)) \<or>
      fault (core (team m)) = Some Relock \<and> N \<noteq> 1" using crew_fault [OF parts(3)] by metis
  have n: "next_conn (chat (front m)) = length (filter (released \<circ> snd) (gone (front m)))"
    using D(4) by (simp add: linked_def handed_over_def comp_def case_prod_unfold)
  show ?thesis
  proof (intro conjI allI impI subsetI f)
    show "crash (chat (front m)) = None" by (rule invD(1) [OF D(2)])
    show "escaped m = None" by (rule D(9))
    show "\<not> misuse (team m)" using D(5) by (simp add: crew_inv_def)
  next
    fix c assume "c \<in> store (core (team m))"
    then show "c \<in> Conn ` {..<length (filter (released \<circ> snd) (gone (front m)))}"
      using D(7) [of c] unfolding n by (cases c) auto
  next
    fix h x assume x: "sessions (front m) h = Some x"
    show "http_reads x + length (http_writes x) = 1" "\<not> released x"
      using http_invD(1) [OF D(3) x] by (auto simp: session_ok_def)
  qed
qed

theorem workers_process_sound_witness:
  "alice \<in> store (core (team early)) \<and> length (filter (released \<circ> snd) (gone (front early))) > 0"
proof -
  have "multi_reachable 2 demo tau0 early" by (rule multi_run_reachable [OF early_run multi_start_reachable])
  from workers_process_sound [OF demo_ok this] show ?thesis using early_fault(4) by auto
qed

text \<open>C25: Every connection works alone on its data, however many threads there are: the listener made a
  strand for its socket, which no other connection has and which went with the socket from the session to
  the connection; so at most one thread is inside a handler of the connection, and the only step
  that touches its queue is the beginning of one of its handlers, while no other of them runs; a thread
  that sends to it never does.\<close>

theorem own_strand_each:
  assumes "platform_ok P" and "multi_reachable N P \<tau> m" and "c \<in> store (core (team m))"
  shows "(\<exists>k. conn_exec (front m) c = Strand k \<and>
      (\<forall>b \<in> store (core (team m)). conn_exec (front m) b = Strand k \<longrightarrow> b = c)) \<and>
    (\<forall>i j. on_strand (core (team m)) i c \<longrightarrow> on_strand (core (team m)) j c \<longrightarrow> i = j) \<and>
    (\<forall>e m'. multi_step N P \<tau> m e m' \<longrightarrow> s_queue (strands (team m') c) \<noteq> s_queue (strands (team m) c) \<longrightarrow>
      (\<exists>i f t. e = Work i f t \<and> event_conn f = c \<and> (\<forall>j. \<not> on_strand (core (team m)) j c)))"
proof (intro conjI allI impI)
  have I: "multi_inv N P m" by (rule multi_parts(1) [OF assms(1,2)])
  note D = multi_invD [OF I]
  have S: "strand_inv N (core (team m))" using D(5) by (simp add: crew_inv_def)
  show "\<exists>k. conn_exec (front m) c = Strand k \<and>
      (\<forall>b \<in> store (core (team m)). conn_exec (front m) b = Strand k \<longrightarrow> b = c)"
    by (rule conn_strand [OF I D(7) [OF assms(3)]]) (use D(7) in blast)
  show "i = j" if "on_strand (core (team m)) i c" "on_strand (core (team m)) j c" for i j
    by (rule strand_one [OF S that])
  fix e m'
  assume st: "multi_step N P \<tau> m e m'" and q: "s_queue (strands (team m') c) \<noteq> s_queue (strands (team m) c)"
  show "\<exists>i f t. e = Work i f t \<and> event_conn f = c \<and> (\<forall>j. \<not> on_strand (core (team m)) j c)"
  proof (cases e)
    case (Front i f)
    have "c \<noteq> Conn (next_conn (chat (front m)))" using D(7) [OF assms(3)] by auto
    then show ?thesis using st q Front by (auto simp: multi_step_iff split: if_splits)
  next
    case (Work i f t)
    obtain h where h: "crew_step N (farewells P \<tau>) (team m) (C_Begin i h) (team m')" "completion_conn h = event_conn f"
      by (rule work_step [OF I st [unfolded Work]])
    then have "event_conn f = c" using q by (auto simp: crew_step_iff Let_def split: if_splits)
    moreover have "c \<notin> busy (core (team m))" using h calculation by (simp add: crew_step_iff)
    then have "\<not> on_strand (core (team m)) j c" for j using on_strand_busy [OF S] by blast
    ultimately show ?thesis using Work by blast
  next
    case (Go i cs)
    then obtain x k where x: "code (core (team m)) i = x # k" using st by (auto simp: multi_step_iff split: list.splits)
    have "team m' = crew_exec (farewells P \<tau>) (C_Step i cs) (team m)"
      using st Go destructor_silent [OF assms(1)] by (simp add: multi_step_iff)
    then have "s_queue (strands (team m') c) = s_queue (strands (team m) c)"
      using x by (cases x) (auto split: job.splits)
    then show ?thesis using q by simp
  qed
qed

theorem own_strand_each_witness:
  "on_strand (core (team early)) 1 alice \<and> (\<exists>k. conn_exec (front early) alice = Strand k) \<and>
   \<not> on_strand (core (team early)) 0 alice"
proof -
  have R: "multi_reachable 2 demo tau0 early" by (rule multi_run_reachable [OF early_run multi_start_reachable])
  have a: "alice \<in> store (core (team early))" using early_fault(4) by simp
  have "on_strand (core (team early)) 1 alice"
    by (simp add: on_strand_def early_def Let_def connect_code_def)
  then show ?thesis using own_strand_each [OF demo_ok R a] by (metis zero_neq_one)
qed

lemma sent_by_codec:
  assumes "platform_ok P" and "multi_reachable N P \<tau> m"
    and "s \<in> set (outbox (core (team m)) c) \<union> set (s_wire (strands (team m) c)) \<union> set (s_queue (strands (team m) c))"
  shows "chat_text P s"
proof -
  note D = multi_invD [OF multi_parts(1) [OF assms(1,2)]]
  have "data_inv (team m)" using D(5) by (simp add: crew_inv_def)
  then have "s \<in> set (outbox (core (team m)) c)"
    using assms(3) data_invD [of "team m" c] by (auto simp: conn_ok_def)
  then show ?thesis using D(6) by (simp add: typed_pool_def)
qed

text \<open>C26: Clients only ever receive messages, with any number of workers too: every text that is sent to a
  connection, waits in its queue or reached its socket was written by the codec and reads back as the
  one message it was written from, whose action has a name.\<close>

theorem workers_traffic:
  assumes "platform_ok P" and "multi_reachable N P \<tau> m"
    and "s \<in> set (outbox (core (team m)) c) \<union> set (s_wire (strands (team m) c)) \<union> set (s_queue (strands (team m) c))"
  shows "\<exists>msg. named (action msg) \<and> serialize (json P) msg = Inr s \<and>
    (\<forall>junk. message_of_string (json P) junk s = Inr msg)"
  by (rule chat_text_reads [OF assms(1) sent_by_codec [OF assms]])

theorem workers_traffic_witness:
  "\<exists>m s. multi_run 2 demo tau0 (early_run @ [Go 1 []]) (multi_start calls_ok) = Some m \<and>
     outbox (core (team m)) alice = [s] \<and> (\<exists>msg. named (action msg) \<and> serialize ref_json msg = Inr s)"
proof -
  let ?m = "multi_exec demo tau0 (Go 1 []) early"
  have g: "?m = early\<lparr>team := crew_exec (farewells demo tau0) (C_Step 1 []) (team early)\<rparr>"
    by (simp add: destructor_silent [OF demo_ok])
  have ok: "multi_ok early" by (simp add: multi_ok_def early_def halted_chat world_simps world0_def crew0_def pool0_def
      new_strand_def Let_def)
  have "multi_enabled 2 demo (Go 1 []) early"
    by (simp add: early_def crew0_def pool0_def new_strand_def Let_def connect_code_def loop_order_def)
  then have r: "multi_run 2 demo tau0 (early_run @ [Go 1 []]) (multi_start calls_ok) = Some ?m"
    using ok early_run by (simp add: multi_run_append g del: multi_exec.simps multi_enabled.simps)
  have o: "outbox (core (team ?m)) alice = [early_text]"
    unfolding g by (simp add: early_def crew0_def pool0_def new_strand_def Let_def connect_code_def)
  have "multi_reachable 2 demo tau0 ?m" by (rule multi_run_reachable [OF r multi_start_reachable])
  from workers_traffic [OF demo_ok this, of _ alice] o
  have "\<exists>msg. named (action msg) \<and>
      serialize ref_json msg = Inr (early_text)" by fastforce
  then show ?thesis using r o by blast
qed

section \<open>The program\<close>

text \<open>C8: \<open>main\<close> returns, with any number of workers: from any state in which a signal stopped the event
  loop, the threads can go on to their ends, and then the handlers that were never called can be
  destroyed, so that \<open>main\<close> has returned 0 with no connection, no session and no accept left and
  nothing more written to any socket; unless, with more than one worker, a thread locks the mutex it
  holds, for which \<open>main\<close> waits for ever.\<close>

theorem main_workers_return:
  assumes "platform_ok P" and "main_start mk argv = Start ip port workers"
    and "thread_failure th workers = None"
    and "multi_run (running_threads workers) P \<tau> es (multi_start E) = Some m"
    and "stopped (front m)" and "fault (core (team m)) = None"
  shows "\<exists>fs m'. (\<forall>f \<in> set fs. \<exists>i cs. f = Go i cs) \<and>
    multi_run (running_threads workers) P \<tau> (es @ fs) (multi_start E) = Some m' \<and>
    (fault (core (team m')) = Some Relock \<and> workers > 1 \<or>
     (\<forall>cs. distinct cs \<and> set cs = client_set (core (team m')) \<longrightarrow>
       (\<exists>ds s'. main_workers_program P mk \<tau> E th (es @ fs) cs ds argv =
           Some (Returned 0 ip port (running_threads workers) [listening_on (argv ! 1)] s') \<and>
         nothing_left s' \<and> (\<forall>c. wire (chat s') c = s_wire (strands (team m') c)))))"
proof -
  let ?N = "running_threads workers"
  have R: "multi_reachable ?N P \<tau> m" by (rule multi_run_reachable [OF assms(4) multi_start_reachable])
  note parts = multi_parts [OF assms(1) R]
  have c: "crash (chat (front m)) = None" by (rule invD(1) [OF multi_invD(2) [OF parts(1)]])
  obtain fs d where fs: "\<forall>e \<in> set fs. \<exists>i cs. e = C_Step i cs" "crew_run ?N (farewells P \<tau>) fs (team m) = Some d"
    and d: "all_joined d \<and> fault (core d) = None \<or> fault (core d) = Some Relock \<and> ?N \<noteq> 1"
    by (rule threads_end [OF parts(3) assms(6)])
  let ?m = "m\<lparr>team := d\<rparr>"
  obtain gs where gs: "\<forall>g \<in> set gs. \<exists>i cs. g = Go i cs" "multi_run ?N P \<tau> gs m = Some ?m"
    using multi_goes [OF assms(1) c multi_invD(9) [OF parts(1)] fs(2,1)] by blast
  have r: "multi_run ?N P \<tau> (es @ gs) (multi_start E) = Some ?m" by (simp add: multi_run_append assms(4) gs(2))
  have "?N \<noteq> 1 \<Longrightarrow> workers > 1" by (auto simp: running_threads_def spawn_threads_eq)
  moreover have "\<exists>ds s'. main_workers_program P mk \<tau> E th (es @ gs) cs ds argv =
        Some (Returned 0 ip port ?N [listening_on (argv ! 1)] s') \<and> nothing_left s' \<and>
        (\<forall>c. wire (chat s') c = s_wire (strands d c))"
    if j: "all_joined d" "fault (core d) = None" and cs: "distinct cs" "set cs = client_set (core d)" for cs
  proof -
    have R': "multi_reachable ?N P \<tau> ?m" by (rule multi_run_reachable [OF gs(2) R])
    have I: "drop_inv P (after_joins P cs ?m)" using after_joins_inv [OF assms(1) R'] j cs by simp
    have "stopped (after_joins P cs ?m)" using assms(5) by (simp add: after_joins_def)
    then obtain ds s' where s': "drop_run P ds (after_joins P cs ?m) = Some s'" "nothing_left s'"
      using drop_completes [OF assms(1) I] by blast
    have "wire (chat s') = (\<lambda>c. s_wire (strands d c))"
      using drop_run_inv [OF assms(1) s'(1) I] by (simp add: after_joins_def)
    moreover have "main_workers_program P mk \<tau> E th (es @ gs) cs ds argv =
        Some (Returned 0 ip port ?N [listening_on (argv ! 1)] s')"
      unfolding main_workers_Some [OF assms(1-3)]
      using r s' assms(5) j cs by (intro exI [of _ ?m] exI [of _ s']) simp
    ultimately show ?thesis using s'(2) by (intro exI [of _ ds] exI [of _ s']) simp
  qed
  ultimately show ?thesis using d gs(1) r by (intro exI [of _ gs] exI [of _ ?m]) auto
qed

lemma demo_start2: "main_start any_host [''wschat'', ''::1:80'', ''2''] = Start ''::1'' 80 2"
proof -
  have "main_workers [''wschat'', ''::1:80'', ''2''] = Inr 2" by code_simp
  then show ?thesis using demo_start by (auto simp: main_start_def main_workers_def split: option.splits sum.splits)
qed

lemma threads_ok: "thread_failure (\<lambda>_. Success) workers = None"
  by (simp add: thread_failure_None)

lemma two_threads: "running_threads 2 = 2"
  by (simp add: running_threads_def spawn_threads_eq)

lemma demo_argv2: "[''wschat'', ''::1:80'', ''2''] ! 1 = ''::1:80''"
  by simp

theorem main_workers_return_witness:
  "code (core (team early)) 1 \<noteq> [] \<and> (\<exists>fs m'. (\<forall>f \<in> set fs. \<exists>i cs. f = Go i cs) \<and>
    multi_run 2 demo tau0 (early_run @ fs) (multi_start calls_ok) = Some m' \<and>
    (fault (core (team m')) = Some Relock \<and> (2 :: int) > 1 \<or>
     (\<forall>cs. distinct cs \<and> set cs = client_set (core (team m')) \<longrightarrow>
       (\<exists>ds s'. main_workers_program demo any_host tau0 calls_ok (\<lambda>_. Success) (early_run @ fs) cs ds [''wschat'', ''::1:80'', ''2''] =
           Some (Returned 0 ''::1'' 80 2 [listening_on ''::1:80''] s') \<and>
         nothing_left s' \<and> (\<forall>c. wire (chat s') c = s_wire (strands (team m') c))))))"
  using main_workers_return [OF demo_ok demo_start2 threads_ok, unfolded two_threads demo_argv2, OF early_run early_fault(2,1)]
    early_fault(3) by (rule conjI [rotated])

text \<open>C28: \<open>main\<close> ends in no other way once it has read its arguments: with any number of workers, when a
  thread cannot be started the exception of that ends it, which nobody catches; otherwise, whenever it
  comes to an end, no exception ended it: it returned 0 with nothing left, and all that was ever written
  to a socket are messages of the codec.\<close>

theorem main_workers_ends:
  assumes "platform_ok P" and "main_start mk argv = Start ip port workers"
    and "main_workers_program P mk \<tau> E th es cs ds argv = Some r"
  shows "if \<exists>j < nat (workers - 1). th j \<noteq> Success then r = Terminated (Library_Error ''std::thread'')
    else \<exists>s'. r = Returned 0 ip port (running_threads workers) [listening_on (argv ! 1)] s' \<and> nothing_left s' \<and>
      (\<forall>c. \<forall>t \<in> set (wire (chat s') c). \<exists>msg. named (action msg) \<and> serialize (json P) msg = Inr t)"
proof (cases "thread_failure th workers")
  case (Some e)
  then have "r = Terminated e" using assms(3) main_workers_failed [OF assms(2) Some, of P \<tau> E es cs ds] by simp
  moreover have "e = Library_Error ''std::thread''" using Some by (auto simp: thread_failure_def split: if_splits)
  moreover have "\<not> (\<forall>j < nat (workers - 1). th j = Success)" using Some thread_failure_None [of th workers] by simp
  ultimately show ?thesis by auto
next
  case None
  let ?N = "running_threads workers"
  obtain m s' where m: "multi_run ?N P \<tau> es (multi_start E) = Some m" "fault (core (team m)) = None"
    "all_joined (team m)" "distinct cs" "set cs = client_set (core (team m))"
    and s': "drop_run P ds (after_joins P cs m) = Some s'" "nothing_left s'"
    "r = Returned 0 ip port ?N [listening_on (argv ! 1)] s'"
    using assms(3) unfolding main_workers_Some [OF assms(1,2) None] by blast
  have R: "multi_reachable ?N P \<tau> m" by (rule multi_run_reachable [OF m(1) multi_start_reachable])
  have "wire (chat s') = (\<lambda>c. s_wire (strands (team m) c))"
    using drop_run_inv [OF assms(1) s'(1) after_joins_inv [OF assms(1) R m(2-5)]] by (simp add: after_joins_def)
  then have "chat_text P t" if "t \<in> set (wire (chat s') c)" for t c
    using sent_by_codec [OF assms(1) R, of t c] that by simp
  then have w: "\<forall>c. \<forall>t \<in> set (wire (chat s') c). \<exists>msg. named (action msg) \<and> serialize (json P) msg = Inr t"
    using chat_text_reads [OF assms(1)] by blast
  have "\<not> (\<exists>j < nat (workers - 1). th j \<noteq> Success)" using None unfolding thread_failure_None by blast
  then show ?thesis using s'(2,3) w by (simp only: if_False) blast
qed

theorem main_workers_ends_witness:
  "\<exists>ds s'. main_workers_program demo any_host tau0 calls_ok (\<lambda>_. Success) [Front 1 Signal] [] ds [''wschat'', ''::1:80'', ''2''] =
     Some (Returned 0 ''::1'' 80 2 [listening_on ''::1:80''] s') \<and> nothing_left s'"
proof -
  let ?m = "\<lparr>front = main_on_signal (main_listener calls_ok), team = crew0, escaped = None\<rparr>"
  have r: "multi_run 2 demo tau0 [Front 1 Signal] (multi_start calls_ok) = Some ?m"
    by (simp add: multi_start_def multi_ok_def main_listener_ok world_simps world0_def crew0_def pool0_def)
  have m: "fault (core (team ?m)) = None" "all_joined (team ?m)" "client_set (core (team ?m)) = {}"
    by (simp_all add: crew0_def pool0_def all_joined_def)
  have R: "multi_reachable 2 demo tau0 ?m" by (rule multi_run_reachable [OF r multi_start_reachable])
  have I: "drop_inv demo (after_joins demo [] ?m)" using after_joins_inv [OF demo_ok R m(1,2)] m(3) by simp
  have "stopped (after_joins demo [] ?m)" by (simp add: after_joins_def)
  then obtain ds s' where d: "drop_run demo ds (after_joins demo [] ?m) = Some s'" "nothing_left s'"
    using drop_completes [OF demo_ok I] by blast
  have "main_workers_program demo any_host tau0 calls_ok (\<lambda>_. Success) [Front 1 Signal] [] ds [''wschat'', ''::1:80'', ''2''] =
      Some (Returned 0 ''::1'' 80 (running_threads 2) [listening_on ([''wschat'', ''::1:80'', ''2''] ! 1)] s')"
    unfolding main_workers_Some [OF demo_ok demo_start2 threads_ok] unfolding two_threads
    using r m d by (intro exI [of _ ?m] exI [of _ s']) simp
  from main_workers_ends [OF demo_ok demo_start2 this] this show ?thesis
    unfolding two_threads demo_argv2 by auto
qed

text \<open>C31: With more than one worker the server can hang for ever: on any platform, whenever its threads and
  its listener could be started, two clients and the order of the threads are enough to bring it where
  \<open>main\<close> never returns, whatever happens later, a signal or not. A thread that broadcasts is left with
  the last pointer to a member, so it runs its destructor, which locks the mutex that the thread holds.\<close>

theorem server_can_hang:
  assumes "platform_ok P" and "main_start mk argv = Start ip port workers" and "workers > 1"
    and "thread_failure th workers = None" and "listening (main_listener E)"
  shows "\<exists>es m. multi_run (running_threads workers) P \<tau> es (multi_start E) = Some m \<and> \<not> stopped (front m) \<and>
    (\<forall>fs cs ds. main_workers_program P mk \<tau> E th (es @ fs) cs ds argv = None)"
proof -
  let ?N = "running_threads workers"
  have N: "?N \<ge> 2" using assms(3) by (simp add: running_threads_def spawn_threads_eq)
  obtain s t u v where x: "system_text P Connect (random_uuid P 0) 0 = Inr s"
    "system_text P Connect (random_uuid P 1) 0 = Inr t" "plausible P (Read_Good ann u)"
    "plausible P (Read_Good ben v)" by (rule script_texts [OF assms(1)])
  have k: "last_pointer s t \<in> {last_pointer s t, both_at_once s t, crossing s t u v}" by simp
  obtain es m where m: "multi_run ?N P \<tau> es (multi_start E) = Some m" and S: "serving ?N P m"
    and g: "(fault (core (team m)), readers (core (team m)), refs (core (team m)) ann, take 2 (code (core (team m)) 0)) =
      (None, {0}, 1, [Release ann, Unlock_Shared])"
    by (rule script_in_process [OF assms(1) N assms(5) x k script_runs(1)])
  obtain l where l: "code (core (team m)) 0 = Release ann # l"
    using g by (cases "code (core (team m)) 0") auto
  let ?m = "multi_exec P \<tau> (Go 0 []) m"
  have I: "multi_inv ?N P m" using S by (simp add: serving_def)
  have m': "?m = m\<lparr>team := crew_exec (farewells P \<tau>) (C_Step 0 []) (team m)\<rparr>"
    using destructor_silent [OF assms(1)] by simp
  have "multi_ok m" using serving_ok [OF S] g multi_invD(5) [OF I] by (simp add: crew_inv_def)
  moreover have "multi_enabled ?N P (Go 0 []) m" using l N by (simp add: loop_order_def)
  ultimately have r: "multi_run ?N P \<tau> (es @ [Go 0 []]) (multi_start E) = Some ?m"
    using m by (simp add: multi_run_append del: multi_exec.simps multi_enabled.simps)
  have "stuck 0 (team ?m)" unfolding m' using last_pointer_stuck [OF l] g by simp
  from stuck_main [OF assms(1,2,4) r this]
  have "\<forall>fs cs ds. main_workers_program P mk \<tau> E th ((es @ [Go 0 []]) @ fs) cs ds argv = None" by blast
  moreover have "\<not> stopped (front ?m)" unfolding m' using S by (simp add: serving_def)
  ultimately show ?thesis using r by blast
qed

theorem server_can_hang_witness:
  "\<exists>es. \<forall>fs cs ds. main_workers_program demo any_host tau0 calls_ok (\<lambda>_. Success) (es @ fs) cs ds
     [''wschat'', ''::1:80'', ''2''] = None"
proof -
  have "listening (main_listener calls_ok)" by (simp add: main_listener_ok)
  from server_can_hang [OF demo_ok demo_start2 _ threads_ok this, of tau0] show ?thesis by auto
qed

text \<open>C11: With one worker, the default, the two models of \<open>main\<close> agree: whatever \<open>main\<close> can do when its
  handlers run from start to end, whichever events come and however it is destroyed, it can do when its
  one thread executes them step by step: it returns the same status, address, number of threads and
  output, and the same texts were written to every socket.\<close>

theorem one_worker_same:
  assumes "platform_ok P" and "main_start mk argv = Start ip port 1"
    and "main_program P mk E es ds argv = Some r"
  shows "\<exists>\<tau> fs cs gs s s'. r = Returned 0 ip port 1 [listening_on (argv ! 1)] s \<and>
    main_workers_program P mk \<tau> E th fs cs gs argv = Some (Returned 0 ip port 1 [listening_on (argv ! 1)] s') \<and>
    wire (chat s') = wire (chat s)"
  by (rule one_worker_ends [OF assms])

theorem one_worker_same_witness:
  "\<exists>\<tau> fs cs gs s'. main_workers_program demo any_host \<tau> calls_ok (\<lambda>_. Success) fs cs gs [''wschat'', ''::1:80''] =
     Some (Returned 0 ''::1'' 80 1 [listening_on ''::1:80''] s') \<and>
     (\<exists>ds s. main_program demo any_host calls_ok short_run ds [''wschat'', ''::1:80''] =
       Some (Returned 0 ''::1'' 80 1 [listening_on ''::1:80''] s) \<and> wire (chat s') = wire (chat s))"
proof -
  obtain ds s where d: "main_program demo any_host calls_ok short_run ds [''wschat'', ''::1:80''] =
     Some (Returned 0 ''::1'' 80 1 [listening_on ''::1:80''] s)" using main_returns_instance by blast
  from one_worker_same [OF demo_ok demo_start d, of "\<lambda>_. Success"] show ?thesis
    unfolding demo_argv using d by (metis ending.inject(3))
qed

end
