(* ===== verification/Spec2Isabelle.thy ===== *)
theory Spec2Isabelle
  imports Chat_Properties Handler_Properties Codec_Properties Http_Properties Startup_Properties
    Shutdown_Properties Worker_Properties Crew_Properties Hearing_Properties Stopping_Properties
    Lockstep_Properties Main_Workers_Properties
begin

text \<open>
  A verification of \<open>wschat-cpp\<close>, the C++ server of the wschat repository: a websocket chat with one
  global room (README.md).

  \<^bold>\<open>The program.\<close> \<open>main\<close> (\<open>main.cpp\<close>) reads an address and a number of workers, makes one \<open>Server\<close> and
  one \<open>Listener\<close>, and runs the event loop. The listener (\<open>include/listener.cpp\<close>) makes an \<open>HttpSession\<close>
  of every accepted socket; the session (\<open>include/http_session.cpp\<close>) answers plain requests and hands
  the socket of an upgrade request to a new \<open>WsConn\<close> (\<open>include/websocket.cpp\<close>). The connection does the
  handshake, joins the \<open>Server\<close> (\<open>include/server.cpp\<close>), reads messages and has them broadcast; its
  destructor leaves. Messages are JSON texts (\<open>message.hpp\<close>).

  \<^bold>\<open>The theories.\<close>
  \<^item> \<open>Prelude\<close>: exceptions, computations with a state that may throw, error codes, identities of heap
    objects, and the locales \<open>invariant_system\<close> and \<open>simulation\<close> for step relations.
  \<^item> \<open>Json_Lib\<close>: nlohmann's JSON library as a record of functions and its documented behaviour
    \<open>json_laws\<close>. \<open>Json_Ref\<close> is one concrete library that has it, on \<open>Decimal\<close> (decimal numbers).
  \<^item> \<open>Messages\<close>: \<open>message.hpp\<close>. The locale \<open>text_codec\<close> is what the server relies on.
  \<^item> \<open>Message_Split\<close>: \<open>include/message.hpp\<close> and \<open>include/message.cpp\<close>, a second copy of the message code that
    the makefile does not build, translated on its own and proved to read and write the same.
  \<^item> \<open>Runtime\<close>: the state \<open>world\<close> of the chat: connection objects, outstanding operations, the stack of
    the running handler, \<open>clients_\<close>, the clock; and two histories, \<open>sent\<close> (given to \<open>WsConn::send\<close>) and
    \<open>wire\<close> (written to the socket).
  \<^item> \<open>Outbox\<close>: \<open>send\<close>, \<open>on_send\<close>, \<open>on_write\<close>; locale \<open>mailbox\<close>. \<open>Server\<close>: all operations of \<open>Server\<close>; locale
    \<open>notifier\<close>, which extends \<open>mailbox\<close>. \<open>WsConn\<close>: constructor, \<open>run\<close>, \<open>accept\<close>, \<open>handle\<close>, destructor, and
    the step relation \<open>step\<close> in which a step runs one completion handler from start to end.
  \<^item> \<open>Invariant\<close> and \<open>Handlers\<close>: the invariant \<open>world_inv\<close>, the closed form of every handler under it,
    and that every step keeps it; \<open>exec_outcome\<close> is the case distinction all later proofs use.
  \<^item> \<open>Delivery\<close>: the fate of a text that was sent (prefix, stalled connections, draining).
  \<^item> \<open>Room\<close> and \<open>Refinement\<close>: the abstract room, and that the chat implements it.
  \<^item> \<open>HttpSession\<close>, \<open>Listener\<close>, \<open>Program\<close>: the other classes, and the step relation \<open>sys_step\<close> of the
    whole process; \<open>Sessions\<close>: its invariant. \<open>Sockets\<close>: the strand of a socket, from the \<open>make_strand\<close> of
    the listener through the session to the connection; no two connections ever share one.
  \<^item> \<open>Traffic\<close>: every text the server sends is one the codec wrote.
  \<^item> \<open>Startup\<close>: the command line and the threads of \<open>main\<close>. \<open>Shutdown\<close>: the destruction of the event loop
    when \<open>main\<close> returns, with every destructor that runs then. \<open>Boot\<close>: \<open>main\<close> from its arguments to its
    exit status, \<open>main_program\<close>; and the two copies of \<open>die\<close> in \<open>main.hpp\<close> and \<open>old/main.hpp\<close>.
  \<^item> \<open>Demo\<close>: a concrete platform and run. \<open>Chat_Properties\<close>, \<open>Handler_Properties\<close>, \<open>Codec_Properties\<close>,
    \<open>Http_Properties\<close>, \<open>Startup_Properties\<close>, \<open>Shutdown_Properties\<close> and this theory: the properties, each with an instance at
    the demo run.
  \<^item> \<open>Workers\<close>, \<open>Worker_Safety\<close>, \<open>Strands\<close>, \<open>Crew\<close>, \<open>Crew_Safety\<close>, \<open>Hearing\<close>, \<open>Stopping\<close>, \<open>Solo\<close>, \<open>Lockstep\<close>, \<open>Joined\<close>,
    \<open>Main_Workers\<close>, \<open>Main_Workers_Safety\<close>, \<open>One_Worker\<close>, \<open>Crew_In_Process\<close> and their theories of
    properties: several worker threads, see below.

  \<^bold>\<open>How the code is represented.\<close> A function that changes state or throws is a computation on \<open>world\<close>;
  every early return and every \<open>catch\<close> is a branch. A class is a record of its data members. An
  asynchronous operation is recorded as outstanding when the code initiates it; the environment
  completes outstanding operations in any order, with any error code and any received text, except
  that calls posted to one strand run in order. A shared pointer is counted: in the operations whose
  handlers hold one, and on the stack. When the count falls to zero the destructor runs. Undefined
  behaviour of C++ (a pointer to a destroyed connection, \<open>front\<close> or \<open>pop\<close> of an empty queue) is a value
  that no \<open>catch\<close> stops, and is proved not to occur. The exception is the timestamp of a message that came
  without one, which is never initialised: the code reads it, which is undefined, and here it is an
  arbitrary number (\<open>indeterminate\<close>, \<open>missing_timestamp_indeterminate\<close>), so that the theorems hold of
  the code as far as the read yields some number. What a session's parser holds after
  its request was moved out of it is not known either, and nothing reads it. Timestamps are 64-bit
  and the port is a 16-bit word. Boost, the clock, the UUID generator, the iteration order of
  \<open>unordered_set\<close> and the JSON library are parameters (\<open>platform\<close>); \<open>platform_ok\<close> says what is assumed.

  \<^bold>\<open>Bounds.\<close> There is no fuel: all loops are over lists or terminate by a measure. \<open>drain\<close>, the
  schedule that empties an outbox with \<open>p\<close> posted and \<open>q\<close> queued texts, has \<open>2 p + q\<close> steps, one for
  each call of \<open>on_send\<close> and one for each text that is then in the queue. The destruction of the event
  loop takes at most \<open>drop_bound\<close> steps: the handlers outstanding, plus one for each pair of connections,
  because a destructor posts at most one more handler to every connection that is still there. The
  threads take at most \<open>stop_bound\<close> steps after the last handler began: the weight of the instructions
  before them, where a loop weighs three for each connection in memory, plus the weight of a destructor
  for each connection that is still owned.

  \<^bold>\<open>Shutdown.\<close> When a signal stopped the loop, \<open>main\<close> returns and the handlers that were never called are
  destroyed, in an order that is Boost's own: here any order. Each releases the object it owns; the
  last release of a connection runs its destructor, which sends as always and so posts more handlers
  to the loop, and these are destroyed in their turn.

  \<^bold>\<open>Several workers.\<close> In the theories above handlers run one after the other, as with one worker (the
  default). \<open>Workers\<close> cuts the operations of \<open>Server\<close> into the steps between which other threads run,
  with the shared mutex, the reference counts and the memory of the connections explicit;
  \<open>Worker_Safety\<close> proves its invariant; \<open>Worker_Properties\<close> states what is guaranteed in every interleaving. There the operations
  outstanding on a connection are only counted. \<open>Crew\<close> adds which they are, the queues and the sockets,
  and the choices the handlers of \<open>WsConn\<close> make by them; \<open>Crew_Safety\<close> proves that it implements the
  pool of \<open>Workers\<close>; \<open>Strands\<close>, that handlers of one connection exclude each other when every connection
  has its own strand, which is proved in \<open>Sockets\<close>; \<open>Crew_Properties\<close> states what holds
  of the outboxes, of the memory and of progress. \<open>Lockstep\<close> ties the two models together: \<open>mirrors\<close> relates a world to a crew with
  the same members, objects, queues, operations and histories, and a handler of the crew that is not
  interrupted can run to its end and then has done to the crew what \<open>exec\<close> does to the world
  (\<open>Lockstep_Properties\<close>). That every complete run has this one effect is the subject of \<open>Solo\<close>: the order
  of the visits of a loop is the only choice a thread has, and it makes no difference.

  \<^bold>\<open>What is heard.\<close> \<open>Hearing\<close> is about the texts in every interleaving. Its locale \<open>carried\<close> is for facts that
  a run keeps as long as a connection stays a member (\<open>member_during\<close>); its instances say that a text a
  thread is about to send to a member is sent or still due (\<open>due\<close>), that a destructor announces its
  connection, that outboxes only grow and that an object once gone stays gone. The invariant \<open>all_owed\<close>
  bounds from above how often a text is sent or due by how often completions brought it.
  \<open>Hearing_Properties\<close> concludes that messages, joins and departures are heard by everybody who is
  there all the while, those of one client in order, and each once.

  \<^bold>\<open>The joins.\<close> When the loop was stopped no handler begins any more, and \<open>main\<close> waits for its threads to
  come to the end of their code (\<open>all_joined\<close>). \<open>Stopping\<close> gives the measure that every instruction
  decreases, \<open>load_of\<close>, although a broadcast and a destructor put instructions before a thread;
  \<open>Stopping_Properties\<close> concludes that the threads end, unless one locks the mutex it holds. \<open>Joined\<close>
  turns what they leave into a world in which no handler runs, \<open>world_of\<close>, so that the theorems of
  \<open>Shutdown\<close> hold after the joins of any number of threads.

  \<^bold>\<open>The whole process with threads.\<close> \<open>Main_Workers\<close> composes the listener and the sessions of \<open>sys_step\<close> with
  the crew: an idle thread runs a handler of the listener, of a session or of the signals, which share
  nothing with what runs beside them and are one step each, or begins a handler of a connection; and
  where a session hands its socket over, a connection of the crew is made. A handler begins only when the
  executor of its socket lets it (\<open>executor_free\<close>): on a strand one at a time, on the \<open>io_context\<close> itself
  at any time. Here the texts are those of
  the code: a handler begins with what \<open>message_of_string\<close> and \<open>serialize\<close> make of what the client sent, or
  with the system's message stamped at the clock the thread reads (\<open>accept_outcome\<close>, \<open>handle_outcome\<close>), and a
  destructor with the message of its connection stamped at the clock it reads (\<open>farewells\<close>). An exception
  that gets out of a handler or a destructor is kept in \<open>escaped\<close> and ends the process; it is proved that
  none does. \<open>main_workers_program\<close> is \<open>main\<close> with its
  threads: a thread that cannot be started ends it by an exception (\<open>thread_failure\<close>); otherwise it waits
  for all of them and then destroys what they leave, as in \<open>main_program\<close> (\<open>main_end\<close>).
  \<open>Main_Workers_Safety\<close> proves the invariant \<open>multi_inv\<close> and that both parts simulate the systems they come
  from, so that what is proved of sessions and of the crew holds in the process;
  \<open>Main_Workers_Properties\<close> states what follows for the process, the texts and the end of \<open>main\<close>.
  \<open>Crew_In_Process\<close> goes the other way: threads whose texts are those of the codec can run like this in the
  process too, on any platform. So the process has the runs of two workers in which guarantees of the
  single worker fail: joins that are never told, messages that reach two members in different orders
  (\<open>workers_anomalies\<close>), and a server that hangs for ever (\<open>server_can_hang\<close>).
  \<open>One_Worker\<close> proves that with one thread it can do whatever \<open>main_program\<close> can (\<open>alike\<close> relates their
  states): each event by \<open>Lockstep\<close>, and one reading of the clock for each farewell because a connection
  is destroyed once.

  \<^bold>\<open>What is not modelled.\<close> Boost (HTTP and websocket framing, sockets, the scheduler) is environment,
  and so is the order in which it destroys handlers. The handlers of a session are not cut into steps.
  That the clock never goes back is not used, so each reading of it is any reading. About half of
  \<open>message.hpp\<close> and of \<open>include/message.cpp\<close> is a parser and a writer of messages that are commented out:
  they are not code, and the rest of the lines no definition stands for are includes, aliases,
  declarations of what is modelled where it is defined, and braces; \<open>include/net.hpp\<close> and
  \<open>include/beast.hpp\<close> hold nothing else. The servers in other languages and the clients are other
  programs.
\<close>

section \<open>The process as a whole\<close>

text \<open>C4: The process never goes wrong and is a chat room, whatever the order of its events: no handler of
  the listener, of a session or of a connection lets an exception out, uses an empty parser or touches
  a destroyed object, and each event leaves the room as it is or makes one announcement in it, that of
  a chat event that could happen.\<close>

theorem process_is_room:
  assumes "platform_ok P" and "sys_reachable P s" and "sys_step P s e s'"
  shows "crash (chat s') = None \<and> no_dangling (chat s') \<and>
    (chat s' = chat s \<or> (\<exists>f. enabled f (chat s) \<and>
       room_of (chat s') = room_apply (announce P f (chat s)) (room_of (chat s))))"
proof -
  have "sys_reachable P s'" using assms(2,3) by (rule reach_step)
  from sys_invs(1) [OF assms(1) this] have I: "world_inv P [] (chat s')" .
  have J: "world_inv P [] (chat s)" by (rule sys_invs(1) [OF assms(1,2)])
  show ?thesis
    using sys_step_chat [OF sys_invs(2) [OF assms(1,2)] assms(3)] invD(1,3) [OF I] exec_announce [OF assms(1) J]
    by (auto simp: step_iff)
qed

theorem process_is_room_witness:
  "crash (chat (sys_exec demo (Http_Read first Success upgrade) served)) = None"
  using process_is_room [OF demo_ok served_reach upgrade_step] by simp

text \<open>C7: A client that asks for an upgrade can always be let in: from any state of the process in which
  its request is read, the completion of its own operations alone, one handshake, one posted call and
  one write, makes it, which was none, a member of the chat and brings its own connect message to its
  socket, and nothing before it.\<close>

theorem newcomer_greeted:
  assumes "platform_ok P" and "sys_reachable P s" and "sys_step P s (Http_Read h Success req) s1"
    and "is_upgrade req" and "c = Conn (next_conn (chat s))" and "\<not> stopped s"
  shows "\<exists>s' t. sys_run P [Ws (Accepted c Success), Ws (Posted c), Ws (Written c Success)] s1 = Some s' \<and>
    c \<notin> set (clients (chat s)) \<and> c \<in> set (clients (chat s')) \<and> wire (chat s') c = [t] \<and> message_of_string (json P) junk t =
      Inr (message_system Connect (random_uuid P (conn_index c)) (clock P (ticks (chat s))))"
proof -
  note inv = sys_invs [OF assms(1,2)]
  have en: "sys_enabled (Http_Read h Success req) s" and s1: "s1 = sys_exec P (Http_Read h Success req) s"
    using assms(3) by (auto simp: sys_step_iff)
  obtain k where f: "sessions s h = Some (fresh_session k)" by (rule read_enabled [OF inv(2) en])
  let ?w = "opened P (chat s)"
  have w: "chat s1 = ?w" and st: "\<not> stopped s1"
    using assms(4,6) sys_exec_read(1) [OF f, of P req] exec_Open [OF inv(1)] by (simp_all add: s1 world_simps)
  have W: "world_inv P [] ?w" by (rule inv_opened [OF inv(1)])
  have a: "accepts (ops ?w c) > 0" using assms(5) by (simp add: world_simps)
  obtain t where t: "system_text P Connect (random_uuid P (conn_index c)) (ticks ?w) = Inr t"
    and e: "exec P (Accepted c Success) ?w = pop_stack c (set_ops c (\<lambda>q. q\<lparr>reads := Suc (reads q)\<rparr>)
      (joined P c t (begun c (\<lambda>q. q\<lparr>accepts := accepts q - 1\<rparr>) ?w)))"
    and V: "world_inv P [] (exec P (Accepted c Success) ?w)"
    by (rule exec_Accepted_ok [OF assms(1) W a])
  let ?v = "exec P (Accepted c Success) ?w"
  let ?x = "\<lparr>buffer = '''', queue = [], uuid = random_uuid P (next_conn (chat s))\<rparr>"
  have v: "heap ?v c = Some ?x" "reads (ops ?v c) = 1" "posts (ops ?v c) = [t]" "sent ?v c = [t]"
    unfolding e using assms(5) invD(9) [OF inv(1), of "next_conn (chat s)"]
    by (simp_all add: world_simps no_ops_def)
  obtain w' where r: "run P (drain c ?x (ops ?v c)) ?v = Some w'" and wi: "wire w' c = [t]"
    and h: "heap w' c \<noteq> None" and se: "sent w' c = [t]"
    using drain_run [OF assms(1) V v(1,2)] v(4) by (auto simp: stalled_def)
  have m: "c \<in> set (clients w')"
    by (rule sent_member [OF run_inv [OF assms(1) V r] h]) (simp add: se)
  have n: "c \<notin> set (clients (chat s))"
    using invD(8,11) [OF inv(1)] assms(5) by blast
  have "run P [Accepted c Success, Posted c, Written c Success] ?w = Some w'"
    using r a v(3) invD(1) [OF W] by (simp add: drain_def)
  then have "sys_run P (map Ws [Accepted c Success, Posted c, Written c Success]) s1 = Some (s1\<lparr>chat := w'\<rparr>)"
    using w st by (subst sys_run_ws) simp_all
  then show ?thesis using wi m n system_text_decodes [OF assms(1) t, of junk] by (auto simp: world_simps)
qed

theorem newcomer_greeted_witness:
  "\<exists>s' t. sys_run demo [Ws (Accepted alice Success), Ws (Posted alice), Ws (Written alice Success)]
       (sys_exec demo (Http_Read first Success upgrade) served) = Some s' \<and>
     alice \<in> set (clients (chat s')) \<and> wire (chat s') alice = [t] \<and> message_of_string ref_json junk0 t =
       Inr (message_system Connect (nat_text 0) 0)"
  using newcomer_greeted [OF demo_ok served_reach upgrade_step, of alice junk0]
  by (simp add: upgrade_def world0_def)

end
